(* ===== verification/Prelude.thy ===== *)
theory Prelude
  imports Main "HOL-Library.Sublist"
begin

text \<open>
  Shared vocabulary of the development: Rust strings as lists of Unicode scalar
  values, the part of \<^verbatim>\<open>std::str\<close> that the modelled crates call, results, and the
  generic lemmas on lists and strings that the component theories share.

  A Rust \<^verbatim>\<open>str\<close> is a sequence of \<^verbatim>\<open>char\<close>s, so it is modelled as the list of its
  scalar values.  Where the source works with byte offsets (\<^verbatim>\<open>find\<close>, slicing,
  \<^verbatim>\<open>drain\<close>) the model works with the corresponding character offsets: the source
  only ever slices at character boundaries, and there the two views are in bijection.
  Where a byte length matters by itself, \<open>str_len\<close> gives it.
\<close>

section \<open>Types\<close>

type_synonym uchar = nat
type_synonym str = "uchar list"

text \<open>\<^verbatim>\<open>Result<T, E>\<close> is a sum; \<open>Ok\<close> and \<open>Err\<close> name its injections.\<close>

abbreviation Ok :: "'a \<Rightarrow> 'e + 'a" where "Ok \<equiv> Inr"
abbreviation Err :: "'e \<Rightarrow> 'e + 'a" where "Err \<equiv> Inl"

named_theorems str_defs \<open>definitions of the string functions\<close>
named_theorems msg_defs \<open>definitions of the error texts\<close>

section \<open>Strings\<close>

definition lit :: "string \<Rightarrow> str" where
  "lit s = map of_char s"

abbreviation nl :: uchar where "nl \<equiv> 10"
abbreviation cr :: uchar where "cr \<equiv> 13"

text \<open>\<^verbatim>\<open>char::is_whitespace\<close>: the Unicode property White\_Space.\<close>

definition is_whitespace :: "uchar \<Rightarrow> bool" where
  "is_whitespace c \<longleftrightarrow>
     9 \<le> c \<and> c \<le> 13 \<or> c = 32 \<or> c = 133 \<or> c = 160 \<or> c = 5760 \<or>
     8192 \<le> c \<and> c \<le> 8202 \<or> c = 8232 \<or> c = 8233 \<or> c = 8239 \<or> c = 8287 \<or> c = 12288"

definition is_ascii_digit :: "uchar \<Rightarrow> bool" where
  "is_ascii_digit c \<longleftrightarrow> 48 \<le> c \<and> c \<le> 57"

definition ascii_lower :: "uchar \<Rightarrow> uchar" where
  "ascii_lower c = (if 65 \<le> c \<and> c \<le> 90 then c + 32 else c)"

definition to_ascii_lowercase :: "str \<Rightarrow> str" where
  "to_ascii_lowercase s = map ascii_lower s"

definition eq_ignore_ascii_case :: "str \<Rightarrow> str \<Rightarrow> bool" where
  "eq_ignore_ascii_case a b \<longleftrightarrow> to_ascii_lowercase a = to_ascii_lowercase b"

definition trim_start_matches :: "(uchar \<Rightarrow> bool) \<Rightarrow> str \<Rightarrow> str" where
  "trim_start_matches p s = dropWhile p s"

definition trim_end_matches :: "(uchar \<Rightarrow> bool) \<Rightarrow> str \<Rightarrow> str" where
  "trim_end_matches p s = rev (dropWhile p (rev s))"

definition trim_start :: "str \<Rightarrow> str" where
  "trim_start s = trim_start_matches is_whitespace s"

definition trim_end :: "str \<Rightarrow> str" where
  "trim_end s = trim_end_matches is_whitespace s"

definition trim :: "str \<Rightarrow> str" where
  "trim s = trim_end (trim_start s)"

definition starts_with :: "str \<Rightarrow> str \<Rightarrow> bool" where
  "starts_with s p \<longleftrightarrow> take (length p) s = p"

definition ends_with :: "str \<Rightarrow> str \<Rightarrow> bool" where
  "ends_with s p \<longleftrightarrow> length p \<le> length s \<and> drop (length s - length p) s = p"

definition strip_prefix :: "str \<Rightarrow> str \<Rightarrow> str option" where
  "strip_prefix s p = (if starts_with s p then Some (drop (length p) s) else None)"

definition strip_suffix :: "str \<Rightarrow> str \<Rightarrow> str option" where
  "strip_suffix s p = (if ends_with s p then Some (take (length s - length p) s) else None)"

text \<open>\<^verbatim>\<open>str::find\<close> with a string pattern: the least offset at which it occurs.\<close>

fun find_str :: "str \<Rightarrow> str \<Rightarrow> nat option" where
  "find_str [] p = (if p = [] then Some 0 else None)"
| "find_str (c # s) p =
     (if starts_with (c # s) p then Some 0 else map_option Suc (find_str s p))"

definition contains_str :: "str \<Rightarrow> str \<Rightarrow> bool" where
  "contains_str s p \<longleftrightarrow> find_str s p \<noteq> None"

text \<open>\<^verbatim>\<open>str::split(char)\<close>: always at least one piece.\<close>

fun split_char :: "uchar \<Rightarrow> str \<Rightarrow> str list" where
  "split_char d [] = [[]]"
| "split_char d (c # s) =
     (if c = d then [] # split_char d s
      else (case split_char d s of [] \<Rightarrow> [[c]] | p # ps \<Rightarrow> (c # p) # ps))"

text \<open>\<^verbatim>\<open>split_once\<close> and \<^verbatim>\<open>rsplit_once\<close> with a character pattern.\<close>

fun split_once :: "uchar \<Rightarrow> str \<Rightarrow> (str \<times> str) option" where
  "split_once d [] = None"
| "split_once d (c # s) =
     (if c = d then Some ([], s)
      else map_option (\<lambda>(a, b). (c # a, b)) (split_once d s))"

definition rsplit_once :: "uchar \<Rightarrow> str \<Rightarrow> (str \<times> str) option" where
  "rsplit_once d s = map_option (\<lambda>(a, b). (rev b, rev a)) (split_once d (rev s))"

text \<open>\<^verbatim>\<open>[String]::join\<close>.\<close>

fun join_str :: "str \<Rightarrow> str list \<Rightarrow> str" where
  "join_str sep [] = []"
| "join_str sep [x] = x"
| "join_str sep (x # y # ys) = x @ sep @ join_str sep (y # ys)"

text \<open>
  \<^verbatim>\<open>str::lines\<close>: the text is cut after every newline; a piece that ends in a newline
  loses it, and then one carriage return before it; a last piece without a newline is
  kept as it is, and an empty last piece is no line.
\<close>

definition strip_cr :: "str \<Rightarrow> str" where
  "strip_cr s = (case strip_suffix s [cr] of None \<Rightarrow> s | Some r \<Rightarrow> r)"

fun lines_of_pieces :: "str list \<Rightarrow> str list" where
  "lines_of_pieces [] = []"
| "lines_of_pieces [p] = (if p = [] then [] else [p])"
| "lines_of_pieces (p # q # ps) = strip_cr p # lines_of_pieces (q # ps)"

definition str_lines :: "str \<Rightarrow> str list" where
  "str_lines s = lines_of_pieces (split_char nl s)"

text \<open>The number of bytes of a string in UTF-8 (\<^verbatim>\<open>str::len\<close>).\<close>

definition len_utf8 :: "uchar \<Rightarrow> nat" where
  "len_utf8 c = (if c < 128 then 1 else if c < 2048 then 2 else if c < 65536 then 3 else 4)"

definition str_len :: "str \<Rightarrow> nat" where
  "str_len s = sum_list (map len_utf8 s)"

text \<open>\<^verbatim>\<open>last().is_some_and(p)\<close> and popping the last element.\<close>

definition last_is_some_and :: "'a list \<Rightarrow> ('a \<Rightarrow> bool) \<Rightarrow> bool" where
  "last_is_some_and xs p \<longleftrightarrow> xs \<noteq> [] \<and> p (last xs)"

text \<open>Decimal rendering of a \<^verbatim>\<open>usize\<close> in a format string.\<close>

fun show_nat :: "nat \<Rightarrow> str" where
  "show_nat n = (if n < 10 then [48 + n] else show_nat (n div 10) @ [48 + n mod 10])"

declare show_nat.simps [simp del]

lemmas [str_defs] =
  trim_start_matches_def trim_end_matches_def trim_start_def trim_end_def trim_def
  starts_with_def ends_with_def strip_prefix_def strip_suffix_def contains_str_def
  rsplit_once_def strip_cr_def str_lines_def to_ascii_lowercase_def

section \<open>Prefixes and suffixes\<close>

lemma starts_with_prefix: "starts_with s p \<longleftrightarrow> prefix p s"
  by (auto simp: starts_with_def prefix_def) (metis append_take_drop_id)

lemma ends_with_suffix: "ends_with s p \<longleftrightarrow> suffix p s"
  by (auto simp: ends_with_def suffix_def) (metis append_take_drop_id)

lemma starts_with_Nil [simp]: "starts_with s []"
  by (simp add: starts_with_def)

lemma starts_with_append [simp]: "starts_with (p @ s) p"
  by (simp add: starts_with_def)

lemma strip_prefix_append [simp]: "strip_prefix (p @ s) p = Some s"
  by (simp add: strip_prefix_def)

lemma strip_prefix_Some: "strip_prefix s p = Some r \<longleftrightarrow> s = p @ r"
  by (auto simp: strip_prefix_def starts_with_def split: if_splits)
     (metis append_take_drop_id)

lemma strip_suffix_Some: "strip_suffix s p = Some r \<longleftrightarrow> s = r @ p"
  by (auto simp: strip_suffix_def ends_with_def split: if_splits)
     (metis append_take_drop_id)

lemma strip_prefix_None: "strip_prefix s p = None \<longleftrightarrow> \<not> prefix p s"
  by (simp add: strip_prefix_def starts_with_prefix)

lemma strip_prefix_Cons_Cons [simp]:
  "strip_prefix (a # s) (b # p) = (if a = b then strip_prefix s p else None)"
  by (simp add: strip_prefix_def starts_with_def)

lemma strip_prefix_Nil_right [simp]: "strip_prefix s [] = Some s"
  by (simp add: strip_prefix_def)

lemma strip_prefix_Nil_Cons [simp]: "strip_prefix [] (b # p) = None"
  by (simp add: strip_prefix_def starts_with_def)

section \<open>Trimming\<close>

lemma trim_end_Nil [simp]: "trim_end [] = []"
  and trim_start_Nil [simp]: "trim_start [] = []"
  and trim_Nil [simp]: "trim [] = []"
  by (simp_all add: str_defs)

lemma trim_end_matches_idem [simp]:
  "trim_end_matches p (trim_end_matches p s) = trim_end_matches p s"
  by (simp add: trim_end_matches_def)

lemma trim_end_idem [simp]: "trim_end (trim_end s) = trim_end s"
  by (simp add: trim_end_def)

lemma trim_start_idem [simp]: "trim_start (trim_start s) = trim_start s"
  by (simp add: trim_start_def trim_start_matches_def)

lemma trim_end_snoc:
  "trim_end (s @ [c]) = (if is_whitespace c then trim_end s else s @ [c])"
  by (simp add: str_defs)

lemma trim_start_Cons:
  "trim_start (c # s) = (if is_whitespace c then trim_start s else c # s)"
  by (simp add: str_defs)

lemma trim_end_Cons:
  "trim_end (c # s) = (if is_whitespace c \<and> trim_end s = [] then [] else c # trim_end s)"
proof (induction s rule: rev_induct)
  case Nil
  show ?case by (simp add: str_defs)
next
  case (snoc x xs)
  have "trim_end (c # xs @ [x]) = (if is_whitespace x then trim_end (c # xs) else c # xs @ [x])"
    using trim_end_snoc [of "c # xs" x] by simp
  then show ?case using snoc by (auto simp: trim_end_snoc)
qed

lemma trim_end_eq_Nil: "trim_end s = [] \<longleftrightarrow> (\<forall>c \<in> set s. is_whitespace c)"
  by (induction s) (auto simp: trim_end_Cons)

lemma trim_start_eq_Nil: "trim_start s = [] \<longleftrightarrow> (\<forall>c \<in> set s. is_whitespace c)"
  by (simp add: str_defs dropWhile_eq_Nil_conv)

lemma trim_start_end: "trim_start (trim_end s) = trim_end (trim_start s)"
proof (induction s)
  case (Cons c s)
  show ?case
  proof (cases "is_whitespace c")
    case True
    have "trim_end s = [] \<Longrightarrow> trim_end (trim_start s) = []"
      using Cons.IH by (metis trim_start_Nil)
    with True Cons.IH show ?thesis by (auto simp: trim_end_Cons trim_start_Cons)
  next
    case False
    then show ?thesis by (simp add: trim_end_Cons trim_start_Cons)
  qed
qed simp

lemma trim_trim_end [simp]: "trim (trim_end s) = trim s"
  by (simp add: trim_def trim_start_end)

lemma trim_trim_start [simp]: "trim (trim_start s) = trim s"
  by (simp add: trim_def)

lemma trim_idem [simp]: "trim (trim s) = trim s"
  by (simp add: trim_def trim_start_end)

lemma trim_end_prefix: "prefix (trim_end s) s"
  by (induction s) (auto simp: trim_end_Cons)

lemma trim_start_suffix: "suffix (trim_start s) s"
  by (simp add: str_defs suffix_dropWhile)

lemma set_trim_end: "set (trim_end s) \<subseteq> set s"
  using trim_end_prefix set_mono_prefix by blast

lemma set_trim_start: "set (trim_start s) \<subseteq> set s"
  by (metis set_mono_suffix trim_start_suffix)

lemma set_trim: "set (trim s) \<subseteq> set s"
  using set_trim_end set_trim_start by (fastforce simp: trim_def)

lemma trim_end_id: "s = [] \<or> \<not> is_whitespace (last s) \<Longrightarrow> trim_end s = s"
  by (induction s rule: rev_induct) (auto simp: trim_end_snoc)

lemma trim_start_id: "s = [] \<or> \<not> is_whitespace (hd s) \<Longrightarrow> trim_start s = s"
  by (cases s) (auto simp: trim_start_Cons)

lemma trim_id:
  "s = [] \<or> \<not> is_whitespace (hd s) \<and> \<not> is_whitespace (last s) \<Longrightarrow> trim s = s"
  by (auto simp: trim_def trim_start_id trim_end_id)

lemma trim_end_last: "trim_end s \<noteq> [] \<Longrightarrow> \<not> is_whitespace (last (trim_end s))"
  by (induction s rule: rev_induct) (auto simp: trim_end_snoc split: if_splits)

lemma is_whitespace_nl [simp]: "is_whitespace nl"
  and is_whitespace_cr [simp]: "is_whitespace cr"
  and is_whitespace_space [simp]: "is_whitespace 32"
  by (simp_all add: is_whitespace_def)

section \<open>Splitting and joining lines\<close>

lemma split_char_not_Nil [simp]: "split_char d s \<noteq> []"
  by (induction s) (auto split: list.splits)

lemma join_str_Cons: "join_str sep (x # xs) = (if xs = [] then x else x @ sep @ join_str sep xs)"
  by (cases xs) auto

lemma join_split_char: "join_str [d] (split_char d s) = s"
proof (induction s)
  case (Cons c s)
  then show ?case
    by (cases "split_char d s") (auto simp: join_str_Cons)
qed simp

lemma split_char_no_delim: "d \<notin> set s \<Longrightarrow> split_char d s = [s]"
  by (induction s) auto

lemma split_char_append:
  "d \<notin> set x \<Longrightarrow> split_char d (x @ d # s) = x # split_char d s"
  by (induction x) auto

lemma split_join:
  "xs \<noteq> [] \<Longrightarrow> \<forall>x \<in> set xs. d \<notin> set x \<Longrightarrow> split_char d (join_str [d] xs) = xs"
  by (induction "[d]" xs rule: join_str.induct)
     (auto simp: split_char_no_delim split_char_append)

lemma split_char_pieces: "x \<in> set (split_char d s) \<Longrightarrow> d \<notin> set x"
  by (induction s arbitrary: x) (auto split: if_splits list.splits)

lemma set_split_char: "x \<in> set (split_char d s) \<Longrightarrow> set x \<subseteq> set s"
  by (induction s arbitrary: x) (fastforce split: if_splits list.splits)+

lemma join_str_snoc:
  "xs \<noteq> [] \<Longrightarrow> join_str sep (xs @ [x]) = join_str sep xs @ sep @ x"
  by (induction sep xs rule: join_str.induct) (auto simp: join_str_Cons)

lemma split_once_Some:
  "split_once d s = Some (a, b) \<longleftrightarrow> s = a @ d # b \<and> d \<notin> set a"
proof (induction s arbitrary: a)
  case (Cons c s)
  then show ?case by (cases a) (auto split: if_splits)
qed simp

lemma split_once_None: "split_once d s = None \<longleftrightarrow> d \<notin> set s"
  by (induction s) auto

lemma rsplit_once_Some:
  "rsplit_once d s = Some (a, b) \<longleftrightarrow> s = a @ d # b \<and> d \<notin> set b"
proof -
  have "rsplit_once d s = Some (a, b) \<longleftrightarrow> split_once d (rev s) = Some (rev b, rev a)"
    by (auto simp: rsplit_once_def)
  also have "\<dots> \<longleftrightarrow> rev s = rev (a @ d # b) \<and> d \<notin> set b"
    by (simp add: split_once_Some)
  finally show ?thesis by (simp only: rev_is_rev_conv)
qed

section \<open>Searching\<close>

lemma find_str_Nil_right [simp]: "find_str s [] = Some 0"
  by (cases s) simp_all

lemma find_str_None: "find_str s p = None \<longleftrightarrow> \<not> sublist p s"
  by (induction s) (auto simp: sublist_Cons_right starts_with_prefix)

lemma find_str_Some:
  assumes "find_str s p = Some i"
  shows "\<exists>a b. s = a @ p @ b \<and> length a = i"
  using assms
proof (induction s arbitrary: i)
  case (Cons c s)
  show ?case
  proof (cases "starts_with (c # s) p")
    case True
    then show ?thesis using Cons.prems by (auto simp: starts_with_prefix prefix_def)
  next
    case False
    with Cons.prems obtain j where "find_str s p = Some j" "i = Suc j" by auto
    then show ?thesis using Cons.IH [of j] by (metis append_Cons length_Cons)
  qed
qed (auto split: if_splits)

lemma find_str_le: "find_str s p = Some i \<Longrightarrow> i + length p \<le> length s"
  by (fastforce dest: find_str_Some)

text \<open>The occurrence found is the first, and it does not move when text is appended.\<close>

lemma find_str_append:
  "find_str s p = Some i \<Longrightarrow> find_str (s @ t) p = Some i"
proof (induction s arbitrary: i)
  case (Cons c s)
  show ?case
  proof (cases "starts_with (c # s) p")
    case True
    then have "starts_with (c # s @ t) p"
      by (metis append_Cons prefix_prefix starts_with_prefix)
    with True Cons.prems show ?thesis by simp
  next
    case False
    with Cons.prems obtain j where j: "find_str s p = Some j" "i = Suc j" by auto
    have "\<not> starts_with (c # s @ t) p"
    proof
      assume "starts_with (c # s @ t) p"
      then have "prefix p ((c # s) @ t)" by (simp add: starts_with_prefix)
      moreover have "length p \<le> length (c # s)" using find_str_le [OF j(1)] by simp
      ultimately have "prefix p (c # s)" by (metis prefix_append prefix_length_prefix prefixI)
      with False show False by (simp add: starts_with_prefix)
    qed
    with j Cons.IH show ?thesis by simp
  qed
qed (auto split: if_splits)

end
