(* ===== verification/Seek_Sequence.thy ===== *)
theory Seek_Sequence
  imports Prelude
begin

text \<open>
  Locating the old lines of a patch chunk in a file:
  \<^verbatim>\<open>apply-patch/src/seek_sequence.rs\<close>.  Four passes of decreasing strictness scan the
  same range of positions; each is a \<open>find\<close> over that range, as the source's \<open>for\<close> loop
  with an early return is.  The lemmas say which position is returned (the first one of
  the strictest pass that has any), that it is in range, and when there is none.
\<close>

section \<open>The search\<close>

text \<open>The punctuation map of the last pass; the numbers are the code points of the source.\<close>

definition normalise_char :: "uchar \<Rightarrow> uchar" where
  "normalise_char c =
     (if c \<in> set [0x2010, 0x2011, 0x2012, 0x2013, 0x2014, 0x2015, 0x2212] then 45
      else if c \<in> set [0x2018, 0x2019, 0x201A, 0x201B] then 39
      else if c \<in> set [0x201C, 0x201D, 0x201E, 0x201F] then 34
      else if c \<in> set [0x00A0, 0x2002, 0x2003, 0x2004, 0x2005, 0x2006, 0x2007, 0x2008,
                        0x2009, 0x200A, 0x202F, 0x205F, 0x3000] then 32
      else c)"

definition normalise :: "str \<Rightarrow> str" where
  "normalise s = map normalise_char (trim s)"

text \<open>The inner loop: every pattern line agrees with the file line at the same offset.\<close>

definition window_matches :: "(str \<Rightarrow> str) \<Rightarrow> str list \<Rightarrow> str list \<Rightarrow> nat \<Rightarrow> bool" where
  "window_matches f lines pattern i =
     list_all (\<lambda>(p_idx, pat). f (lines ! (i + p_idx)) = f pat) (List.enumerate 0 pattern)"

definition slice_matches :: "str list \<Rightarrow> str list \<Rightarrow> nat \<Rightarrow> bool" where
  "slice_matches lines pattern i \<longleftrightarrow> take (length pattern) (drop i lines) = pattern"

definition search_range :: "str list \<Rightarrow> str list \<Rightarrow> nat \<Rightarrow> bool \<Rightarrow> nat list" where
  "search_range lines pattern start eof =
     (let search_start =
        (if eof \<and> length lines \<ge> length pattern then length lines - length pattern else start)
      in [search_start ..< Suc (length lines - length pattern)])"

definition seek_sequence :: "str list \<Rightarrow> str list \<Rightarrow> nat \<Rightarrow> bool \<Rightarrow> nat option" where
  "seek_sequence lines pattern start eof =
     (if pattern = [] then Some start
      else if length pattern > length lines then None
      else let range = search_range lines pattern start eof in
        (case List.find (slice_matches lines pattern) range of
           Some i \<Rightarrow> Some i
         | None \<Rightarrow> (case List.find (window_matches trim_end lines pattern) range of
             Some i \<Rightarrow> Some i
           | None \<Rightarrow> (case List.find (window_matches trim lines pattern) range of
               Some i \<Rightarrow> Some i
             | None \<Rightarrow> List.find (window_matches normalise lines pattern) range))))"

section \<open>Windows\<close>

lemma window_matches_iff:
  "window_matches f lines pattern i \<longleftrightarrow>
     (\<forall>k < length pattern. f (lines ! (i + k)) = f (pattern ! k))"
  by (auto simp: window_matches_def list_all_iff in_set_enumerate_eq)

lemma slice_matches_window:
  assumes "i + length pattern \<le> length lines"
  shows "slice_matches lines pattern i \<longleftrightarrow> window_matches (\<lambda>l. l) lines pattern i"
  using assms unfolding slice_matches_def window_matches_iff
  by (subst list_eq_iff_nth_eq) auto

text \<open>Each pass accepts what the stricter one before it accepts.\<close>

lemma window_matches_mono:
  "(\<And>a b. f a = f b \<Longrightarrow> g a = g b) \<Longrightarrow>
   window_matches f lines pattern i \<Longrightarrow> window_matches g lines pattern i"
  unfolding window_matches_iff by blast

lemma trim_end_eq_trim: "trim_end a = trim_end b \<Longrightarrow> trim a = trim b"
  by (metis trim_trim_end)

lemma trim_eq_normalise: "trim a = trim b \<Longrightarrow> normalise a = normalise b"
  by (simp add: normalise_def)

lemma slice_rstrip:
  "i + length pattern \<le> length lines \<Longrightarrow> slice_matches lines pattern i \<Longrightarrow>
   window_matches trim_end lines pattern i"
  by (auto simp: slice_matches_window window_matches_iff)

lemma rstrip_trim:
  "window_matches trim_end lines pattern i \<Longrightarrow> window_matches trim lines pattern i"
  by (rule window_matches_mono [OF trim_end_eq_trim])

lemma trim_normalise:
  "window_matches trim lines pattern i \<Longrightarrow> window_matches normalise lines pattern i"
  by (rule window_matches_mono [OF trim_eq_normalise])

section \<open>The range of positions\<close>

lemma set_search_range:
  "length pattern \<le> length lines \<Longrightarrow>
   i \<in> set (search_range lines pattern start eof) \<longleftrightarrow>
     i + length pattern \<le> length lines \<and>
     (if eof then i = length lines - length pattern else start \<le> i)"
  by (auto simp: search_range_def Let_def)

lemma sorted_search_range: "sorted_wrt (<) (search_range lines pattern start eof)"
  unfolding search_range_def Let_def by (rule sorted_wrt_upt)

lemma find_SomeD: "List.find P xs = Some x \<Longrightarrow> x \<in> set xs \<and> P x"
  by (auto simp: find_Some_iff)

lemma find_first:
  assumes "sorted_wrt (<) xs" "x \<in> set xs" "P x" "\<And>y. y \<in> set xs \<Longrightarrow> y < x \<Longrightarrow> \<not> P y"
  shows "List.find P xs = Some (x :: nat)"
  using assms
proof (induction xs)
  case (Cons a xs)
  show ?case
  proof (cases "a = x")
    case True
    with Cons.prems(3) show ?thesis by simp
  next
    case False
    with Cons.prems have "x \<in> set xs" "a < x" by auto
    with Cons show ?thesis by simp
  qed
qed simp

section \<open>What the search returns\<close>

lemma seek_sequence_Nil [simp]: "seek_sequence lines [] start eof = Some start"
  by (simp add: seek_sequence_def)

lemma seek_sequence_SomeD:
  assumes "seek_sequence lines pattern start eof = Some i" "pattern \<noteq> []"
  shows "length pattern \<le> length lines"
    and "i \<in> set (search_range lines pattern start eof)"
    and "window_matches normalise lines pattern i"
proof -
  show len: "length pattern \<le> length lines"
    using assms by (auto simp: seek_sequence_def split: if_splits)
  let ?r = "search_range lines pattern start eof"
  from assms len have
    "i \<in> set ?r \<and> (slice_matches lines pattern i \<or> window_matches trim_end lines pattern i \<or>
      window_matches trim lines pattern i \<or> window_matches normalise lines pattern i)"
    by (auto simp: seek_sequence_def Let_def split: if_splits option.splits dest!: find_SomeD)
  then show "i \<in> set ?r" "window_matches normalise lines pattern i"
    using len by (auto simp: set_search_range intro: slice_rstrip rstrip_trim trim_normalise)
qed


text \<open>
  The passes as a list, strictest first: the position returned is the first position of
  the first pass that has one.
\<close>

definition seek_passes :: "str list \<Rightarrow> str list \<Rightarrow> (nat \<Rightarrow> bool) list" where
  "seek_passes lines pattern =
     [slice_matches lines pattern, window_matches trim_end lines pattern,
      window_matches trim lines pattern, window_matches normalise lines pattern]"

lemma seek_sequence_passes:
  assumes "pattern \<noteq> []" "length pattern \<le> length lines"
  shows "seek_sequence lines pattern start eof =
    (case List.find (\<lambda>p. List.find p (search_range lines pattern start eof) \<noteq> None)
            (seek_passes lines pattern) of
       None \<Rightarrow> None
     | Some p \<Rightarrow> List.find p (search_range lines pattern start eof))"
  using assms by (simp add: seek_sequence_def seek_passes_def Let_def split: option.split)

text \<open>An exact match anywhere in the range wins over every fuzzier one.\<close>

lemma seek_sequence_exact:
  assumes "pattern \<noteq> []" "length pattern \<le> length lines"
    and "i \<in> set (search_range lines pattern start eof)" "slice_matches lines pattern i"
    and "\<And>j. j \<in> set (search_range lines pattern start eof) \<Longrightarrow> j < i \<Longrightarrow>
           \<not> slice_matches lines pattern j"
  shows "seek_sequence lines pattern start eof = Some i"
proof -
  have "List.find (slice_matches lines pattern) (search_range lines pattern start eof) = Some i"
    using assms by (intro find_first sorted_search_range) auto
  with assms(1,2) show ?thesis by (simp add: seek_sequence_def Let_def)
qed

lemma seek_sequence_eof:
  "seek_sequence lines pattern start True = Some i \<Longrightarrow> pattern \<noteq> [] \<Longrightarrow>
   i = length lines - length pattern"
  using seek_sequence_SomeD [of lines pattern start True i] by (simp add: set_search_range)

lemma seek_sequence_ge:
  "seek_sequence lines pattern start False = Some i \<Longrightarrow> start \<le> i"
  using seek_sequence_SomeD [of lines pattern start False i]
  by (cases "pattern = []") (auto simp: set_search_range)

lemma seek_sequence_bound:
  "seek_sequence lines pattern start eof = Some i \<Longrightarrow> pattern \<noteq> [] \<Longrightarrow>
   i + length pattern \<le> length lines"
  using seek_sequence_SomeD [of lines pattern start eof i] by (auto simp: set_search_range)

section \<open>Properties\<close>

text \<open>The equations that evaluate the search on concrete lines.\<close>

lemmas seek_eval = seek_sequence_def search_range_def slice_matches_def window_matches_def
  normalise_def normalise_char_def trim_def trim_start_def trim_end_def trim_start_matches_def
  trim_end_matches_def is_whitespace_def lit_def upt_rec Let_def

text \<open>
  A position returned for a non-empty pattern leaves room for the whole pattern, lies
  at or after the requested start (or is the last possible position when the end of file
  is asked for), and every pattern line agrees there with the file line up to whitespace at
  the ends and typographic punctuation.
\<close>

theorem seek_sequence_sound:
  assumes "seek_sequence lines pattern start eof = Some i" "pattern \<noteq> []"
  shows "i + length pattern \<le> length lines \<and>
    (if eof then i = length lines - length pattern else start \<le> i) \<and>
    (\<forall>k < length pattern. normalise (lines ! (i + k)) = normalise (pattern ! k))"
  using seek_sequence_SomeD [OF assms] by (simp add: set_search_range window_matches_iff)

theorem seek_sequence_sound_witness:
  "seek_sequence [lit ''a'', lit ''b '', lit ''c''] [lit ''b'', lit ''c''] 0 False = Some 1 \<and>
   (1::nat) + 2 \<le> 3 \<and> normalise (lit ''b '') = normalise (lit ''b'')"
proof -
  let ?ls = "[lit ''a'', lit ''b '', lit ''c'']" and ?ps = "[lit ''b'', lit ''c'']"
  have *: "seek_sequence ?ls ?ps 0 False = Some 1"
    by (simp add: seek_eval)
  from seek_sequence_sound [OF *] have "1 + length ?ps \<le> length ?ls \<and>
      (\<forall>k < length ?ps. normalise (?ls ! (1 + k)) = normalise (?ps ! k))" by simp
  then have "normalise (?ls ! (1 + 0)) = normalise (?ps ! 0)" by fastforce
  with * show ?thesis by simp
qed



text \<open>
  Strictness decides before position: when some position in range matches the pattern
  exactly, the result is an exact match as well, and the first one.
\<close>

theorem seek_sequence_exact_first:
  assumes "pattern \<noteq> []" "j + length pattern \<le> length lines"
    and "if eof then j = length lines - length pattern else start \<le> j"
    and "take (length pattern) (drop j lines) = pattern"
  shows "\<exists>i \<le> j. seek_sequence lines pattern start eof = Some i \<and>
    take (length pattern) (drop i lines) = pattern"
proof -
  let ?r = "search_range lines pattern start eof"
  have "j \<in> set ?r" using assms by (simp add: set_search_range)
  then obtain i where i: "List.find (slice_matches lines pattern) ?r = Some i"
    using assms(4) by (cases "List.find (slice_matches lines pattern) ?r")
      (auto simp: find_None_iff slice_matches_def)
  then have "\<not> j < i"
    using \<open>j \<in> set ?r\<close> assms(4) sorted_search_range [of lines pattern start eof]
    by (auto simp: find_Some_iff slice_matches_def in_set_conv_nth sorted_wrt_iff_nth_less)
       (metis not_less_iff_gr_or_eq)
  moreover have "seek_sequence lines pattern start eof = Some i"
    using i assms(1,2) by (simp add: seek_sequence_def)
  ultimately show ?thesis
    using find_SomeD [OF i] by (auto simp: slice_matches_def)
qed

theorem seek_sequence_exact_first_witness:
  "\<exists>i \<le> 1. seek_sequence [lit ''x '', lit ''x''] [lit ''x''] 0 False = Some i \<and>
    take 1 (drop i [lit ''x '', lit ''x'']) = [lit ''x'']"
  using seek_sequence_exact_first [of "[lit ''x'']" 1 "[lit ''x '', lit ''x'']" False 0] by simp

end
