(* ===== verification/Patch_Parser.thy ===== *)
theory Patch_Parser
  imports Prelude
begin

text \<open>
  The patch parser: \<^verbatim>\<open>apply-patch/src/parser.rs\<close> and
  \<^verbatim>\<open>apply-patch/src/streaming_parser.rs\<close>.  The streaming parser is a mutable struct, so
  each of its methods takes the parser and returns the result together with the parser
  afterwards, also when the result is an error.  Paths are the strings the patch spells
  them with.
\<close>

section \<open>Data\<close>

definition BEGIN_PATCH_MARKER :: str where "BEGIN_PATCH_MARKER = lit ''*** Begin Patch''"
definition END_PATCH_MARKER :: str where "END_PATCH_MARKER = lit ''*** End Patch''"
definition ADD_FILE_MARKER :: str where "ADD_FILE_MARKER = lit ''*** Add File: ''"
definition DELETE_FILE_MARKER :: str where "DELETE_FILE_MARKER = lit ''*** Delete File: ''"
definition UPDATE_FILE_MARKER :: str where "UPDATE_FILE_MARKER = lit ''*** Update File: ''"
definition MOVE_TO_MARKER :: str where "MOVE_TO_MARKER = lit ''*** Move to: ''"
definition EOF_MARKER :: str where "EOF_MARKER = lit ''*** End of File''"
definition CHANGE_CONTEXT_MARKER :: str where "CHANGE_CONTEXT_MARKER = lit ''@@ ''"
definition EMPTY_CHANGE_CONTEXT_MARKER :: str where "EMPTY_CHANGE_CONTEXT_MARKER = lit ''@@''"
definition ENVIRONMENT_ID_MARKER :: str where
  "ENVIRONMENT_ID_MARKER = lit ''*** Environment ID:''"

named_theorems markers \<open>the patch markers\<close>
lemmas [markers] =
  BEGIN_PATCH_MARKER_def END_PATCH_MARKER_def ADD_FILE_MARKER_def DELETE_FILE_MARKER_def
  UPDATE_FILE_MARKER_def MOVE_TO_MARKER_def EOF_MARKER_def CHANGE_CONTEXT_MARKER_def
  EMPTY_CHANGE_CONTEXT_MARKER_def ENVIRONMENT_ID_MARKER_def lit_def

datatype parse_error =
  InvalidPatchError str
| InvalidHunkError (message: str) (error_line: nat)

record update_file_chunk =
  change_context :: "str option"
  old_lines :: "str list"
  new_lines :: "str list"
  is_end_of_file :: bool

datatype hunk =
  AddFile str str
| DeleteFile str
| UpdateFile str "str option" "update_file_chunk list"

text \<open>\<^verbatim>\<open>Hunk::path\<close>: the affected path, the destination for a rename.\<close>

fun hunk_path :: "hunk \<Rightarrow> str" where
  "hunk_path (AddFile path contents) = path"
| "hunk_path (DeleteFile path) = path"
| "hunk_path (UpdateFile path (Some move_path) chunks) = move_path"
| "hunk_path (UpdateFile path None chunks) = path"

text \<open>The path that \<^verbatim>\<open>Hunk::resolve_path\<close> joins to the working directory.\<close>

fun hunk_source_path :: "hunk \<Rightarrow> str" where
  "hunk_source_path (UpdateFile path move_path chunks) = path"
| "hunk_source_path h = hunk_path h"

datatype streaming_parser_mode =
  NotStarted | StartedPatch | AddFileMode | DeleteFileMode
| UpdateFileMode (hunk_line_number: nat) | EndedPatch

record streaming_parser_state =
  mode :: streaming_parser_mode
  hunks :: "hunk list"
  environment_id :: "str option"

record streaming_patch_parser =
  line_buffer :: str
  state :: streaming_parser_state
  line_number :: nat

definition default_parser :: streaming_patch_parser where
  "default_parser =
     \<lparr> line_buffer = [],
       state = \<lparr> mode = NotStarted, hunks = [], environment_id = None \<rparr>,
       line_number = 0 \<rparr>"

record apply_patch_args =
  args_patch :: str
  args_hunks :: "hunk list"
  args_workdir :: "str option"
  args_environment_id :: "str option"

section \<open>Error texts\<close>

definition msg_first_line :: str where
  "msg_first_line = lit ''The first line of the patch must be '' @ [39] @
     lit ''*** Begin Patch'' @ [39]"
definition msg_last_line :: str where
  "msg_last_line = lit ''The last line of the patch must be '' @ [39] @
     lit ''*** End Patch'' @ [39]"
definition msg_env_twice :: str where
  "msg_env_twice = lit ''apply_patch environment_id cannot be specified more than once''"
definition msg_env_empty :: str where
  "msg_env_empty = lit ''apply_patch environment_id cannot be empty''"
definition msg_empty_update :: "str \<Rightarrow> str" where
  "msg_empty_update path = lit ''Update file hunk for path '' @ [39] @ path @ [39] @
     lit '' is empty''"
definition msg_no_lines :: str where
  "msg_no_lines = lit ''Update hunk does not contain any lines''"
definition msg_unexpected_line :: "str \<Rightarrow> str" where
  "msg_unexpected_line line = lit ''Unexpected line found in update hunk: '' @ [39] @ line @
     [39] @ lit ''. Every line should start with '' @ [39, 32, 39] @
     lit '' (context line), '' @ [39, 43, 39] @ lit '' (added line), or '' @
     [39, 45, 39] @ lit '' (removed line)''"
definition msg_expected_context :: "str \<Rightarrow> str" where
  "msg_expected_context line =
     lit ''Expected update hunk to start with a @@ context marker, got: '' @
     [39] @ line @ [39]"
definition msg_not_header :: "str \<Rightarrow> str" where
  "msg_not_header trimmed = [39] @ trimmed @ [39] @
     lit '' is not a valid hunk header. Valid hunk headers: '' @
     [39] @ lit ''*** Add File: {path}'' @ [39] @ lit '', '' @
     [39] @ lit ''*** Delete File: {path}'' @ [39] @ lit '', '' @
     [39] @ lit ''*** Update File: {path}'' @ [39]"

section \<open>The streaming parser\<close>

definition set_mode :: "streaming_parser_mode \<Rightarrow> streaming_patch_parser \<Rightarrow> streaming_patch_parser"
  where "set_mode m p = p\<lparr>state := (state p)\<lparr>mode := m\<rparr>\<rparr>"

definition push_hunk :: "hunk \<Rightarrow> streaming_patch_parser \<Rightarrow> streaming_patch_parser" where
  "push_hunk h p = p\<lparr>state := (state p)\<lparr>hunks := hunks (state p) @ [h]\<rparr>\<rparr>"

definition set_last_hunk :: "hunk \<Rightarrow> streaming_patch_parser \<Rightarrow> streaming_patch_parser" where
  "set_last_hunk h p = p\<lparr>state := (state p)\<lparr>hunks := butlast (hunks (state p)) @ [h]\<rparr>\<rparr>"

definition last_hunk :: "streaming_patch_parser \<Rightarrow> hunk option" where
  "last_hunk p = (if hunks (state p) = [] then None else Some (last (hunks (state p))))"

definition chunk_has_no_lines :: "update_file_chunk \<Rightarrow> bool" where
  "chunk_has_no_lines c \<longleftrightarrow> old_lines c = [] \<and> new_lines c = []"

definition ensure_update_hunk_is_not_empty ::
    "streaming_patch_parser \<Rightarrow> str \<Rightarrow> parse_error + unit" where
  "ensure_update_hunk_is_not_empty p line =
     (case last_hunk p of
        Some (UpdateFile path _ chunks) \<Rightarrow>
          (case (chunks, mode (state p)) of
             ([], UpdateFileMode n) \<Rightarrow> Err (InvalidHunkError (msg_empty_update path) n)
           | _ \<Rightarrow>
             if last_is_some_and chunks chunk_has_no_lines then
               if line = END_PATCH_MARKER
               then Err (InvalidHunkError msg_no_lines (line_number p))
               else Err (InvalidHunkError (msg_unexpected_line line) (line_number p))
             else Ok ())
      | _ \<Rightarrow> Ok ())"

definition handle_environment_id ::
    "streaming_patch_parser \<Rightarrow> str \<Rightarrow> (parse_error + bool) \<times> streaming_patch_parser" where
  "handle_environment_id p raw =
     (if environment_id (state p) \<noteq> None then (Err (InvalidPatchError msg_env_twice), p)
      else let env = trim raw in
        if env = [] then (Err (InvalidPatchError msg_env_empty), p)
        else (Ok True, p\<lparr>state := (state p)\<lparr>environment_id := Some env\<rparr>\<rparr>))"

definition enter_hunk ::
    "streaming_patch_parser \<Rightarrow> str \<Rightarrow> hunk option \<Rightarrow> streaming_parser_mode \<Rightarrow>
     (parse_error + bool) \<times> streaming_patch_parser" where
  "enter_hunk p trimmed h m =
     (case ensure_update_hunk_is_not_empty p trimmed of
        Err e \<Rightarrow> (Err e, p)
      | Ok _ \<Rightarrow> (Ok True,
          set_mode m (case h of None \<Rightarrow> p | Some h' \<Rightarrow> push_hunk h' p)))"

definition handle_end_patch_and_file_headers ::
    "streaming_patch_parser \<Rightarrow> str \<Rightarrow> (parse_error + bool) \<times> streaming_patch_parser" where
  "handle_end_patch_and_file_headers p trimmed =
     (if trimmed = END_PATCH_MARKER then enter_hunk p trimmed None EndedPatch
      else (case strip_prefix trimmed ADD_FILE_MARKER of
        Some path \<Rightarrow> enter_hunk p trimmed (Some (AddFile path [])) AddFileMode
      | None \<Rightarrow> (case strip_prefix trimmed DELETE_FILE_MARKER of
        Some path \<Rightarrow> enter_hunk p trimmed (Some (DeleteFile path)) DeleteFileMode
      | None \<Rightarrow> (case strip_prefix trimmed UPDATE_FILE_MARKER of
        Some path \<Rightarrow> enter_hunk p trimmed (Some (UpdateFile path None []))
                       (UpdateFileMode (line_number p))
      | None \<Rightarrow> (Ok False, p)))))"

definition handle_hunk_headers_and_end_patch ::
    "streaming_patch_parser \<Rightarrow> str \<Rightarrow> (parse_error + bool) \<times> streaming_patch_parser" where
  "handle_hunk_headers_and_end_patch p trimmed =
     (case (mode (state p), strip_prefix trimmed ENVIRONMENT_ID_MARKER) of
        (StartedPatch, Some raw) \<Rightarrow> handle_environment_id p raw
      | _ \<Rightarrow> handle_end_patch_and_file_headers p trimmed)"

text \<open>
  The body of an update hunk, given the pieces of the last hunk.  \<open>Ok None\<close> leaves the
  hunk as it is; \<open>Ok (Some (mv, chunks))\<close> is its new destination and chunk list.
\<close>

definition empty_chunk :: "str option \<Rightarrow> update_file_chunk" where
  "empty_chunk ctx =
     \<lparr> change_context = ctx, old_lines = [], new_lines = [], is_end_of_file = False \<rparr>"

definition ensure_chunk :: "update_file_chunk list \<Rightarrow> update_file_chunk list" where
  "ensure_chunk chunks = (if chunks = [] then [empty_chunk None] else chunks)"

definition map_last :: "('a \<Rightarrow> 'a) \<Rightarrow> 'a list \<Rightarrow> 'a list" where
  "map_last f xs = (if xs = [] then [] else butlast xs @ [f (last xs)])"

definition push_old :: "str \<Rightarrow> update_file_chunk \<Rightarrow> update_file_chunk" where
  "push_old l c = c\<lparr>old_lines := old_lines c @ [l]\<rparr>"

definition push_new :: "str \<Rightarrow> update_file_chunk \<Rightarrow> update_file_chunk" where
  "push_new l c = c\<lparr>new_lines := new_lines c @ [l]\<rparr>"

definition is_context_line :: "str \<Rightarrow> bool" where
  "is_context_line update_line \<longleftrightarrow>
     update_line = EMPTY_CHANGE_CONTEXT_MARKER \<or> starts_with update_line CHANGE_CONTEXT_MARKER"

text \<open>The four kinds of change line, tried in the order of the source.\<close>

definition update_change_line ::
    "nat \<Rightarrow> str option \<Rightarrow> update_file_chunk list \<Rightarrow> str \<Rightarrow>
     parse_error + (str option \<times> update_file_chunk list) option" where
  "update_change_line n mv chunks line =
     (if line = [] then
        Ok (Some (mv, map_last (push_new [] \<circ> push_old []) (ensure_chunk chunks)))
      else (case strip_prefix line (lit '' '') of
        Some l \<Rightarrow> Ok (Some (mv, map_last (push_new l \<circ> push_old l) (ensure_chunk chunks)))
      | None \<Rightarrow> (case strip_prefix line (lit ''+'') of
        Some l \<Rightarrow> Ok (Some (mv, map_last (push_new l) (ensure_chunk chunks)))
      | None \<Rightarrow> (case strip_prefix line (lit ''-'') of
        Some l \<Rightarrow> Ok (Some (mv, map_last (push_old l) (ensure_chunk chunks)))
      | None \<Rightarrow>
        if last_is_some_and chunks (\<lambda>c. \<not> chunk_has_no_lines c)
        then Err (InvalidHunkError (msg_expected_context line) n)
        else Err (InvalidHunkError (msg_unexpected_line line) n)))))"

definition update_hunk_line ::
    "nat \<Rightarrow> str option \<Rightarrow> update_file_chunk list \<Rightarrow> str \<Rightarrow>
     parse_error + (str option \<times> update_file_chunk list) option" where
  "update_hunk_line n mv chunks line =
     (let update_line = trim_end line;
          after_eof = last_is_some_and chunks is_end_of_file in
      if after_eof \<and> update_line = [] then Ok None
      else if after_eof \<and> \<not> is_context_line update_line
      then Err (InvalidHunkError (msg_expected_context line) n)
      else if chunks = [] \<and> mv = None \<and> starts_with update_line MOVE_TO_MARKER
      then Ok (Some (strip_prefix update_line MOVE_TO_MARKER, chunks))
      else if is_context_line update_line \<and> last_is_some_and chunks chunk_has_no_lines
      then Err (InvalidHunkError (msg_unexpected_line line) n)
      else if update_line = EMPTY_CHANGE_CONTEXT_MARKER
      then Ok (Some (mv, chunks @ [empty_chunk None]))
      else (case strip_prefix update_line CHANGE_CONTEXT_MARKER of
        Some ctx \<Rightarrow> Ok (Some (mv, chunks @ [empty_chunk (Some ctx)]))
      | None \<Rightarrow>
        if update_line = EOF_MARKER then
          if last_is_some_and chunks chunk_has_no_lines
          then Err (InvalidHunkError msg_no_lines n)
          else Ok (Some (mv, map_last (\<lambda>c. c\<lparr>is_end_of_file := True\<rparr>) chunks))
        else update_change_line n mv chunks line))"

definition process_update_line ::
    "streaming_patch_parser \<Rightarrow> nat \<Rightarrow> str \<Rightarrow> (parse_error + unit) \<times> streaming_patch_parser" where
  "process_update_line p n line =
     (case handle_hunk_headers_and_end_patch p (trim_end line) of
        (Err e, p') \<Rightarrow> (Err e, p')
      | (Ok True, p') \<Rightarrow> (Ok (), p')
      | (Ok False, p') \<Rightarrow>
        (case last_hunk p' of
           Some (UpdateFile path mv chunks) \<Rightarrow>
             (case update_hunk_line (line_number p') mv chunks line of
                Err e \<Rightarrow> (Err e, p')
              | Ok None \<Rightarrow> (Ok (), p')
              | Ok (Some (mv', chunks')) \<Rightarrow>
                  (Ok (), set_mode (UpdateFileMode n)
                            (set_last_hunk (UpdateFile path mv' chunks') p')))
         | _ \<Rightarrow> (Err (InvalidHunkError (msg_unexpected_line line) (line_number p')), p')))"

definition header_or_error ::
    "streaming_patch_parser \<Rightarrow> str \<Rightarrow> (parse_error + unit) \<times> streaming_patch_parser" where
  "header_or_error p trimmed =
     (case handle_hunk_headers_and_end_patch p trimmed of
        (Err e, p') \<Rightarrow> (Err e, p')
      | (Ok True, p') \<Rightarrow> (Ok (), p')
      | (Ok False, p') \<Rightarrow>
          (Err (InvalidHunkError (msg_not_header trimmed) (line_number p')), p'))"

definition process_add_line ::
    "streaming_patch_parser \<Rightarrow> str \<Rightarrow> (parse_error + unit) \<times> streaming_patch_parser" where
  "process_add_line p line =
     (case handle_hunk_headers_and_end_patch p (trim line) of
        (Err e, p') \<Rightarrow> (Err e, p')
      | (Ok True, p') \<Rightarrow> (Ok (), p')
      | (Ok False, p') \<Rightarrow>
        (case (strip_prefix line (lit ''+''), last_hunk p') of
           (Some l, Some (AddFile path contents)) \<Rightarrow>
             (Ok (), set_last_hunk (AddFile path (contents @ l @ [nl])) p')
         | _ \<Rightarrow> (Err (InvalidHunkError (msg_not_header (trim line)) (line_number p')), p')))"

definition process_line ::
    "streaming_patch_parser \<Rightarrow> str \<Rightarrow> (parse_error + unit) \<times> streaming_patch_parser" where
  "process_line p line =
     (case mode (state p) of
        NotStarted \<Rightarrow>
          if trim line = BEGIN_PATCH_MARKER then (Ok (), set_mode StartedPatch p)
          else (Err (InvalidPatchError msg_first_line), p)
      | StartedPatch \<Rightarrow> header_or_error p (trim line)
      | AddFileMode \<Rightarrow> process_add_line p line
      | DeleteFileMode \<Rightarrow> header_or_error p (trim line)
      | UpdateFileMode n \<Rightarrow> process_update_line p n line
      | EndedPatch \<Rightarrow>
          if trim line = [] then (Ok (), p) else (Err (InvalidPatchError msg_last_line), p))"

text \<open>The end of one line: the buffer is taken, the line counted and processed.\<close>

definition take_line :: "streaming_patch_parser \<Rightarrow> streaming_patch_parser" where
  "take_line p = p\<lparr>line_buffer := [], line_number := line_number p + 1\<rparr>"

fun push_delta ::
    "streaming_patch_parser \<Rightarrow> str \<Rightarrow> (parse_error + hunk list) \<times> streaming_patch_parser" where
  "push_delta p [] = (Ok (hunks (state p)), p)"
| "push_delta p (ch # delta) =
     (if ch = nl then
        (case process_line (take_line p) (strip_cr (line_buffer p)) of
           (Err e, p') \<Rightarrow> (Err e, p')
         | (Ok _, p') \<Rightarrow> push_delta p' delta)
      else push_delta (p\<lparr>line_buffer := line_buffer p @ [ch]\<rparr>) delta)"

definition finish_last_line ::
    "streaming_patch_parser \<Rightarrow> (parse_error + unit) \<times> streaming_patch_parser" where
  "finish_last_line p =
     (if line_buffer p = [] then (Ok (), p)
      else let line = line_buffer p; p1 = take_line p in
        if trim line = END_PATCH_MARKER then
          (case ensure_update_hunk_is_not_empty p1 (trim line) of
             Err e \<Rightarrow> (Err e, p1)
           | Ok _ \<Rightarrow> (Ok (), set_mode EndedPatch p1))
        else process_line p1 line)"

definition finish ::
    "streaming_patch_parser \<Rightarrow> (parse_error + hunk list) \<times> streaming_patch_parser" where
  "finish p =
     (case finish_last_line p of
        (Err e, p') \<Rightarrow> (Err e, p')
      | (Ok _, p') \<Rightarrow>
          if mode (state p') = EndedPatch then (Ok (hunks (state p')), p')
          else (Err (InvalidPatchError msg_last_line), p'))"

section \<open>Whole patches\<close>

datatype parse_mode = Strict | Lenient

definition check_start_and_end_lines_strict ::
    "str option \<Rightarrow> str option \<Rightarrow> parse_error + unit" where
  "check_start_and_end_lines_strict first_line last_line =
     (case (map_option trim first_line, map_option trim last_line) of
        (Some first, lst) \<Rightarrow>
          if first = BEGIN_PATCH_MARKER \<and> lst = Some END_PATCH_MARKER then Ok ()
          else if first \<noteq> BEGIN_PATCH_MARKER then Err (InvalidPatchError msg_first_line)
          else Err (InvalidPatchError msg_last_line)
      | _ \<Rightarrow> Err (InvalidPatchError msg_last_line))"

definition check_patch_boundaries_strict :: "str list \<Rightarrow> parse_error + str list" where
  "check_patch_boundaries_strict lines =
     (let ends = (case lines of [] \<Rightarrow> (None, None) | f # _ \<Rightarrow> (Some f, Some (last lines))) in
      case check_start_and_end_lines_strict (fst ends) (snd ends) of
        Err e \<Rightarrow> Err e | Ok _ \<Rightarrow> Ok lines)"

definition heredoc_starts :: "str list" where
  "heredoc_starts = [lit ''<<EOF'', lit ''<<'' @ [39] @ lit ''EOF'' @ [39],
                     lit ''<<'' @ [34] @ lit ''EOF'' @ [34]]"

definition check_patch_boundaries_lenient :: "str list \<Rightarrow> parse_error + str list" where
  "check_patch_boundaries_lenient original_lines =
     (case check_patch_boundaries_strict original_lines of
        Ok lines \<Rightarrow> Ok lines
      | Err original_parse_error \<Rightarrow>
          if length original_lines \<ge> 2 \<and> hd original_lines \<in> set heredoc_starts \<and>
             ends_with (last original_lines) (lit ''EOF'') \<and> length original_lines \<ge> 4
          then check_patch_boundaries_strict (butlast (tl original_lines))
          else Err original_parse_error)"

text \<open>The part of \<^verbatim>\<open>parse_patch_text\<close> after the boundary check: one delta, then the end.\<close>

definition parse_patch_body :: "str \<Rightarrow> parse_error + apply_patch_args" where
  "parse_patch_body patch =
     (case push_delta default_parser patch of
        (Err e, _) \<Rightarrow> Err e
      | (Ok _, p) \<Rightarrow>
        (case finish p of
           (Err e, _) \<Rightarrow> Err e
         | (Ok hs, p') \<Rightarrow>
             Ok \<lparr> args_patch = patch, args_hunks = hs, args_workdir = None,
                  args_environment_id = environment_id (state p') \<rparr>))"

definition check_patch_boundaries :: "parse_mode \<Rightarrow> str list \<Rightarrow> parse_error + str list" where
  "check_patch_boundaries md lines =
     (case md of Strict \<Rightarrow> check_patch_boundaries_strict lines
               | Lenient \<Rightarrow> check_patch_boundaries_lenient lines)"

definition parse_patch_text :: "str \<Rightarrow> parse_mode \<Rightarrow> parse_error + apply_patch_args" where
  "parse_patch_text patch md =
     (case check_patch_boundaries md (str_lines (trim patch)) of
        Err e \<Rightarrow> Err e
      | Ok patch_lines \<Rightarrow> parse_patch_body (join_str [nl] patch_lines))"

definition PARSE_IN_STRICT_MODE :: bool where "PARSE_IN_STRICT_MODE = False"

definition parse_patch :: "str \<Rightarrow> parse_error + apply_patch_args" where
  "parse_patch patch = parse_patch_text patch (if PARSE_IN_STRICT_MODE then Strict else Lenient)"

end
