(* ===== verification/Parser_Invariant.thy ===== *)
theory Parser_Invariant
  imports Patch_Parser
begin

text \<open>
  What the streaming parser keeps true while it reads, whatever it is fed: text may
  arrive in any pieces, every finished hunk is complete, and the line number of an error
  lies inside the text read so far.
\<close>

section \<open>Feeding text in pieces\<close>

lemma push_delta_append:
  "push_delta p (a @ b) =
     (case push_delta p a of (Err e, p') \<Rightarrow> (Err e, p') | (Ok _, p') \<Rightarrow> push_delta p' b)"
proof (induction p a rule: push_delta.induct)
  case (2 p ch delta)
  show ?case
  proof (cases "ch = nl")
    case True
    obtain r p' where r: "process_line (take_line p) (strip_cr (line_buffer p)) = (r, p')"
      by (cases "process_line (take_line p) (strip_cr (line_buffer p))")
    then show ?thesis using True 2 by (cases r) auto
  next
    case False
    then show ?thesis using 2 by simp
  qed
qed simp

section \<open>The invariant of the parser\<close>

text \<open>
  A hunk is complete when an update has at least one chunk and no chunk is without
  lines, and when the contents of an added file are terminated lines.
\<close>

definition lines_terminated :: "str \<Rightarrow> bool" where
  "lines_terminated s \<longleftrightarrow> s = [] \<or> last s = nl"

fun hunk_complete :: "hunk \<Rightarrow> bool" where
  "hunk_complete (AddFile path contents) = lines_terminated contents"
| "hunk_complete (DeleteFile path) = True"
| "hunk_complete (UpdateFile path mv chunks) =
     (chunks \<noteq> [] \<and> list_all (\<lambda>c. \<not> chunk_has_no_lines c) chunks)"

text \<open>While an update is being read, its last chunk may still be without lines.\<close>

fun hunk_open :: "hunk \<Rightarrow> bool" where
  "hunk_open (UpdateFile path mv chunks) = list_all (\<lambda>c. \<not> chunk_has_no_lines c) (butlast chunks)"
| "hunk_open h = hunk_complete h"

fun mode_fits :: "streaming_parser_mode \<Rightarrow> nat \<Rightarrow> hunk list \<Rightarrow> bool" where
  "mode_fits NotStarted n hs = (hs = [])"
| "mode_fits StartedPatch n hs = (hs = [])"
| "mode_fits AddFileMode n hs = (hs \<noteq> [] \<and> (\<exists>p c. last hs = AddFile p c))"
| "mode_fits DeleteFileMode n hs = (hs \<noteq> [] \<and> (\<exists>p. last hs = DeleteFile p))"
| "mode_fits (UpdateFileMode k) n hs =
     (hs \<noteq> [] \<and> (\<exists>p mv cs. last hs = UpdateFile p mv cs) \<and> 1 \<le> k \<and> k \<le> n)"
| "mode_fits EndedPatch n hs = list_all hunk_complete hs"

definition parser_wf :: "streaming_patch_parser \<Rightarrow> bool" where
  "parser_wf p \<longleftrightarrow>
     list_all hunk_complete (butlast (hunks (state p))) \<and>
     (hunks (state p) \<noteq> [] \<longrightarrow> hunk_open (last (hunks (state p)))) \<and>
     mode_fits (mode (state p)) (line_number p) (hunks (state p))"

lemmas parser_simps =
  set_mode_def push_hunk_def set_last_hunk_def last_hunk_def take_line_def

lemma parser_wf_default [simp]: "parser_wf default_parser"
  by (simp add: parser_wf_def default_parser_def)

lemma list_all_butlast_last:
  "xs \<noteq> [] \<Longrightarrow> list_all P xs \<longleftrightarrow> list_all P (butlast xs) \<and> P (last xs)"
  by (cases xs rule: rev_cases) auto

lemma mode_fits_mono: "mode_fits m n hs \<Longrightarrow> n \<le> k \<Longrightarrow> mode_fits m k hs"
  by (cases m) auto

lemma parser_wf_take_line [simp]: "parser_wf p \<Longrightarrow> parser_wf (take_line p)"
  using mode_fits_mono [of "mode (state p)" "line_number p" _ "Suc (line_number p)"]
  by (simp add: parser_wf_def parser_simps)

lemma take_line_simps [simp]:
  "line_number (take_line p) = Suc (line_number p)" "line_buffer (take_line p) = []"
  "state (take_line p) = state p"
  by (simp_all add: take_line_def)

lemma parser_wf_line_buffer [simp]: "parser_wf (p\<lparr>line_buffer := b\<rparr>) = parser_wf p"
  by (simp add: parser_wf_def)

text \<open>Once the check at the end of a hunk passes, every hunk is complete.\<close>

lemma ensure_complete:
  assumes wf: "parser_wf p" and ok: "ensure_update_hunk_is_not_empty p l = Ok u"
  shows "list_all hunk_complete (hunks (state p))"
proof (cases "hunks (state p) = []")
  case False
  have "hunk_complete (last (hunks (state p)))"
  proof (cases "last (hunks (state p))")
    case (UpdateFile path mv chunks)
    have "chunks \<noteq> []" "\<not> chunk_has_no_lines (last chunks)"
      using ok wf False UpdateFile list_all_butlast_last [OF False, of hunk_complete]
      by (auto simp: ensure_update_hunk_is_not_empty_def last_hunk_def parser_wf_def
          last_is_some_and_def split: list.splits streaming_parser_mode.splits if_splits)
    then show ?thesis
      using wf False UpdateFile by (simp add: parser_wf_def list_all_butlast_last)
  qed (use wf False in \<open>auto simp: parser_wf_def\<close>)
  with wf False show ?thesis by (simp add: parser_wf_def list_all_butlast_last)
qed simp

lemma enter_hunk_wf:
  assumes wf: "parser_wf p" and "enter_hunk p t h m = (Ok b, p')"
    and "case h of None \<Rightarrow> m = EndedPatch
         | Some h' \<Rightarrow> hunk_open h' \<and> mode_fits m (line_number p) (hunks (state p) @ [h'])"
  shows "parser_wf p'"
proof -
  from assms(2) obtain u where u: "ensure_update_hunk_is_not_empty p t = Ok u"
    and p': "p' = set_mode m (case h of None \<Rightarrow> p | Some h' \<Rightarrow> push_hunk h' p)"
    by (auto simp: enter_hunk_def split: sum.splits)
  note all = ensure_complete [OF wf u]
  show ?thesis
  proof (cases h)
    case None
    then show ?thesis
      using all assms(3) wf by (simp add: p' parser_wf_def parser_simps)
  next
    case (Some h')
    then show ?thesis
      using all assms(3) by (simp add: p' parser_wf_def parser_simps)
  qed
qed

lemma handle_headers_cases:
  obtains (env) raw where "mode (state p) = StartedPatch"
      "strip_prefix t ENVIRONMENT_ID_MARKER = Some raw"
      "handle_hunk_headers_and_end_patch p t = handle_environment_id p raw"
    | (rest) "handle_hunk_headers_and_end_patch p t = handle_end_patch_and_file_headers p t"
  unfolding handle_hunk_headers_and_end_patch_def
  by (cases "mode (state p)"; cases "strip_prefix t ENVIRONMENT_ID_MARKER") auto

lemma handle_file_headers_cases:
  obtains (end_patch) "t = END_PATCH_MARKER"
      "handle_end_patch_and_file_headers p t = enter_hunk p t None EndedPatch"
    | (add) path where
      "handle_end_patch_and_file_headers p t = enter_hunk p t (Some (AddFile path [])) AddFileMode"
    | (delete) path where
      "handle_end_patch_and_file_headers p t = enter_hunk p t (Some (DeleteFile path)) DeleteFileMode"
    | (update) path where
      "handle_end_patch_and_file_headers p t =
         enter_hunk p t (Some (UpdateFile path None [])) (UpdateFileMode (line_number p))"
    | (none) "handle_end_patch_and_file_headers p t = (Ok False, p)"
  unfolding handle_end_patch_and_file_headers_def
  by (cases "t = END_PATCH_MARKER"; cases "strip_prefix t ADD_FILE_MARKER";
      cases "strip_prefix t DELETE_FILE_MARKER"; cases "strip_prefix t UPDATE_FILE_MARKER") auto

lemma enter_hunk_snd_wf:
  assumes wf: "parser_wf p"
    and "case h of None \<Rightarrow> m = EndedPatch
         | Some h' \<Rightarrow> hunk_open h' \<and> mode_fits m (line_number p) (hunks (state p) @ [h'])"
  shows "parser_wf (snd (enter_hunk p t h m))"
proof (cases "ensure_update_hunk_is_not_empty p t")
  case (Inl e)
  with wf show ?thesis by (simp add: enter_hunk_def)
next
  case (Inr u)
  then have "enter_hunk p t h m = (Ok True, snd (enter_hunk p t h m))"
    by (simp add: enter_hunk_def)
  from enter_hunk_wf [OF wf this] assms(2) show ?thesis by blast
qed

lemma handle_environment_id_wf:
  "parser_wf p \<Longrightarrow> parser_wf (snd (handle_environment_id p raw))"
  by (simp add: handle_environment_id_def Let_def parser_wf_def)

lemma handle_headers_wf:
  assumes wf: "parser_wf p" and "1 \<le> line_number p"
  shows "parser_wf (snd (handle_hunk_headers_and_end_patch p t))"
proof (cases rule: handle_headers_cases [where p = p and t = t])
  case (env raw)
  then show ?thesis using handle_environment_id_wf [OF wf] by simp
next
  case rest
  show ?thesis unfolding rest
    by (cases rule: handle_file_headers_cases [where p = p and t = t])
       (use wf assms(2) in \<open>auto simp: lines_terminated_def intro!: enter_hunk_snd_wf\<close>)
qed


lemma enter_hunk_not_False: "enter_hunk p t h m \<noteq> (Ok False, p')"
  by (simp add: enter_hunk_def split: sum.splits)

lemma handle_headers_False:
  assumes "handle_hunk_headers_and_end_patch p t = (Ok False, p')"
  shows "p' = p"
proof (cases rule: handle_headers_cases [where p = p and t = t])
  case (env raw)
  with assms show ?thesis by (simp add: handle_environment_id_def Let_def split: if_splits)
next
  case rest
  from assms [unfolded rest] show ?thesis
    by (cases rule: handle_file_headers_cases [where p = p and t = t])
       (simp_all add: enter_hunk_not_False enter_hunk_not_False [symmetric])
qed

lemma butlast_map_last [simp]: "butlast (map_last f xs) = butlast xs"
  by (simp add: map_last_def)

lemma butlast_ensure_chunk [simp]: "butlast (ensure_chunk cs) = butlast cs"
  by (simp add: ensure_chunk_def)

lemma update_change_line_open:
  "update_change_line n mv chunks line = Ok (Some (mv', chunks')) \<Longrightarrow>
   butlast chunks' = butlast chunks"
  by (auto simp: update_change_line_def split: if_splits option.splits)

lemma list_all_butlast_snoc:
  "\<not> last_is_some_and cs (\<lambda>c. \<not> P c) \<Longrightarrow> list_all P (butlast cs) \<Longrightarrow> list_all P cs"
  by (cases "cs = []") (auto simp: last_is_some_and_def list_all_butlast_last)

lemma update_hunk_line_open:
  assumes "update_hunk_line n mv chunks line = Ok (Some (mv', chunks'))"
    and "list_all (\<lambda>c. \<not> chunk_has_no_lines c) (butlast chunks)"
  shows "list_all (\<lambda>c. \<not> chunk_has_no_lines c) (butlast chunks')"
proof (cases "is_context_line (trim_end line)")
  case True
  then show ?thesis
    using assms list_all_butlast_snoc [of chunks "\<lambda>c. \<not> chunk_has_no_lines c"]
    by (auto simp: update_hunk_line_def Let_def is_context_line_def
        dest: update_change_line_open split: if_splits option.splits)
next
  case False
  then have "strip_prefix (trim_end line) CHANGE_CONTEXT_MARKER = None"
    "trim_end line \<noteq> EMPTY_CHANGE_CONTEXT_MARKER"
    by (simp_all add: is_context_line_def strip_prefix_def)
  then show ?thesis
    using assms by (auto simp: update_hunk_line_def Let_def
        dest: update_change_line_open split: if_splits)
qed


lemma set_last_hunk_wf:
  assumes "parser_wf p" "last_hunk p = Some h" "hunk_open h'"
    and "mode_fits m (line_number p) (butlast (hunks (state p)) @ [h'])"
  shows "parser_wf (set_mode m (set_last_hunk h' p))"
  using assms by (auto simp: parser_wf_def parser_simps split: if_splits)

lemma process_update_line_wf:
  assumes wf: "parser_wf p" and pos: "1 \<le> line_number p" and m: "mode (state p) = UpdateFileMode n"
  shows "parser_wf (snd (process_update_line p n line))"
proof -
  obtain r p' where h: "handle_hunk_headers_and_end_patch p (trim_end line) = (r, p')"
    by (cases "handle_hunk_headers_and_end_patch p (trim_end line)")
  have p': "parser_wf p'" using handle_headers_wf [OF wf pos, of "trim_end line"] h by simp
  show ?thesis
  proof (cases "r = Ok False")
    case False
    then show ?thesis
      using p' by (auto simp: process_update_line_def h split: sum.splits bool.splits)
  next
    case True
    with h have eq: "p' = p" by (simp add: handle_headers_False)
    from wf m obtain path mv cs where l: "last_hunk p = Some (UpdateFile path mv cs)"
      and n: "1 \<le> n" "n \<le> line_number p"
      and cs: "list_all (\<lambda>c. \<not> chunk_has_no_lines c) (butlast cs)"
      by (auto simp: parser_wf_def last_hunk_def)
    show ?thesis
    proof (cases "update_hunk_line (line_number p) mv cs line")
      case (Inl e)
      then show ?thesis using wf by (simp add: process_update_line_def h True eq l)
    next
      case (Inr u)
      show ?thesis
      proof (cases u)
        case None
        then show ?thesis using wf Inr by (simp add: process_update_line_def h True eq l)
      next
        case (Some q)
        obtain mv' cs' where q: "q = (mv', cs')" by (cases q)
        have "hunk_open (UpdateFile path mv' cs')"
          using update_hunk_line_open [OF Inr [unfolded Some q] cs] by simp
        then show ?thesis
          using set_last_hunk_wf [OF wf l] Inr Some n
          by (simp add: process_update_line_def h True eq l q)
      qed
    qed
  qed
qed

lemma process_add_line_wf:
  assumes wf: "parser_wf p" and pos: "1 \<le> line_number p" and m: "mode (state p) = AddFileMode"
  shows "parser_wf (snd (process_add_line p line))"
proof -
  obtain r p' where h: "handle_hunk_headers_and_end_patch p (trim line) = (r, p')"
    by (cases "handle_hunk_headers_and_end_patch p (trim line)")
  have p': "parser_wf p'" using handle_headers_wf [OF wf pos, of "trim line"] h by simp
  show ?thesis
  proof (cases "r = Ok False")
    case False
    then show ?thesis
      using p' by (auto simp: process_add_line_def h split: sum.splits bool.splits)
  next
    case True
    with h have eq: "p' = p" by (simp add: handle_headers_False)
    from wf m obtain path c where l: "last_hunk p = Some (AddFile path c)"
      by (auto simp: parser_wf_def last_hunk_def)
    have "parser_wf (set_last_hunk (AddFile path (c @ l' @ [nl])) p)" for l'
      using wf l m by (auto simp: parser_wf_def parser_simps lines_terminated_def split: if_splits)
    then show ?thesis
      using wf by (simp add: process_add_line_def h True eq l split: option.splits)
  qed
qed

lemma header_or_error_wf:
  assumes wf: "parser_wf p" and pos: "1 \<le> line_number p"
  shows "parser_wf (snd (header_or_error p t))"
  using handle_headers_wf [OF assms, of t]
  by (auto simp: header_or_error_def split: prod.splits sum.splits bool.splits)

lemma process_line_wf:
  assumes wf: "parser_wf p" and pos: "1 \<le> line_number p"
  shows "parser_wf (snd (process_line p line))"
proof (cases "mode (state p)")
  case NotStarted
  then show ?thesis using wf by (simp add: process_line_def parser_wf_def parser_simps)
next
  case (UpdateFileMode n)
  then show ?thesis using process_update_line_wf [OF assms] by (simp add: process_line_def)
next
  case AddFileMode
  then show ?thesis using process_add_line_wf [OF assms] by (simp add: process_line_def)
qed (use wf header_or_error_wf [OF assms] in \<open>simp_all add: process_line_def\<close>)

lemma push_delta_wf: "parser_wf p \<Longrightarrow> parser_wf (snd (push_delta p d))"
proof (induction p d rule: push_delta.induct)
  case (2 p ch delta)
  show ?case
  proof (cases "ch = nl")
    case True
    obtain r p' where r: "process_line (take_line p) (strip_cr (line_buffer p)) = (r, p')"
      by (cases "process_line (take_line p) (strip_cr (line_buffer p))")
    have "parser_wf p'"
      using process_line_wf [of "take_line p" "strip_cr (line_buffer p)"] 2 r
      by simp
    then show ?thesis using True 2 r by (cases r) auto
  next
    case False
    then show ?thesis using 2 by simp
  qed
qed simp

lemma finish_last_line_wf:
  assumes "parser_wf p"
  shows "parser_wf (snd (finish_last_line p))"
proof -
  have wf: "parser_wf (take_line p)" and pos: "1 \<le> line_number (take_line p)"
    using assms by simp_all
  show ?thesis
  proof (cases "ensure_update_hunk_is_not_empty (take_line p) (trim (line_buffer p))")
    case (Inl e)
    then show ?thesis
      using assms wf process_line_wf [OF wf pos] by (auto simp: finish_last_line_def Let_def)
  next
    case (Inr u)
    have "parser_wf (set_mode EndedPatch (take_line p))"
      using ensure_complete [OF wf Inr] wf by (simp add: parser_wf_def set_mode_def)
    with Inr show ?thesis
      using assms process_line_wf [OF wf pos] by (auto simp: finish_last_line_def Let_def)
  qed
qed

lemma finish_complete:
  assumes "parser_wf p" "finish p = (Ok hs, p')"
  shows "list_all hunk_complete hs"
proof -
  obtain r q where q: "finish_last_line p = (r, q)" by (cases "finish_last_line p")
  have "parser_wf q" using finish_last_line_wf [OF assms(1)] q by simp
  with assms(2) q show ?thesis
    by (cases r) (auto simp: finish_def parser_wf_def split: if_splits)
qed

lemma parse_patch_body_Ok:
  assumes "parse_patch_body t = Ok args"
  obtains u p p' where "push_delta default_parser t = (Ok u, p)"
    "finish p = (Ok (args_hunks args), p')" "args_patch args = t" "args_workdir args = None"
    "args_environment_id args = environment_id (state p')"
  using assms by (auto simp: parse_patch_body_def split: prod.splits sum.splits)

lemma parse_patch_body_complete:
  assumes "parse_patch_body t = Ok args"
  shows "list_all hunk_complete (args_hunks args)"
  using assms
proof (cases rule: parse_patch_body_Ok)
  case (1 u p p')
  have "parser_wf p" using push_delta_wf [OF parser_wf_default, of t] 1(1) by simp
  then show ?thesis using 1(2) by (rule finish_complete)
qed

lemma parse_patch_text_complete:
  "parse_patch_text t md = Ok args \<Longrightarrow> list_all hunk_complete (args_hunks args)"
  by (auto simp: parse_patch_text_def parse_patch_body_complete split: sum.splits)

section \<open>Line numbers of errors\<close>

fun error_line_within :: "nat \<Rightarrow> parse_error \<Rightarrow> bool" where
  "error_line_within n (InvalidPatchError m) = True"
| "error_line_within n (InvalidHunkError m k) = (1 \<le> k \<and> k \<le> n)"

lemma ensure_error_line:
  "parser_wf p \<Longrightarrow> 1 \<le> line_number p \<Longrightarrow> ensure_update_hunk_is_not_empty p t = Err e \<Longrightarrow>
   error_line_within (line_number p) e"
  by (auto simp: ensure_update_hunk_is_not_empty_def parser_wf_def
      split: option.splits hunk.splits list.splits streaming_parser_mode.splits if_splits)

lemma enter_hunk_error_line:
  "parser_wf p \<Longrightarrow> 1 \<le> line_number p \<Longrightarrow> enter_hunk p t h m = (Err e, p') \<Longrightarrow>
   error_line_within (line_number p) e"
  by (auto simp: enter_hunk_def ensure_error_line split: sum.splits)

lemma handle_headers_error_line:
  assumes "parser_wf p" "1 \<le> line_number p"
    and "handle_hunk_headers_and_end_patch p t = (Err e, p')"
  shows "error_line_within (line_number p) e"
proof (cases rule: handle_headers_cases [where p = p and t = t])
  case (env raw)
  with assms show ?thesis by (auto simp: handle_environment_id_def Let_def split: if_splits)
next
  case rest
  from assms(3) [unfolded rest] show ?thesis
    by (cases rule: handle_file_headers_cases [where p = p and t = t])
       (auto dest: enter_hunk_error_line [OF assms(1,2)] sym)
qed

lemma update_hunk_line_error_line:
  "1 \<le> n \<Longrightarrow> update_hunk_line n mv cs line = Err e \<Longrightarrow> error_line_within n e"
  by (auto simp: update_hunk_line_def update_change_line_def Let_def
      split: if_splits option.splits)

lemma process_line_error_line:
  assumes wf: "parser_wf p" and pos: "1 \<le> line_number p"
    and e: "process_line p line = (Err e, p')"
  shows "error_line_within (line_number p) e"
proof -
  note h = handle_headers_error_line [OF wf pos]
  show ?thesis
  proof (cases "mode (state p)")
    case (UpdateFileMode n)
    then show ?thesis
      using e pos h by (auto simp: process_line_def process_update_line_def
          dest!: handle_headers_False dest: update_hunk_line_error_line [OF pos]
          split: prod.splits sum.splits bool.splits option.splits hunk.splits)
  next
    case AddFileMode
    then show ?thesis
      using e pos h by (auto simp: process_line_def process_add_line_def
          dest!: handle_headers_False
          split: prod.splits sum.splits bool.splits option.splits hunk.splits)
  qed (use e pos h in \<open>auto simp: process_line_def header_or_error_def
      dest!: handle_headers_False split: prod.splits sum.splits bool.splits if_splits\<close>)
qed

lemma handle_headers_line_number:
  "line_number (snd (handle_hunk_headers_and_end_patch p t)) = line_number p"
proof (cases rule: handle_headers_cases [where p = p and t = t])
  case (env raw)
  then show ?thesis by (simp add: handle_environment_id_def Let_def)
next
  case rest
  show ?thesis unfolding rest
    by (cases rule: handle_file_headers_cases [where p = p and t = t])
       (simp_all add: enter_hunk_def parser_simps split: sum.splits)
qed

lemma line_number_updates [simp]:
  "line_number (set_mode m p) = line_number p"
  "line_number (set_last_hunk h p) = line_number p"
  by (simp_all add: parser_simps)

lemma process_line_line_number:
  "line_number (snd (process_line p line)) = line_number p"
proof -
  have h: "line_number p' = line_number p"
    if "handle_hunk_headers_and_end_patch p t = (r, p')" for t r p'
    using handle_headers_line_number [of p t] that by simp
  have u: "line_number (snd (process_update_line p n line)) = line_number p" for n
    by (cases "handle_hunk_headers_and_end_patch p (trim_end line)")
       (simp add: process_update_line_def h split: sum.split bool.split option.split hunk.split)
  have a: "line_number (snd (process_add_line p line)) = line_number p"
    by (cases "handle_hunk_headers_and_end_patch p (trim line)")
       (simp add: process_add_line_def h split: sum.split bool.split option.split hunk.split)
  have e: "line_number (snd (header_or_error p (trim line))) = line_number p"
    by (cases "handle_hunk_headers_and_end_patch p (trim line)")
       (simp add: header_or_error_def h split: sum.split bool.split)
  show ?thesis by (cases "mode (state p)") (simp_all add: process_line_def u a e)
qed

text \<open>After a delta the line counter has grown by the number of newlines at most.\<close>

lemma push_delta_line_number:
  "line_number (snd (push_delta p d)) \<le> line_number p + count_list d nl"
proof (induction p d rule: push_delta.induct)
  case (2 p ch delta)
  show ?case
  proof (cases "ch = nl")
    case True
    obtain r p' where r: "process_line (take_line p) (strip_cr (line_buffer p)) = (r, p')"
      by (cases "process_line (take_line p) (strip_cr (line_buffer p))")
    have "line_number p' = Suc (line_number p)"
      using process_line_line_number [of "take_line p" "strip_cr (line_buffer p)"] r by simp
    then show ?thesis using True 2 r by (cases r) auto
  next
    case False
    then show ?thesis using 2 by simp
  qed
qed simp

lemma error_line_within_mono: "error_line_within n e \<Longrightarrow> n \<le> k \<Longrightarrow> error_line_within k e"
  by (cases e) auto

lemma push_delta_error_line:
  "parser_wf p \<Longrightarrow> push_delta p d = (Err e, p') \<Longrightarrow>
   error_line_within (line_number p + count_list d nl) e"
proof (induction p d rule: push_delta.induct)
  case (2 p ch delta)
  show ?case
  proof (cases "ch = nl")
    case True
    obtain r q where r: "process_line (take_line p) (strip_cr (line_buffer p)) = (r, q)"
      by (cases "process_line (take_line p) (strip_cr (line_buffer p))")
    have wf: "parser_wf (take_line p)" "1 \<le> line_number (take_line p)" using 2 by simp_all
    have ln: "line_number q = Suc (line_number p)"
      using process_line_line_number [of "take_line p" "strip_cr (line_buffer p)"] r by simp
    show ?thesis
    proof (cases r)
      case (Inl e')
      with 2 True r have "e' = e" by simp
      with Inl r have "error_line_within (Suc (line_number p)) e"
        using process_line_error_line [OF wf] by simp
      then show ?thesis by (rule error_line_within_mono) (simp add: True)
    next
      case (Inr u)
      have "parser_wf q" using process_line_wf [OF wf, of "strip_cr (line_buffer p)"] r by simp
      then show ?thesis using 2 True r Inr ln by simp
    qed
  next
    case False
    then show ?thesis using 2 by simp
  qed
qed simp

lemma finish_error_line:
  assumes "parser_wf p" "finish p = (Err e, p')"
  shows "error_line_within (Suc (line_number p)) e"
proof -
  have wf: "parser_wf (take_line p)" and pos: "1 \<le> line_number (take_line p)"
    using assms by simp_all
  show ?thesis
    using assms(2) process_line_error_line [OF wf pos] ensure_error_line [OF wf pos]
    by (auto simp: finish_def finish_last_line_def Let_def split: prod.splits sum.splits if_splits)
qed

lemma parse_patch_body_error_line:
  assumes "parse_patch_body t = Err e"
  shows "error_line_within (Suc (count_list t nl)) e"
proof -
  obtain r p where p: "push_delta default_parser t = (r, p)" by (cases "push_delta default_parser t")
  show ?thesis
  proof (cases r)
    case (Inl e')
    then have "error_line_within (count_list t nl) e"
      using push_delta_error_line [of default_parser t e' p] p assms
      by (simp add: parse_patch_body_def) (simp add: default_parser_def)
    then show ?thesis by (rule error_line_within_mono) simp
  next
    case (Inr u)
    have "parser_wf p" using push_delta_wf [OF parser_wf_default, of t] p by simp
    moreover obtain q where "finish p = (Err e, q)"
      using assms p Inr by (auto simp: parse_patch_body_def split: prod.splits sum.splits)
    ultimately have "error_line_within (Suc (line_number p)) e" by (rule finish_error_line)
    moreover have "line_number p \<le> count_list t nl"
      using push_delta_line_number [of default_parser t] p by (simp add: default_parser_def)
    ultimately show ?thesis by (auto elim: error_line_within_mono)
  qed
qed


section \<open>Line counts of whole patches\<close>

lemma strip_cr_set: "set (strip_cr s) \<subseteq> set s"
  by (auto simp: strip_cr_def strip_suffix_def split: option.splits if_splits dest: in_set_takeD)

lemma lines_of_pieces_set:
  "x \<in> set (lines_of_pieces ps) \<Longrightarrow> \<exists>p \<in> set ps. set x \<subseteq> set p"
proof (induction ps rule: lines_of_pieces.induct)
  case (3 p q ps)
  then show ?case using strip_cr_set [of p] by auto
qed (auto split: if_splits)

lemma str_lines_no_nl: "x \<in> set (str_lines s) \<Longrightarrow> nl \<notin> set x"
  using lines_of_pieces_set [of x "split_char nl s"] split_char_pieces
  by (fastforce simp: str_lines_def)

lemma count_list_join:
  "\<forall>x \<in> set ls. nl \<notin> set x \<Longrightarrow> count_list (join_str [nl] ls) nl = length ls - 1"
  by (induction "[nl]" ls rule: join_str.induct) (auto simp: count_list_0_iff)

lemma check_boundaries_strict_Ok:
  "check_patch_boundaries_strict ls = Ok ls' \<Longrightarrow>
   ls' = ls \<and> ls \<noteq> [] \<and> trim (hd ls) = BEGIN_PATCH_MARKER \<and> trim (last ls) = END_PATCH_MARKER"
  by (auto simp: check_patch_boundaries_strict_def check_start_and_end_lines_strict_def Let_def
      split: sum.splits option.splits if_splits list.splits)

lemma check_boundaries_Ok:
  assumes "check_patch_boundaries md ls = Ok ls'"
  shows "set ls' \<subseteq> set ls \<and> length ls' \<le> length ls \<and> ls' \<noteq> []"
proof -
  have sub: "set (butlast (tl ls)) \<subseteq> set ls"
    by (metis in_set_butlastD list.set_sel(2) subsetI tl_Nil empty_iff list.set(1))
  show ?thesis
    using assms sub
    by (auto simp: check_patch_boundaries_def check_patch_boundaries_lenient_def
        split: parse_mode.splits sum.splits if_splits dest!: check_boundaries_strict_Ok)
qed

lemma check_boundaries_Err:
  "check_patch_boundaries md ls = Err e \<Longrightarrow> error_line_within n e"
  by (auto simp: check_patch_boundaries_def check_patch_boundaries_lenient_def
      check_patch_boundaries_strict_def check_start_and_end_lines_strict_def Let_def
      split: parse_mode.splits sum.splits if_splits option.splits)

lemma parse_patch_text_error_line:
  assumes "parse_patch_text t md = Err e"
  shows "error_line_within (length (str_lines (trim t))) e"
proof (cases "check_patch_boundaries md (str_lines (trim t))")
  case (Inl e')
  then show ?thesis using assms check_boundaries_Err by (simp add: parse_patch_text_def)
next
  case (Inr ls)
  note ls = check_boundaries_Ok [OF Inr]
  have "\<forall>x \<in> set ls. nl \<notin> set x" using ls str_lines_no_nl by blast
  then have "count_list (join_str [nl] ls) nl = length ls - 1" by (rule count_list_join)
  moreover have "error_line_within (Suc (count_list (join_str [nl] ls) nl)) e"
    using assms Inr by (simp add: parse_patch_text_def parse_patch_body_error_line)
  moreover have "0 < length ls" using ls by simp
  ultimately show ?thesis using ls by (auto elim!: error_line_within_mono)
qed

end
