(* ===== verification/Patch_Grammar.thy ===== *)
theory Patch_Grammar
  imports Parser_Invariant
begin

text \<open>
  The patch format as a grammar, after the comment at the head of
  \<^verbatim>\<open>apply-patch/src/parser.rs\<close>: an abstract syntax, the text of a patch and the hunks it
  denotes.  The parser reads the text of every well-formed patch back as its hunks.
\<close>

section \<open>Abstract syntax, text and meaning\<close>

datatype change_line = Context str | Added str | Removed str

text \<open>The header of a chunk; only the first chunk of an update may be without one.\<close>

datatype chunk_header = NoHeader | EmptyHeader | ContextHeader str

datatype chunk_syntax = Chunk (header: chunk_header) (changes: "change_line list") (at_eof: bool)

datatype hunk_syntax =
  AddSyntax str "str list"
| DeleteSyntax str
| UpdateSyntax str "str option" "chunk_syntax list"

fun change_text :: "change_line \<Rightarrow> str" where
  "change_text (Context l) = lit '' '' @ l"
| "change_text (Added l) = lit ''+'' @ l"
| "change_text (Removed l) = lit ''-'' @ l"

fun header_text :: "chunk_header \<Rightarrow> str list" where
  "header_text NoHeader = []"
| "header_text EmptyHeader = [EMPTY_CHANGE_CONTEXT_MARKER]"
| "header_text (ContextHeader ctx) = [CHANGE_CONTEXT_MARKER @ ctx]"

definition chunk_text :: "chunk_syntax \<Rightarrow> str list" where
  "chunk_text c = header_text (header c) @ map change_text (changes c) @
     (if at_eof c then [EOF_MARKER] else [])"

fun hunk_text :: "hunk_syntax \<Rightarrow> str list" where
  "hunk_text (AddSyntax path ls) = (ADD_FILE_MARKER @ path) # map (\<lambda>l. lit ''+'' @ l) ls"
| "hunk_text (DeleteSyntax path) = [DELETE_FILE_MARKER @ path]"
| "hunk_text (UpdateSyntax path mv cs) =
     (UPDATE_FILE_MARKER @ path) #
     (case mv of None \<Rightarrow> [] | Some d \<Rightarrow> [MOVE_TO_MARKER @ d]) @ concat (map chunk_text cs)"

definition patch_lines :: "str option \<Rightarrow> hunk_syntax list \<Rightarrow> str list" where
  "patch_lines env hs =
     [BEGIN_PATCH_MARKER] @
     (case env of None \<Rightarrow> [] | Some e \<Rightarrow> [ENVIRONMENT_ID_MARKER @ lit '' '' @ e]) @
     concat (map hunk_text hs) @ [END_PATCH_MARKER]"

definition patch_text :: "str option \<Rightarrow> hunk_syntax list \<Rightarrow> str" where
  "patch_text env hs = join_str [nl] (patch_lines env hs)"

fun old_part :: "change_line \<Rightarrow> str list" where
  "old_part (Context l) = [l]" | "old_part (Added l) = []" | "old_part (Removed l) = [l]"

fun new_part :: "change_line \<Rightarrow> str list" where
  "new_part (Context l) = [l]" | "new_part (Added l) = [l]" | "new_part (Removed l) = []"

fun header_context :: "chunk_header \<Rightarrow> str option" where
  "header_context (ContextHeader ctx) = Some ctx"
| "header_context _ = None"

definition chunk_meaning :: "chunk_syntax \<Rightarrow> update_file_chunk" where
  "chunk_meaning c =
     \<lparr> change_context = header_context (header c),
       old_lines = concat (map old_part (changes c)),
       new_lines = concat (map new_part (changes c)),
       is_end_of_file = at_eof c \<rparr>"

fun hunk_meaning :: "hunk_syntax \<Rightarrow> hunk" where
  "hunk_meaning (AddSyntax path ls) = AddFile path (concat (map (\<lambda>l. l @ [nl]) ls))"
| "hunk_meaning (DeleteSyntax path) = DeleteFile path"
| "hunk_meaning (UpdateSyntax path mv cs) = UpdateFile path mv (map chunk_meaning cs)"

section \<open>Well-formed patches\<close>

text \<open>A body line has no newline and does not end in a carriage return.\<close>

definition line_ok :: "str \<Rightarrow> bool" where
  "line_ok l \<longleftrightarrow> nl \<notin> set l \<and> (l = [] \<or> last l \<noteq> cr)"

text \<open>The text after a marker is not empty and does not end in white space.\<close>

definition field_ok :: "str \<Rightarrow> bool" where
  "field_ok s \<longleftrightarrow> s \<noteq> [] \<and> \<not> is_whitespace (last s) \<and> nl \<notin> set s"

fun change_ok :: "change_line \<Rightarrow> bool" where
  "change_ok (Context l) = line_ok l"
| "change_ok (Added l) = line_ok l"
| "change_ok (Removed l) = line_ok l"

fun header_ok :: "chunk_header \<Rightarrow> bool" where
  "header_ok (ContextHeader ctx) = field_ok ctx"
| "header_ok _ = True"

definition chunk_ok :: "chunk_syntax \<Rightarrow> bool" where
  "chunk_ok c \<longleftrightarrow> header_ok (header c) \<and> changes c \<noteq> [] \<and> list_all change_ok (changes c)"

fun hunk_ok :: "hunk_syntax \<Rightarrow> bool" where
  "hunk_ok (AddSyntax path ls) = (field_ok path \<and> list_all line_ok ls)"
| "hunk_ok (DeleteSyntax path) = field_ok path"
| "hunk_ok (UpdateSyntax path mv cs) =
     (field_ok path \<and> (\<forall>d. mv = Some d \<longrightarrow> field_ok d) \<and> cs \<noteq> [] \<and> list_all chunk_ok cs \<and>
      list_all (\<lambda>c. header c \<noteq> NoHeader) (tl cs))"

text \<open>An environment identifier is written without surrounding white space.\<close>

fun env_ok :: "str option \<Rightarrow> bool" where
  "env_ok None = True"
| "env_ok (Some e) = (field_ok e \<and> trim e = e)"

section \<open>Running the parser over lines\<close>

fun run_lines ::
    "streaming_patch_parser \<Rightarrow> str list \<Rightarrow> (parse_error + unit) \<times> streaming_patch_parser" where
  "run_lines p [] = (Ok (), p)"
| "run_lines p (l # ls) =
     (case process_line (take_line p) l of
        (Err e, p') \<Rightarrow> (Err e, p') | (Ok _, p') \<Rightarrow> run_lines p' ls)"

definition mk_parser ::
    "streaming_parser_mode \<Rightarrow> hunk list \<Rightarrow> str option \<Rightarrow> nat \<Rightarrow> streaming_patch_parser" where
  "mk_parser m hs env n =
     \<lparr> line_buffer = [],
       state = \<lparr> mode = m, hunks = hs, environment_id = env \<rparr>, line_number = n \<rparr>"

lemma run_lines_append:
  "run_lines p (a @ b) =
     (case run_lines p a of (Err e, p') \<Rightarrow> (Err e, p') | (Ok _, p') \<Rightarrow> run_lines p' b)"
  by (induction p a rule: run_lines.induct) (auto split: prod.splits sum.splits)

lemma run_lines_appendI:
  "run_lines p a = (Ok (), q) \<Longrightarrow> run_lines q b = r \<Longrightarrow> run_lines p (a @ b) = r"
  by (simp add: run_lines_append)

lemma handle_headers_line_buffer:
  "line_buffer (snd (handle_hunk_headers_and_end_patch p t)) = line_buffer p"
proof (cases rule: handle_headers_cases [where p = p and t = t])
  case (env raw)
  then show ?thesis by (simp add: handle_environment_id_def Let_def)
next
  case rest
  show ?thesis unfolding rest
    by (cases rule: handle_file_headers_cases [where p = p and t = t])
       (simp_all add: enter_hunk_def parser_simps split: sum.splits)
qed

lemma line_buffer_updates [simp]:
  "line_buffer (set_mode m p) = line_buffer p"
  "line_buffer (set_last_hunk h p) = line_buffer p"
  by (simp_all add: parser_simps)

lemma process_line_line_buffer:
  "line_buffer (snd (process_line p line)) = line_buffer p"
proof -
  have h: "line_buffer p' = line_buffer p"
    if "handle_hunk_headers_and_end_patch p t = (r, p')" for t r p'
    using handle_headers_line_buffer [of p t] that by simp
  have u: "line_buffer (snd (process_update_line p n line)) = line_buffer p" for n
    by (cases "handle_hunk_headers_and_end_patch p (trim_end line)")
       (simp add: process_update_line_def h split: sum.split bool.split option.split hunk.split)
  have a: "line_buffer (snd (process_add_line p line)) = line_buffer p"
    by (cases "handle_hunk_headers_and_end_patch p (trim line)")
       (simp add: process_add_line_def h split: sum.split bool.split option.split hunk.split)
  have e: "line_buffer (snd (header_or_error p (trim line))) = line_buffer p"
    by (cases "handle_hunk_headers_and_end_patch p (trim line)")
       (simp add: header_or_error_def h split: sum.split bool.split)
  show ?thesis by (cases "mode (state p)") (simp_all add: process_line_def u a e)
qed

text \<open>A delta without a newline only fills the line buffer.\<close>

lemma push_delta_partial:
  "nl \<notin> set l \<Longrightarrow>
   push_delta p l = (Ok (hunks (state p)), p\<lparr>line_buffer := line_buffer p @ l\<rparr>)"
  by (induction l arbitrary: p) auto

lemma strip_cr_ok: "line_ok l \<Longrightarrow> strip_cr l = l"
  by (auto simp: strip_cr_def strip_suffix_Some line_ok_def split: option.splits)

lemma take_line_line_buffer [simp]: "take_line (p\<lparr>line_buffer := l\<rparr>) = take_line p"
  by (simp add: take_line_def)

lemma push_delta_line:
  assumes "line_ok l" "line_buffer p = []"
  shows "push_delta p (l @ [nl]) =
    (case process_line (take_line p) l of
       (Err e, p') \<Rightarrow> (Err e, p') | (Ok _, p') \<Rightarrow> (Ok (hunks (state p')), p'))"
  using assms by (simp add: push_delta_append push_delta_partial line_ok_def strip_cr_ok
      split: prod.splits sum.splits)

lemma push_delta_lines:
  assumes "list_all line_ok ls" "line_buffer p = []"
  shows "push_delta p (concat (map (\<lambda>l. l @ [nl]) ls) @ rest) =
    (case run_lines p ls of
       (Err e, p') \<Rightarrow> (Err e, p') | (Ok _, p') \<Rightarrow> push_delta p' rest)"
  using assms
proof (induction ls arbitrary: p)
  case (Cons l ls)
  obtain r q where q: "process_line (take_line p) l = (r, q)"
    by (cases "process_line (take_line p) l")
  have "line_buffer q = []" using process_line_line_buffer [of "take_line p" l] q by simp
  then show ?case
    using Cons q push_delta_line [of l p] push_delta_append [of p "l @ [nl]"]
    by (simp split: sum.splits)
qed simp

section \<open>Header lines\<close>

definition between_hunks :: "streaming_parser_mode \<Rightarrow> hunk list \<Rightarrow> bool" where
  "between_hunks m hs \<longleftrightarrow>
     m \<noteq> NotStarted \<and> m \<noteq> EndedPatch \<and> (hs = [] \<or> hunk_complete (last hs))"

lemma mk_parser_sel [simp]:
  "mode (state (mk_parser m hs env n)) = m" "hunks (state (mk_parser m hs env n)) = hs"
  "environment_id (state (mk_parser m hs env n)) = env" "line_number (mk_parser m hs env n) = n"
  "line_buffer (mk_parser m hs env n) = []"
  by (simp_all add: mk_parser_def)

lemma mk_parser_upd [simp]:
  "take_line (mk_parser m hs env n) = mk_parser m hs env (Suc n)"
  "set_mode m' (mk_parser m hs env n) = mk_parser m' hs env n"
  "push_hunk h (mk_parser m hs env n) = mk_parser m (hs @ [h]) env n"
  "set_last_hunk h (mk_parser m (hs @ [h']) env n) = mk_parser m (hs @ [h]) env n"
  "last_hunk (mk_parser m (hs @ [h']) env n) = Some h'"
  by (simp_all add: mk_parser_def parser_simps)

lemma default_parser_mk: "default_parser = mk_parser NotStarted [] None 0"
  by (simp add: default_parser_def mk_parser_def)

lemma trim_field:
  assumes "field_ok s" "m \<noteq> []" "\<not> is_whitespace (hd m)"
  shows "trim (m @ s) = m @ s" "trim_end (m @ s) = m @ s"
  using assms by (auto simp: field_ok_def intro!: trim_id trim_end_id)

lemma marker_hd [simp]:
  "\<not> is_whitespace (hd ADD_FILE_MARKER)" "ADD_FILE_MARKER \<noteq> []"
  "\<not> is_whitespace (hd DELETE_FILE_MARKER)" "DELETE_FILE_MARKER \<noteq> []"
  "\<not> is_whitespace (hd UPDATE_FILE_MARKER)" "UPDATE_FILE_MARKER \<noteq> []"
  "\<not> is_whitespace (hd MOVE_TO_MARKER)" "MOVE_TO_MARKER \<noteq> []"
  "\<not> is_whitespace (hd CHANGE_CONTEXT_MARKER)" "CHANGE_CONTEXT_MARKER \<noteq> []"
  by (simp_all add: markers is_whitespace_def)

lemma ensure_between:
  assumes "hs = [] \<or> hunk_complete (last hs)"
  shows "ensure_update_hunk_is_not_empty (mk_parser m hs env n) t = Ok ()"
proof (cases "hs = []")
  case True
  then show ?thesis by (simp add: ensure_update_hunk_is_not_empty_def last_hunk_def)
next
  case False
  with assms show ?thesis
    by (cases "last hs") (auto simp: ensure_update_hunk_is_not_empty_def last_hunk_def
        last_is_some_and_def list_all_butlast_last split: list.splits)
qed

lemma enter_hunk_between:
  "hs = [] \<or> hunk_complete (last hs) \<Longrightarrow>
   enter_hunk (mk_parser m hs env n) t h m' =
     (Ok True, mk_parser m' (case h of None \<Rightarrow> hs | Some h' \<Rightarrow> hs @ [h']) env n)"
  by (simp add: enter_hunk_def ensure_between split: option.split)

lemma handle_add:
  "hs = [] \<or> hunk_complete (last hs) \<Longrightarrow>
   handle_hunk_headers_and_end_patch (mk_parser m hs env n) (ADD_FILE_MARKER @ path) =
     (Ok True, mk_parser AddFileMode (hs @ [AddFile path []]) env n)"
  by (cases m) (simp_all add: handle_hunk_headers_and_end_patch_def
      handle_end_patch_and_file_headers_def enter_hunk_between markers)

lemma handle_delete:
  "hs = [] \<or> hunk_complete (last hs) \<Longrightarrow>
   handle_hunk_headers_and_end_patch (mk_parser m hs env n) (DELETE_FILE_MARKER @ path) =
     (Ok True, mk_parser DeleteFileMode (hs @ [DeleteFile path]) env n)"
  by (cases m) (simp_all add: handle_hunk_headers_and_end_patch_def
      handle_end_patch_and_file_headers_def enter_hunk_between markers)

lemma handle_update:
  "hs = [] \<or> hunk_complete (last hs) \<Longrightarrow>
   handle_hunk_headers_and_end_patch (mk_parser m hs env n) (UPDATE_FILE_MARKER @ path) =
     (Ok True, mk_parser (UpdateFileMode n) (hs @ [UpdateFile path None []]) env n)"
  by (cases m) (simp_all add: handle_hunk_headers_and_end_patch_def
      handle_end_patch_and_file_headers_def enter_hunk_between markers)

lemma process_header:
  assumes "between_hunks m hs" "field_ok s" "k \<noteq> []" "\<not> is_whitespace (hd k)"
    and "\<And>m. handle_hunk_headers_and_end_patch (mk_parser m hs env n) (k @ s) = (Ok True, q)"
  shows "process_line (mk_parser m hs env n) (k @ s) = (Ok (), q)"
  using assms(1) trim_field [OF assms(2-4)] assms(5)
  by (cases m) (simp_all add: between_hunks_def process_line_def header_or_error_def
      process_add_line_def process_update_line_def)

lemma process_add_header:
  assumes "between_hunks m hs" "field_ok path"
  shows "process_line (mk_parser m hs env n) (ADD_FILE_MARKER @ path) =
    (Ok (), mk_parser AddFileMode (hs @ [AddFile path []]) env n)"
  using assms by (intro process_header handle_add) (simp_all add: between_hunks_def)

lemma process_delete_header:
  assumes "between_hunks m hs" "field_ok path"
  shows "process_line (mk_parser m hs env n) (DELETE_FILE_MARKER @ path) =
    (Ok (), mk_parser DeleteFileMode (hs @ [DeleteFile path]) env n)"
  using assms by (intro process_header handle_delete) (simp_all add: between_hunks_def)

lemma process_update_header:
  assumes "between_hunks m hs" "field_ok path"
  shows "process_line (mk_parser m hs env n) (UPDATE_FILE_MARKER @ path) =
    (Ok (), mk_parser (UpdateFileMode n) (hs @ [UpdateFile path None []]) env n)"
  using assms by (intro process_header handle_update) (simp_all add: between_hunks_def)

section \<open>Lines that are no headers\<close>

lemma handle_none:
  assumes "t = [] \<or> hd t \<noteq> 42"
  shows "handle_hunk_headers_and_end_patch p t = (Ok False, p)"
proof -
  have "strip_prefix t k = None" if "k \<noteq> []" "hd k = 42" for k
    using assms that by (cases t; cases k) auto
  moreover have "t \<noteq> END_PATCH_MARKER" using assms by (auto simp: markers)
  ultimately show ?thesis
    by (cases "mode (state p)") (simp_all add: handle_hunk_headers_and_end_patch_def
        handle_end_patch_and_file_headers_def markers)
qed

lemma process_added_line:
  assumes "last_hunk p = Some (AddFile path c)" "mode (state p) = AddFileMode"
  shows "process_line p (lit ''+'' @ l) = (Ok (), set_last_hunk (AddFile path (c @ l @ [nl])) p)"
proof -
  have "hd (trim (lit ''+'' @ l)) = 43"
    by (simp add: lit_def trim_def trim_start_Cons trim_end_Cons is_whitespace_def)
  then have "handle_hunk_headers_and_end_patch p (trim (lit ''+'' @ l)) = (Ok False, p)"
    by (intro handle_none) simp
  with assms show ?thesis by (simp add: process_line_def process_add_line_def)
qed

lemma run_added_lines:
  "run_lines (mk_parser AddFileMode (hs @ [AddFile path c]) env n) (map (\<lambda>l. lit ''+'' @ l) ls) =
   (Ok (), mk_parser AddFileMode (hs @ [AddFile path (c @ concat (map (\<lambda>l. l @ [nl]) ls))]) env
             (n + length ls))"
proof (induction ls arbitrary: c n)
  case (Cons l ls)
  then show ?case
    using process_added_line
      [of "mk_parser AddFileMode (hs @ [AddFile path c]) env (Suc n)" path c l] by simp
qed simp

section \<open>The body of an update\<close>

fun apply_change :: "change_line \<Rightarrow> update_file_chunk \<Rightarrow> update_file_chunk" where
  "apply_change (Context l) c = push_new l (push_old l c)"
| "apply_change (Added l) c = push_new l c"
| "apply_change (Removed l) c = push_old l c"

abbreviation in_update ::
    "nat \<Rightarrow> hunk list \<Rightarrow> str \<Rightarrow> str option \<Rightarrow> update_file_chunk list \<Rightarrow> str option \<Rightarrow> nat \<Rightarrow>
     streaming_patch_parser" where
  "in_update k hs path mv cs env n \<equiv>
     mk_parser (UpdateFileMode k) (hs @ [UpdateFile path mv cs]) env n"

lemma process_update_step:
  assumes "handle_hunk_headers_and_end_patch (in_update k hs path mv cs env n) (trim_end line) =
      (Ok False, in_update k hs path mv cs env n)"
    and "update_hunk_line n mv cs line = Ok (Some (mv', cs'))"
  shows "process_line (in_update k hs path mv cs env n) line =
    (Ok (), in_update k hs path mv' cs' env n)"
  using assms by (simp add: process_line_def process_update_line_def)

lemma process_move:
  assumes "field_ok d"
  shows "process_line (in_update k hs path None [] env n) (MOVE_TO_MARKER @ d) =
    (Ok (), in_update k hs path (Some d) [] env n)"
proof (rule process_update_step)
  have t: "trim_end (MOVE_TO_MARKER @ d) = MOVE_TO_MARKER @ d"
    using trim_field [OF assms] by simp
  show "update_hunk_line n None [] (MOVE_TO_MARKER @ d) = Ok (Some (Some d, []))"
    by (simp add: update_hunk_line_def t last_is_some_and_def)
  show "handle_hunk_headers_and_end_patch (in_update k hs path None [] env n)
      (trim_end (MOVE_TO_MARKER @ d)) = (Ok False, in_update k hs path None [] env n)"
    unfolding t by (simp add: handle_hunk_headers_and_end_patch_def
        handle_end_patch_and_file_headers_def markers)
qed

text \<open>A chunk list to which a new chunk may be added.\<close>

definition chunks_closed :: "update_file_chunk list \<Rightarrow> bool" where
  "chunks_closed cs \<longleftrightarrow> \<not> last_is_some_and cs chunk_has_no_lines"

lemma handle_at: "hd t = 64 \<Longrightarrow> handle_hunk_headers_and_end_patch p t = (Ok False, p)"
  by (rule handle_none) simp

lemma process_empty_header:
  assumes "chunks_closed cs"
  shows "process_line (in_update k hs path mv cs env n) EMPTY_CHANGE_CONTEXT_MARKER =
    (Ok (), in_update k hs path mv (cs @ [empty_chunk None]) env n)"
proof (rule process_update_step)
  have t: "trim_end EMPTY_CHANGE_CONTEXT_MARKER = EMPTY_CHANGE_CONTEXT_MARKER"
    by (rule trim_end_id) (simp add: markers is_whitespace_def)
  have "\<not> starts_with EMPTY_CHANGE_CONTEXT_MARKER MOVE_TO_MARKER"
    by (simp add: markers starts_with_def)
  then show "update_hunk_line n mv cs EMPTY_CHANGE_CONTEXT_MARKER =
      Ok (Some (mv, cs @ [empty_chunk None]))"
    using assms
    by (simp add: update_hunk_line_def t is_context_line_def chunks_closed_def Let_def)
       (simp add: markers)
  show "handle_hunk_headers_and_end_patch (in_update k hs path mv cs env n)
      (trim_end EMPTY_CHANGE_CONTEXT_MARKER) = (Ok False, in_update k hs path mv cs env n)"
    unfolding t by (rule handle_at) (simp add: markers)
qed

lemma process_context_header:
  assumes "chunks_closed cs" "field_ok ctx"
  shows "process_line (in_update k hs path mv cs env n) (CHANGE_CONTEXT_MARKER @ ctx) =
    (Ok (), in_update k hs path mv (cs @ [empty_chunk (Some ctx)]) env n)"
proof (rule process_update_step)
  have t: "trim_end (CHANGE_CONTEXT_MARKER @ ctx) = CHANGE_CONTEXT_MARKER @ ctx"
    using trim_field [OF assms(2)] by simp
  have "\<not> starts_with (CHANGE_CONTEXT_MARKER @ ctx) MOVE_TO_MARKER"
    "CHANGE_CONTEXT_MARKER @ ctx \<noteq> EMPTY_CHANGE_CONTEXT_MARKER"
    by (simp_all add: markers starts_with_def)
  then show "update_hunk_line n mv cs (CHANGE_CONTEXT_MARKER @ ctx) =
      Ok (Some (mv, cs @ [empty_chunk (Some ctx)]))"
    using assms by (auto simp: update_hunk_line_def t is_context_line_def chunks_closed_def Let_def)
  show "handle_hunk_headers_and_end_patch (in_update k hs path mv cs env n)
      (trim_end (CHANGE_CONTEXT_MARKER @ ctx)) = (Ok False, in_update k hs path mv cs env n)"
    unfolding t by (rule handle_at) (simp add: markers)
qed

text \<open>A change line goes to the last chunk, unless that chunk was closed by the end of file.\<close>

lemma trim_end_change:
  "trim_end (change_text ch) = [] \<or> hd (trim_end (change_text ch)) \<in> {32, 43, 45}"
  by (cases ch) (auto simp: lit_def trim_end_Cons)

lemma update_hunk_line_change:
  assumes "\<not> last_is_some_and cs is_end_of_file"
  shows "update_hunk_line n mv cs (change_text ch) =
    Ok (Some (mv, map_last (apply_change ch) (ensure_chunk cs)))"
proof -
  have t: "trim_end (change_text ch) \<noteq> EMPTY_CHANGE_CONTEXT_MARKER"
    "\<not> starts_with (trim_end (change_text ch)) CHANGE_CONTEXT_MARKER"
    "\<not> starts_with (trim_end (change_text ch)) MOVE_TO_MARKER"
    "trim_end (change_text ch) \<noteq> EOF_MARKER"
    using trim_end_change [of ch]
    by (cases "trim_end (change_text ch)"; force simp: markers starts_with_def)+
  have "update_change_line n mv cs (change_text ch) =
      Ok (Some (mv, map_last (apply_change ch) (ensure_chunk cs)))"
    by (cases ch) (auto simp: update_change_line_def lit_def fun_eq_iff
        intro!: arg_cong [where f = "\<lambda>f. map_last f (ensure_chunk cs)"])
  with assms t show ?thesis
    by (simp add: update_hunk_line_def Let_def is_context_line_def strip_prefix_def)
qed

lemma process_change:
  assumes "\<not> last_is_some_and cs is_end_of_file"
  shows "process_line (in_update k hs path mv cs env n) (change_text ch) =
    (Ok (), in_update k hs path mv (map_last (apply_change ch) (ensure_chunk cs)) env n)"
proof (rule process_update_step)
  show "handle_hunk_headers_and_end_patch (in_update k hs path mv cs env n)
      (trim_end (change_text ch)) = (Ok False, in_update k hs path mv cs env n)"
    using trim_end_change [of ch] by (intro handle_none) auto
qed (rule update_hunk_line_change [OF assms])

lemma map_last_snoc [simp]: "map_last f (xs @ [x]) = xs @ [f x]"
  by (simp add: map_last_def)

lemma ensure_chunk_snoc [simp]: "ensure_chunk (xs @ [x]) = xs @ [x]"
  by (simp add: ensure_chunk_def)

lemma apply_change_eof [simp]: "is_end_of_file (apply_change ch c) = is_end_of_file c"
  by (cases ch) (simp_all add: push_old_def push_new_def)

lemma run_changes:
  "\<not> is_end_of_file c \<Longrightarrow>
   run_lines (in_update k hs path mv (cs @ [c]) env n) (map change_text chs) =
     (Ok (), in_update k hs path mv (cs @ [fold apply_change chs c]) env (n + length chs))"
proof (induction chs arbitrary: c n)
  case (Cons ch chs)
  have "\<not> last_is_some_and (cs @ [c]) is_end_of_file"
    using Cons.prems by (simp add: last_is_some_and_def)
  from process_change [OF this] Cons show ?case by simp
qed simp

lemma fold_apply_change:
  "fold apply_change chs c =
     c\<lparr>old_lines := old_lines c @ concat (map old_part chs),
       new_lines := new_lines c @ concat (map new_part chs)\<rparr>"
proof (induction chs arbitrary: c)
  case (Cons ch chs)
  show ?case by (cases ch) (simp_all add: Cons push_old_def push_new_def)
qed simp

lemma process_eof:
  assumes "\<not> chunk_has_no_lines c" "\<not> is_end_of_file c"
  shows "process_line (in_update k hs path mv (cs @ [c]) env n) EOF_MARKER =
    (Ok (), in_update k hs path mv (cs @ [c\<lparr>is_end_of_file := True\<rparr>]) env n)"
proof (rule process_update_step)
  have t: "trim_end EOF_MARKER = EOF_MARKER"
    by (rule trim_end_id) (simp add: markers is_whitespace_def)
  have "\<not> starts_with EOF_MARKER MOVE_TO_MARKER" "EOF_MARKER \<noteq> EMPTY_CHANGE_CONTEXT_MARKER"
    "\<not> starts_with EOF_MARKER CHANGE_CONTEXT_MARKER"
    by (simp_all add: markers starts_with_def)
  then show "update_hunk_line n mv (cs @ [c]) EOF_MARKER =
      Ok (Some (mv, cs @ [c\<lparr>is_end_of_file := True\<rparr>]))"
    using assms by (simp add: update_hunk_line_def t is_context_line_def last_is_some_and_def
        strip_prefix_def Let_def)
  show "handle_hunk_headers_and_end_patch (in_update k hs path mv (cs @ [c]) env n)
      (trim_end EOF_MARKER) = (Ok False, in_update k hs path mv (cs @ [c]) env n)"
    unfolding t by (simp add: handle_hunk_headers_and_end_patch_def
        handle_end_patch_and_file_headers_def markers)
qed

lemma empty_chunk_eof [simp]: "\<not> is_end_of_file (empty_chunk ctx)"
  by (simp add: empty_chunk_def)

lemma run_chunk_body:
  assumes "header_ok h" "chs \<noteq> []" "chunks_closed cs" "h = NoHeader \<Longrightarrow> cs = []"
  shows "\<exists>n'. run_lines (in_update k hs path mv cs env n) (header_text h @ map change_text chs) =
    (Ok (), in_update k hs path mv
              (cs @ [fold apply_change chs (empty_chunk (header_context h))]) env n')"
proof (cases h)
  case NoHeader
  then have "cs = []" by (rule assms(4))
  from assms(2) obtain ch chs' where chs: "chs = ch # chs'" by (cases chs) auto
  have "process_line (in_update k hs path mv [] env (Suc n)) (change_text ch) =
      (Ok (), in_update k hs path mv ([] @ [apply_change ch (empty_chunk None)]) env (Suc n))"
    using process_change [of "[]"] by (simp add: last_is_some_and_def ensure_chunk_def map_last_def)
  moreover have "\<not> is_end_of_file (apply_change ch (empty_chunk None))" by simp
  note run_changes [OF this, of k hs path mv "[]" env "Suc n" chs']
  ultimately show ?thesis by (auto simp: NoHeader chs \<open>cs = []\<close>)
next
  case EmptyHeader
  show ?thesis
    using process_empty_header [OF assms(3)] run_changes [OF empty_chunk_eof]
    by (auto simp: EmptyHeader)
next
  case (ContextHeader ctx)
  show ?thesis
    using process_context_header [OF assms(3)] run_changes [OF empty_chunk_eof] assms(1)
    by (auto simp: ContextHeader)
qed

lemma change_parts: "old_part ch = [] \<Longrightarrow> new_part ch \<noteq> []"
  by (cases ch) auto

lemma chunk_meaning_lines: "chunk_ok c \<Longrightarrow> \<not> chunk_has_no_lines (chunk_meaning c)"
  using change_parts
  by (cases "changes c") (auto simp: chunk_ok_def chunk_meaning_def chunk_has_no_lines_def)

lemma run_chunk:
  assumes ok: "chunk_ok c" and "chunks_closed cs" "header c = NoHeader \<Longrightarrow> cs = []"
  shows "\<exists>n'. run_lines (in_update k hs path mv cs env n) (chunk_text c) =
    (Ok (), in_update k hs path mv (cs @ [chunk_meaning c]) env n')"
proof -
  let ?c = "fold apply_change (changes c) (empty_chunk (header_context (header c)))"
  from run_chunk_body [of "header c" "changes c" cs k hs path mv env n] assms obtain n' where body:
    "run_lines (in_update k hs path mv cs env n)
       (header_text (header c) @ map change_text (changes c)) =
     (Ok (), in_update k hs path mv (cs @ [?c]) env n')"
    by (auto simp: chunk_ok_def)
  have c: "?c = (chunk_meaning c)\<lparr>is_end_of_file := False\<rparr>"
    by (simp add: fold_apply_change empty_chunk_def chunk_meaning_def)
  show ?thesis
  proof (cases "at_eof c")
    case False
    then have "?c = chunk_meaning c" by (simp add: c chunk_meaning_def)
    with body False show ?thesis by (auto simp: chunk_text_def)
  next
    case True
    have eof: "?c\<lparr>is_end_of_file := True\<rparr> = chunk_meaning c"
      by (simp add: c chunk_meaning_def True)
    have "\<not> chunk_has_no_lines ?c" "\<not> is_end_of_file ?c"
      using chunk_meaning_lines [OF ok] by (simp_all add: c chunk_has_no_lines_def)
    from process_eof [OF this, of k hs path mv cs env "Suc n'"] eof
    have "run_lines (in_update k hs path mv (cs @ [?c]) env n') [EOF_MARKER] =
        (Ok (), in_update k hs path mv (cs @ [chunk_meaning c]) env (Suc n'))"
      by simp
    from run_lines_appendI [OF body this] True show ?thesis
      by (auto simp: chunk_text_def)
  qed
qed

lemma run_chunks:
  assumes "list_all chunk_ok cs" "chunks_closed ds"
    and "cs \<noteq> [] \<Longrightarrow> header (hd cs) = NoHeader \<Longrightarrow> ds = []"
    and "list_all (\<lambda>c. header c \<noteq> NoHeader) (tl cs)"
  shows "\<exists>n'. run_lines (in_update k hs path mv ds env n) (concat (map chunk_text cs)) =
    (Ok (), in_update k hs path mv (ds @ map chunk_meaning cs) env n')"
  using assms
proof (induction cs arbitrary: ds n)
  case (Cons c cs)
  from run_chunk [of c ds k hs path mv env n] Cons.prems obtain n1 where 1:
    "run_lines (in_update k hs path mv ds env n) (chunk_text c) =
      (Ok (), in_update k hs path mv (ds @ [chunk_meaning c]) env n1)"
    by auto
  have "chunks_closed (ds @ [chunk_meaning c])"
    using Cons.prems by (simp add: chunks_closed_def last_is_some_and_def chunk_meaning_lines)
  moreover have "header (hd cs) \<noteq> NoHeader" "list_all (\<lambda>c. header c \<noteq> NoHeader) (tl cs)" if "cs \<noteq> []"
    using Cons.prems(4) that by (cases cs; simp)+
  ultimately obtain n2 where 2:
    "run_lines (in_update k hs path mv (ds @ [chunk_meaning c]) env n1)
       (concat (map chunk_text cs)) =
     (Ok (), in_update k hs path mv ((ds @ [chunk_meaning c]) @ map chunk_meaning cs) env n2)"
    using Cons.IH [of "ds @ [chunk_meaning c]" n1] Cons.prems(1) by (cases "cs = []") auto
  from run_lines_appendI [OF 1 2] show ?case by auto
qed auto

section \<open>Hunks and whole patches\<close>

lemma hunk_meaning_complete: "hunk_ok h \<Longrightarrow> hunk_complete (hunk_meaning h)"
proof (cases h)
  case (AddSyntax path ls)
  then show ?thesis
    by (cases ls rule: rev_cases) (auto simp: lines_terminated_def)
qed (auto simp: list_all_iff chunk_meaning_lines)

lemma run_hunk:
  assumes ok: "hunk_ok h" and btw: "between_hunks m hs"
  shows "\<exists>m' n'. run_lines (mk_parser m hs env n) (hunk_text h) =
    (Ok (), mk_parser m' (hs @ [hunk_meaning h]) env n') \<and>
    between_hunks m' (hs @ [hunk_meaning h])"
proof -
  have btw': "between_hunks m' (hs @ [hunk_meaning h])" if "m' \<noteq> NotStarted" "m' \<noteq> EndedPatch" for m'
    using that hunk_meaning_complete [OF ok] by (simp add: between_hunks_def)
  show ?thesis
  proof (cases h)
    case (AddSyntax path ls)
    then show ?thesis
      using btw' [of AddFileMode] ok process_add_header [OF btw] run_added_lines by auto
  next
    case (DeleteSyntax path)
    then show ?thesis
      using btw' [of DeleteFileMode] ok process_delete_header [OF btw] by auto
  next
    case (UpdateSyntax path mv cs)
    have head: "run_lines (mk_parser m hs env n) [UPDATE_FILE_MARKER @ path] =
        (Ok (), in_update (Suc n) hs path None [] env (Suc n))"
      using ok process_update_header [OF btw] by (simp add: UpdateSyntax)
    let ?n = "case mv of None \<Rightarrow> Suc n | Some d \<Rightarrow> Suc (Suc n)"
    have move: "run_lines (in_update (Suc n) hs path None [] env (Suc n))
        (case mv of None \<Rightarrow> [] | Some d \<Rightarrow> [MOVE_TO_MARKER @ d]) =
        (Ok (), in_update (Suc n) hs path mv [] env ?n)"
      using ok process_move by (simp add: UpdateSyntax split: option.splits)
    obtain n' where chunks: "run_lines (in_update (Suc n) hs path mv [] env ?n)
        (concat (map chunk_text cs)) =
        (Ok (), in_update (Suc n) hs path mv ([] @ map chunk_meaning cs) env n')"
      using ok run_chunks [of cs "[]" "Suc n" hs path mv env ?n]
      by (auto simp: UpdateSyntax chunks_closed_def last_is_some_and_def)
    from run_lines_appendI [OF head run_lines_appendI [OF move chunks]]
    show ?thesis using btw' [of "UpdateFileMode (Suc n)"] by (auto simp: UpdateSyntax)
  qed
qed

lemma run_hunks:
  assumes "list_all hunk_ok hss" "between_hunks m hs"
  shows "\<exists>m' n'. run_lines (mk_parser m hs env n) (concat (map hunk_text hss)) =
    (Ok (), mk_parser m' (hs @ map hunk_meaning hss) env n') \<and>
    between_hunks m' (hs @ map hunk_meaning hss)"
  using assms
proof (induction hss arbitrary: m hs n)
  case (Cons h hss)
  from run_hunk [of h m hs env n] Cons.prems obtain m1 n1 where 1:
    "run_lines (mk_parser m hs env n) (hunk_text h) =
      (Ok (), mk_parser m1 (hs @ [hunk_meaning h]) env n1)"
    "between_hunks m1 (hs @ [hunk_meaning h])"
    by auto
  from Cons.IH [OF _ 1(2), of n1] Cons.prems obtain m2 n2 where 2:
    "run_lines (mk_parser m1 (hs @ [hunk_meaning h]) env n1) (concat (map hunk_text hss)) =
      (Ok (), mk_parser m2 ((hs @ [hunk_meaning h]) @ map hunk_meaning hss) env n2)"
    "between_hunks m2 ((hs @ [hunk_meaning h]) @ map hunk_meaning hss)"
    by auto
  from run_lines_appendI [OF 1(1) 2(1)] 2(2) show ?case by auto
qed auto

lemma process_begin:
  "process_line (mk_parser NotStarted hs env n) BEGIN_PATCH_MARKER =
    (Ok (), mk_parser StartedPatch hs env n)"
proof -
  have "trim BEGIN_PATCH_MARKER = BEGIN_PATCH_MARKER"
    by (rule trim_id) (simp add: markers is_whitespace_def)
  then show ?thesis by (simp add: process_line_def)
qed

lemma process_environment:
  assumes "field_ok e" "trim e = e"
  shows "process_line (mk_parser StartedPatch [] None n) (ENVIRONMENT_ID_MARKER @ lit '' '' @ e) =
    (Ok (), mk_parser StartedPatch [] (Some e) n)"
proof -
  have "trim (ENVIRONMENT_ID_MARKER @ lit '' '' @ e) = ENVIRONMENT_ID_MARKER @ lit '' '' @ e"
    using trim_field [OF assms(1), of "ENVIRONMENT_ID_MARKER @ lit '' ''"]
    by (simp add: markers is_whitespace_def)
  moreover have "trim (lit '' '' @ e) = e"
    using assms(2) by (simp add: lit_def trim_def trim_start_Cons)
  ultimately show ?thesis
    using assms(1) by (simp add: process_line_def header_or_error_def field_ok_def Let_def
        handle_hunk_headers_and_end_patch_def handle_environment_id_def)
qed

lemma run_patch_lines:
  assumes "list_all hunk_ok hss" "env_ok env"
  shows "\<exists>m n. run_lines default_parser (butlast (patch_lines env hss)) =
    (Ok (), mk_parser m (map hunk_meaning hss) env n) \<and> between_hunks m (map hunk_meaning hss)"
proof -
  let ?env = "case env of None \<Rightarrow> [] | Some e \<Rightarrow> [ENVIRONMENT_ID_MARKER @ lit '' '' @ e]"
  let ?n = "case env of None \<Rightarrow> 1 | Some e \<Rightarrow> (2::nat)"
  have head: "run_lines default_parser [BEGIN_PATCH_MARKER] =
      (Ok (), mk_parser StartedPatch [] None 1)"
    by (simp add: default_parser_mk process_begin)
  have env: "run_lines (mk_parser StartedPatch [] None 1) ?env =
      (Ok (), mk_parser StartedPatch [] env ?n)"
    using assms(2) process_environment by (cases env) (simp_all add: numeral_2_eq_2)
  obtain m n where hunks: "run_lines (mk_parser StartedPatch [] env ?n)
      (concat (map hunk_text hss)) = (Ok (), mk_parser m ([] @ map hunk_meaning hss) env n)"
      "between_hunks m ([] @ map hunk_meaning hss)"
    using run_hunks [OF assms(1), of StartedPatch "[]" env ?n] by (auto simp: between_hunks_def)
  from run_lines_appendI [OF head run_lines_appendI [OF env hunks(1)]] hunks(2)
  show ?thesis by (auto simp: patch_lines_def butlast_append)
qed

section \<open>Lines of a patch text\<close>

lemma line_ok_field: "field_ok s \<Longrightarrow> nl \<notin> set m \<Longrightarrow> line_ok (m @ s)"
  by (auto simp: line_ok_def field_ok_def)

lemma markers_no_nl [simp]:
  "nl \<notin> set ADD_FILE_MARKER" "nl \<notin> set DELETE_FILE_MARKER" "nl \<notin> set UPDATE_FILE_MARKER"
  "nl \<notin> set MOVE_TO_MARKER" "nl \<notin> set CHANGE_CONTEXT_MARKER" "nl \<notin> set ENVIRONMENT_ID_MARKER"
  by (simp_all add: markers)

lemma fixed_lines_ok [simp]:
  "line_ok BEGIN_PATCH_MARKER" "line_ok END_PATCH_MARKER" "line_ok EOF_MARKER"
  "line_ok EMPTY_CHANGE_CONTEXT_MARKER"
  by (simp_all add: markers line_ok_def)

lemma line_ok_Cons: "c \<noteq> nl \<Longrightarrow> c \<noteq> cr \<Longrightarrow> line_ok l \<Longrightarrow> line_ok (c # l)"
  by (auto simp: line_ok_def)

lemma change_text_ok: "change_ok ch \<Longrightarrow> line_ok (change_text ch)"
  by (cases ch) (auto simp: lit_def intro: line_ok_Cons)

lemma chunk_text_ok: "chunk_ok c \<Longrightarrow> list_all line_ok (chunk_text c)"
  by (cases "header c")
     (auto simp: chunk_ok_def chunk_text_def list_all_iff change_text_ok line_ok_field)

lemma hunk_text_ok: "hunk_ok h \<Longrightarrow> list_all line_ok (hunk_text h)"
proof (cases h)
  case (UpdateSyntax path mv cs)
  moreover assume "hunk_ok h"
  ultimately show ?thesis
    using chunk_text_ok by (auto simp: list_all_iff line_ok_field split: option.splits)
qed (auto simp: list_all_iff line_ok_field lit_def intro: line_ok_Cons)

lemma patch_lines_ok:
  assumes "list_all hunk_ok hss" "env_ok env"
  shows "list_all line_ok (patch_lines env hss)"
proof -
  have "list_all line_ok (concat (map hunk_text hss))"
    using assms(1) hunk_text_ok by (fastforce simp: list_all_iff)
  moreover have "list_all line_ok
      (case env of None \<Rightarrow> [] | Some e \<Rightarrow> [ENVIRONMENT_ID_MARKER @ lit '' '' @ e])"
    using assms(2) line_ok_field [of _ "ENVIRONMENT_ID_MARKER @ lit '' ''"]
    by (cases env) (auto simp: lit_def)
  ultimately show ?thesis by (simp add: patch_lines_def)
qed

lemma join_lines:
  "join_str [nl] (ls @ [l]) = concat (map (\<lambda>l. l @ [nl]) ls) @ l"
  by (induction ls) (auto simp: join_str_Cons)

lemma lines_of_pieces_ok:
  "list_all line_ok ps \<Longrightarrow> ps \<noteq> [] \<Longrightarrow> last ps \<noteq> [] \<Longrightarrow> lines_of_pieces ps = ps"
  by (induction ps rule: lines_of_pieces.induct) (auto simp: strip_cr_ok)

lemma str_lines_join:
  assumes "list_all line_ok ls" "ls \<noteq> []" "last ls \<noteq> []"
  shows "str_lines (join_str [nl] ls) = ls"
proof -
  have "split_char nl (join_str [nl] ls) = ls"
    using assms by (intro split_join) (auto simp: list_all_iff line_ok_def)
  with assms show ?thesis by (simp add: str_lines_def lines_of_pieces_ok)
qed

section \<open>The parser reads every well-formed patch\<close>

lemma parse_patch_body_text:
  assumes "list_all hunk_ok hss" "env_ok env"
  shows "parse_patch_body (patch_text env hss) =
    Ok \<lparr> args_patch = patch_text env hss, args_hunks = map hunk_meaning hss,
         args_workdir = None, args_environment_id = env \<rparr>"
proof -
  obtain m n where run: "run_lines default_parser (butlast (patch_lines env hss)) =
      (Ok (), mk_parser m (map hunk_meaning hss) env n)"
    and btw: "between_hunks m (map hunk_meaning hss)"
    using run_patch_lines [OF assms] by blast
  let ?p = "(mk_parser m (map hunk_meaning hss) env n)\<lparr>line_buffer := END_PATCH_MARKER\<rparr>"
  have split: "patch_text env hss =
      concat (map (\<lambda>l. l @ [nl]) (butlast (patch_lines env hss))) @ END_PATCH_MARKER"
    using join_lines [of "butlast (patch_lines env hss)" END_PATCH_MARKER]
    by (simp add: patch_text_def patch_lines_def butlast_append)
  have "list_all line_ok (butlast (patch_lines env hss))"
    using patch_lines_ok [OF assms] by (auto simp: list_all_iff dest: in_set_butlastD)
  then have push: "push_delta default_parser (patch_text env hss) =
      (Ok (map hunk_meaning hss), ?p)"
    using push_delta_lines [of "butlast (patch_lines env hss)" default_parser END_PATCH_MARKER]
    by (simp add: split run push_delta_partial) (simp add: markers default_parser_def)
  have "trim END_PATCH_MARKER = END_PATCH_MARKER" "END_PATCH_MARKER \<noteq> []"
    by (rule trim_id, simp_all add: markers is_whitespace_def)
  then have fin: "finish ?p =
      (Ok (map hunk_meaning hss), mk_parser EndedPatch (map hunk_meaning hss) env (Suc n))"
    using btw by (simp add: finish_def finish_last_line_def ensure_between between_hunks_def)
  show ?thesis by (simp add: parse_patch_body_def push fin)
qed

lemma patch_lines_ends:
  "hd (patch_lines env hss) = BEGIN_PATCH_MARKER" "last (patch_lines env hss) = END_PATCH_MARKER"
  "patch_lines env hss \<noteq> []"
  by (simp_all add: patch_lines_def)

lemma trim_markers: "trim BEGIN_PATCH_MARKER = BEGIN_PATCH_MARKER"
  "trim END_PATCH_MARKER = END_PATCH_MARKER"
  by (rule trim_id, simp add: markers is_whitespace_def)+

lemma check_boundaries_patch_lines:
  "check_patch_boundaries md (patch_lines env hss) = Ok (patch_lines env hss)"
proof -
  have "check_patch_boundaries_strict (patch_lines env hss) = Ok (patch_lines env hss)"
    using patch_lines_ends [of env hss]
    by (cases "patch_lines env hss") (auto simp: check_patch_boundaries_strict_def
        check_start_and_end_lines_strict_def trim_markers)
  then show ?thesis
    by (cases md) (simp_all add: check_patch_boundaries_def check_patch_boundaries_lenient_def)
qed

lemma join_str_hd: "xs \<noteq> [] \<Longrightarrow> hd xs \<noteq> [] \<Longrightarrow> hd (join_str sep xs) = hd (hd xs)"
  by (cases xs) (auto simp: join_str_Cons)

lemma join_str_last: "xs \<noteq> [] \<Longrightarrow> last xs \<noteq> [] \<Longrightarrow> last (join_str sep xs) = last (last xs)"
  by (cases xs rule: rev_cases; cases "butlast xs = []") (auto simp: join_str_snoc)

lemma trim_patch_text: "trim (patch_text env hss) = patch_text env hss"
proof (rule trim_id)
  have "hd (patch_text env hss) = 42" "last (patch_text env hss) = 104"
    using patch_lines_ends [of env hss] join_str_hd [of "patch_lines env hss"]
      join_str_last [of "patch_lines env hss"]
    by (simp_all add: patch_text_def markers)
  then show "patch_text env hss = [] \<or>
      \<not> is_whitespace (hd (patch_text env hss)) \<and> \<not> is_whitespace (last (patch_text env hss))"
    by (simp add: is_whitespace_def)
qed

lemma parse_patch_text_grammar:
  assumes "list_all hunk_ok hss" "env_ok env"
  shows "parse_patch_text (patch_text env hss) md =
    Ok \<lparr> args_patch = patch_text env hss, args_hunks = map hunk_meaning hss,
         args_workdir = None, args_environment_id = env \<rparr>"
proof -
  have "str_lines (patch_text env hss) = patch_lines env hss"
    unfolding patch_text_def using patch_lines_ok [OF assms] patch_lines_ends
    by (intro str_lines_join) (auto simp: markers)
  then show ?thesis
    using parse_patch_body_text [OF assms]
    by (simp add: parse_patch_text_def trim_patch_text check_boundaries_patch_lines)
       (simp add: patch_text_def)
qed

section \<open>Heredoc wrappers\<close>

definition heredoc_wrap :: "str \<Rightarrow> str \<Rightarrow> str" where
  "heredoc_wrap start t = start @ [nl] @ t @ [nl] @ lit ''EOF''"

lemma lines_of_pieces_snoc:
  "ps \<noteq> [] \<Longrightarrow> last ps \<noteq> [] \<Longrightarrow> last (last ps) \<noteq> cr \<Longrightarrow> e \<noteq> [] \<Longrightarrow>
    lines_of_pieces (ps @ [e]) = lines_of_pieces ps @ [e]"
  by (induction ps rule: lines_of_pieces.induct)
     (auto simp: strip_cr_def strip_suffix_Some split: option.splits)

lemma last_piece:
  assumes "s \<noteq> []" "last s \<noteq> d"
  shows "last (split_char d s) \<noteq> []" "last (last (split_char d s)) = last s"
proof -
  obtain ys y where ps: "split_char d s = ys @ [y]"
    using split_char_not_Nil by (cases "split_char d s" rule: rev_cases) auto
  have s: "join_str [d] (ys @ [y]) = s" using join_split_char [of d s] ps by simp
  show "last (split_char d s) \<noteq> []"
    using s assms by (cases "ys = []") (auto simp: ps join_str_snoc)
  with s show "last (last (split_char d s)) = last s"
    using join_str_last [of "ys @ [y]" "[d]"] by (simp add: ps)
qed

lemma split_char_middle: "split_char d (x @ d # y) = split_char d x @ split_char d y"
  by (induction x) (auto split: list.splits)

lemma heredoc_start_facts:
  assumes "s \<in> set heredoc_starts"
  shows "nl \<notin> set s" "strip_cr s = s" "s \<noteq> []" "\<not> is_whitespace (hd s)" "trim s = s"
    "s \<noteq> BEGIN_PATCH_MARKER"
proof -
  show "nl \<notin> set s" "strip_cr s = s" "s \<noteq> []" "\<not> is_whitespace (hd s)" "s \<noteq> BEGIN_PATCH_MARKER"
    using assms by (auto simp: heredoc_starts_def strip_cr_def strip_suffix_def ends_with_def lit_def
        is_whitespace_def markers)
  show "trim s = s"
    using assms by (intro trim_id) (auto simp: heredoc_starts_def lit_def is_whitespace_def)
qed

lemma str_lines_heredoc:
  assumes "s \<in> set heredoc_starts" "t \<noteq> []" "\<not> is_whitespace (last t)"
  shows "str_lines (trim (heredoc_wrap s t)) = s # str_lines t @ [lit ''EOF'']"
proof -
  have trim: "trim (heredoc_wrap s t) = heredoc_wrap s t"
    using heredoc_start_facts [OF assms(1)]
    by (intro trim_id) (simp add: heredoc_wrap_def lit_def is_whitespace_def)
  have nl: "last t \<noteq> nl" "last t \<noteq> cr" using assms(3) by (auto simp: is_whitespace_def)
  have "split_char nl (heredoc_wrap s t) = s # split_char nl t @ [lit ''EOF'']"
    using heredoc_start_facts(1) [OF assms(1)]
    by (simp add: heredoc_wrap_def split_char_middle split_char_no_delim lit_def)
  moreover have "lines_of_pieces (split_char nl t @ [lit ''EOF'']) =
      lines_of_pieces (split_char nl t) @ [lit ''EOF'']"
    using last_piece [OF assms(2) nl(1)] nl(2)
    by (intro lines_of_pieces_snoc) (auto simp: lit_def)
  ultimately show ?thesis
    using heredoc_start_facts(2) [OF assms(1)]
    by (cases "split_char nl t @ [lit ''EOF'']") (simp_all add: trim str_lines_def)
qed
lemma strict_Ok_trim:
  assumes "check_patch_boundaries_strict (str_lines (trim t)) = Ok ls"
  shows "trim t \<noteq> []" "\<not> is_whitespace (last (trim t))" "2 \<le> length (str_lines (trim t))"
proof -
  note ok = check_boundaries_strict_Ok [OF assms]
  then show ne: "trim t \<noteq> []" by (auto simp: str_lines_def)
  then show "\<not> is_whitespace (last (trim t))" unfolding trim_def by (rule trim_end_last)
  have "BEGIN_PATCH_MARKER \<noteq> END_PATCH_MARKER" by (simp add: markers)
  with ok show "2 \<le> length (str_lines (trim t))"
    by (cases "str_lines (trim t)"; cases "tl (str_lines (trim t))") auto
qed

lemma heredoc_strict_Err:
  "s \<in> set heredoc_starts \<Longrightarrow>
   check_patch_boundaries_strict (s # ls) = Err (InvalidPatchError msg_first_line)"
  using heredoc_start_facts [of s]
  by (simp add: check_patch_boundaries_strict_def check_start_and_end_lines_strict_def)

lemma parse_patch_heredoc:
  assumes start: "s \<in> set heredoc_starts" and ok: "parse_patch_text t Strict = Ok args"
  shows "parse_patch (heredoc_wrap s (trim t)) = Ok args \<and> parse_patch t = Ok args"
proof -
  from ok obtain ls where ls: "check_patch_boundaries_strict (str_lines (trim t)) = Ok ls"
    and body: "parse_patch_body (join_str [nl] ls) = Ok args"
    by (auto simp: parse_patch_text_def check_patch_boundaries_def split: sum.splits)
  note ends = strict_Ok_trim [OF ls]
  have "check_patch_boundaries_lenient (str_lines (trim (heredoc_wrap s (trim t)))) = Ok ls"
    using ls ends(3) start
    by (simp add: str_lines_heredoc [OF start ends(1,2)] check_patch_boundaries_lenient_def
        heredoc_strict_Err ends_with_def)
  moreover have "check_patch_boundaries_lenient (str_lines (trim t)) = Ok ls"
    using ls by (simp add: check_patch_boundaries_lenient_def)
  ultimately show ?thesis
    using body by (simp add: parse_patch_def PARSE_IN_STRICT_MODE_def parse_patch_text_def
        check_patch_boundaries_def)
qed
section \<open>Properties\<close>

lemmas grammar_eval = patch_text_def patch_lines_def chunk_text_def chunk_meaning_def markers
  lit_def hunk_ok.simps chunk_ok_def field_ok_def line_ok_def is_whitespace_def

text \<open>A patch with an addition, a deletion and a renaming update, for the instances below.\<close>

definition sample_patch :: "hunk_syntax list" where
  "sample_patch =
     [AddSyntax (lit ''a.txt'') [lit ''hi''], DeleteSyntax (lit ''b''),
      UpdateSyntax (lit ''c'') (Some (lit ''d''))
        [Chunk (ContextHeader (lit ''f'')) [Context (lit ''x''), Removed (lit ''y''), Added (lit ''z'')] True]]"

lemma sample_patch_ok: "list_all hunk_ok sample_patch"
  by (simp add: sample_patch_def grammar_eval)

lemma parse_patch_sample:
  "parse_patch_text (patch_text None sample_patch) md =
    Ok \<lparr> args_patch = patch_text None sample_patch, args_hunks = map hunk_meaning sample_patch,
         args_workdir = None, args_environment_id = None \<rparr>"
  by (rule parse_patch_text_grammar) (simp_all add: sample_patch_ok)

text \<open>
  C16. The parser reads every well-formed patch: the text of a list of hunks, with or without
  an environment line, parses to the hunks it denotes and to that environment.
\<close>

theorem parse_patch_reads_grammar:
  assumes "list_all hunk_ok hs" "env_ok env"
  shows "parse_patch (patch_text env hs) =
    Ok \<lparr> args_patch = patch_text env hs, args_hunks = map hunk_meaning hs,
         args_workdir = None, args_environment_id = env \<rparr>"
  unfolding parse_patch_def by (rule parse_patch_text_grammar [OF assms])

theorem parse_patch_reads_grammar_witness:
  "parse_patch (patch_text (Some (lit ''env1'')) sample_patch) =
    Ok \<lparr> args_patch = patch_text (Some (lit ''env1'')) sample_patch,
         args_hunks = [AddFile (lit ''a.txt'') (lit ''hi'' @ [nl]), DeleteFile (lit ''b''),
           UpdateFile (lit ''c'') (Some (lit ''d''))
             [\<lparr> change_context = Some (lit ''f''), old_lines = [lit ''x'', lit ''y''],
                new_lines = [lit ''x'', lit ''z''], is_end_of_file = True \<rparr>]],
         args_workdir = None, args_environment_id = Some (lit ''env1'') \<rparr>"
proof -
  have "env_ok (Some (lit ''env1''))"
    by (simp add: field_ok_def lit_def is_whitespace_def str_defs)
  from parse_patch_reads_grammar [OF sample_patch_ok this]
  show ?thesis by (simp add: sample_patch_def chunk_meaning_def)
qed


text \<open>
  C40. What the parser accepts is complete: an added file ends in a newline or is empty, and
  an updated file has at least one chunk and no chunk without lines.
\<close>

theorem parse_patch_hunks_complete:
  assumes "parse_patch t = Ok args" "h \<in> set (args_hunks args)"
  shows "(\<forall>path contents. h = AddFile path contents \<longrightarrow> contents = [] \<or> last contents = nl) \<and>
    (\<forall>path mv chunks. h = UpdateFile path mv chunks \<longrightarrow> chunks \<noteq> [] \<and>
       (\<forall>c \<in> set chunks. old_lines c \<noteq> [] \<or> new_lines c \<noteq> []))"
proof -
  have "hunk_complete h"
    using parse_patch_text_complete assms by (fastforce simp: parse_patch_def list_all_iff)
  then show ?thesis by (cases h) (auto simp: lines_terminated_def list_all_iff chunk_has_no_lines_def)
qed

theorem parse_patch_hunks_complete_witness:
  "parse_patch (patch_text None sample_patch) =
     Ok \<lparr> args_patch = patch_text None sample_patch, args_hunks = map hunk_meaning sample_patch,
          args_workdir = None, args_environment_id = None \<rparr> \<and>
   lit ''hi'' @ [nl] \<noteq> [] \<and> last (lit ''hi'' @ [nl]) = nl"
proof -
  have ok: "parse_patch (patch_text None sample_patch) =
     Ok \<lparr> args_patch = patch_text None sample_patch, args_hunks = map hunk_meaning sample_patch,
          args_workdir = None, args_environment_id = None \<rparr>"
    unfolding parse_patch_def by (rule parse_patch_sample)
  from parse_patch_hunks_complete [OF ok, of "AddFile (lit ''a.txt'') (lit ''hi'' @ [nl])"]
  have "lit ''hi'' @ [nl] = [] \<or> last (lit ''hi'' @ [nl]) = nl"
    by (simp add: sample_patch_def)
  with ok show ?thesis by simp
qed

text \<open>
  A hunk error points into the text: its line number is at least one and at most the
  number of lines of the trimmed patch.
\<close>

theorem parse_patch_error_line:
  assumes "parse_patch t = Err (InvalidHunkError msg n)"
  shows "1 \<le> n \<and> n \<le> length (str_lines (trim t))"
  using parse_patch_text_error_line [OF assms [unfolded parse_patch_def]] by simp

text \<open>The equations that evaluate the parser on a concrete text.\<close>

lemmas parser_eval = parse_patch_def PARSE_IN_STRICT_MODE_def parse_patch_text_def
  check_patch_boundaries_def check_patch_boundaries_lenient_def check_patch_boundaries_strict_def
  check_start_and_end_lines_strict_def parse_patch_body_def default_parser_def process_line_def
  handle_hunk_headers_and_end_patch_def handle_end_patch_and_file_headers_def enter_hunk_def
  process_update_line_def process_add_line_def header_or_error_def
  ensure_update_hunk_is_not_empty_def finish_def finish_last_line_def parser_simps str_defs
  markers lit_def is_whitespace_def Let_def

theorem parse_patch_error_line_witness:
  "\<exists>msg n. parse_patch (lit ''*** Begin Patch'' @ [nl] @ lit ''*** Update File: a'' @ [nl] @
     lit ''*** End Patch'') = Err (InvalidHunkError msg n) \<and> n = 2 \<and> 1 \<le> n \<and> n \<le> 3"
proof -
  let ?t = "lit ''*** Begin Patch'' @ [nl] @ lit ''*** Update File: a'' @ [nl] @ lit ''*** End Patch''"
  obtain msg where err: "parse_patch ?t = Err (InvalidHunkError msg 2)" by (simp add: parser_eval)
  have "length (str_lines (trim ?t)) = 3" by (simp add: parser_eval)
  with parse_patch_error_line [OF err] err show ?thesis by auto
qed

text \<open>
  A patch that a strict parse accepts may be given in a heredoc: wrapped between any of
  the three opening lines and a closing line, it parses to the same arguments, which are
  also those of the bare text.
\<close>

theorem parse_patch_heredoc_same:
  assumes "s \<in> set heredoc_starts" "parse_patch_text t Strict = Ok args"
  shows "parse_patch (s @ [nl] @ trim t @ [nl] @ lit ''EOF'') = Ok args \<and> parse_patch t = Ok args"
  using parse_patch_heredoc [OF assms] by (simp add: heredoc_wrap_def)

theorem parse_patch_heredoc_same_witness:
  "parse_patch (lit ''<<EOF'' @ [nl] @ patch_text None sample_patch @ [nl] @ lit ''EOF'') =
    Ok \<lparr> args_patch = patch_text None sample_patch, args_hunks = map hunk_meaning sample_patch,
         args_workdir = None, args_environment_id = None \<rparr>"
  using parse_patch_heredoc_same [OF _ parse_patch_sample, of "lit ''<<EOF''"]
  by (simp add: heredoc_starts_def trim_patch_text)

end
