(* ===== verification/Patch_Compute.thy ===== *)
theory Patch_Compute
  imports Seek_Sequence Patch_Parser
begin

text \<open>
  From the chunks of an update to the new text of the file, the part of
  \<^verbatim>\<open>apply-patch/src/lib.rs\<close> that touches no file: \<^verbatim>\<open>compute_replacements\<close>,
  \<^verbatim>\<open>apply_replacements\<close> and the line handling of
  \<^verbatim>\<open>derive_new_contents_from_chunks\<close>.  An out-of-range \<^verbatim>\<open>Vec::insert\<close>, which panics,
  is the value \<open>None\<close>; the lemmas show that it does not happen, that replacements which do
  not overlap are spliced in order, and what edit of the file the whole amounts to.
\<close>

section \<open>Model\<close>

type_synonym replacement = "nat \<times> nat \<times> str list"

text \<open>\<^verbatim>\<open>last().is_some_and(String::is_empty)\<close>\<close>

definition ends_empty :: "str list \<Rightarrow> bool" where
  "ends_empty ls = last_is_some_and ls (\<lambda>l. l = [])"

text \<open>The two failures, with the text of their messages.\<close>

definition msg_no_context :: "str \<Rightarrow> str \<Rightarrow> str" where
  "msg_no_context ctx_line path =
     lit ''Failed to find context '' @ [39] @ ctx_line @ [39] @ lit '' in '' @ path"

definition msg_no_lines_found :: "str \<Rightarrow> str list \<Rightarrow> str" where
  "msg_no_lines_found path old =
     lit ''Failed to find expected lines in '' @ path @ lit '':'' @ [nl] @ join_str [nl] old"

text \<open>The first part of the loop body: move past the context line of the chunk.\<close>

definition seek_context :: "str list \<Rightarrow> str \<Rightarrow> update_file_chunk \<Rightarrow> nat \<Rightarrow> str + nat" where
  "seek_context original_lines path chunk line_index =
     (case change_context chunk of
        None \<Rightarrow> Ok line_index
      | Some ctx_line \<Rightarrow>
          (case seek_sequence original_lines [ctx_line] line_index False of
             Some idx \<Rightarrow> Ok (idx + 1)
           | None \<Rightarrow> Err (msg_no_context ctx_line path)))"

definition insertion_index :: "str list \<Rightarrow> nat" where
  "insertion_index original_lines =
     (if ends_empty original_lines then length original_lines - 1
      else length original_lines)"

text \<open>The search for the old lines, with the retry without a trailing empty line.\<close>

definition find_old_lines ::
    "str list \<Rightarrow> update_file_chunk \<Rightarrow> nat \<Rightarrow> nat option \<times> str list \<times> str list" where
  "find_old_lines original_lines chunk line_index =
     (let pattern = old_lines chunk; new_slice = new_lines chunk;
          found = seek_sequence original_lines pattern line_index (is_end_of_file chunk)
      in if found = None \<and> ends_empty pattern then
           (let pattern' = butlast pattern;
                new_slice' =
                  (if ends_empty new_slice then butlast new_slice else new_slice)
            in (seek_sequence original_lines pattern' line_index (is_end_of_file chunk),
                pattern', new_slice'))
         else (found, pattern, new_slice))"

fun compute_loop ::
    "str list \<Rightarrow> str \<Rightarrow> update_file_chunk list \<Rightarrow> nat \<Rightarrow> replacement list \<Rightarrow>
     str + replacement list" where
  "compute_loop original_lines path [] line_index replacements = Ok replacements"
| "compute_loop original_lines path (chunk # chunks) line_index replacements =
     (case seek_context original_lines path chunk line_index of
        Err e \<Rightarrow> Err e
      | Ok line_index \<Rightarrow>
          if old_lines chunk = [] then
            compute_loop original_lines path chunks line_index
              (replacements @ [(insertion_index original_lines, 0, new_lines chunk)])
          else
            (case find_old_lines original_lines chunk line_index of
               (Some start_idx, pattern, new_slice) \<Rightarrow>
                 compute_loop original_lines path chunks (start_idx + length pattern)
                   (replacements @ [(start_idx, length pattern, new_slice)])
             | (None, _) \<Rightarrow> Err (msg_no_lines_found path (old_lines chunk))))"

definition compute_replacements ::
    "str list \<Rightarrow> str \<Rightarrow> update_file_chunk list \<Rightarrow> str + replacement list" where
  "compute_replacements original_lines path chunks =
     (case compute_loop original_lines path chunks 0 [] of
        Err e \<Rightarrow> Err e
      | Ok replacements \<Rightarrow> Ok (sort_key fst replacements))"

fun remove_lines :: "nat \<Rightarrow> nat \<Rightarrow> str list \<Rightarrow> str list" where
  "remove_lines start_idx 0 lines = lines"
| "remove_lines start_idx (Suc n) lines =
     remove_lines start_idx n
       (if start_idx < length lines then take start_idx lines @ drop (Suc start_idx) lines
        else lines)"

text \<open>\<open>Vec::insert\<close> panics beyond the end.\<close>

definition insert_at :: "nat \<Rightarrow> str \<Rightarrow> str list \<Rightarrow> str list option" where
  "insert_at i x lines = (if i \<le> length lines then Some (take i lines @ x # drop i lines) else None)"

fun insert_lines :: "nat \<Rightarrow> str list \<Rightarrow> str list \<Rightarrow> str list option" where
  "insert_lines i [] lines = Some lines"
| "insert_lines i (new_line # new_segment) lines =
     (case insert_at i new_line lines of
        None \<Rightarrow> None | Some lines' \<Rightarrow> insert_lines (Suc i) new_segment lines')"

fun apply_reversed :: "str list \<Rightarrow> replacement list \<Rightarrow> str list option" where
  "apply_reversed lines [] = Some lines"
| "apply_reversed lines ((start_idx, old_len, new_segment) # rs) =
     (case insert_lines start_idx new_segment (remove_lines start_idx old_len lines) of
        None \<Rightarrow> None | Some lines' \<Rightarrow> apply_reversed lines' rs)"

definition apply_replacements :: "str list \<Rightarrow> replacement list \<Rightarrow> str list option" where
  "apply_replacements lines replacements = apply_reversed lines (rev replacements)"

text \<open>The lines of a file without the empty one after the final newline, and back.\<close>

definition file_lines :: "str \<Rightarrow> str list" where
  "file_lines original_contents =
     (let ls = split_char nl original_contents
      in if ends_empty ls then butlast ls else ls)"

definition lines_contents :: "str list \<Rightarrow> str" where
  "lines_contents ls =
     join_str [nl] (if \<not> ends_empty ls then ls @ [[]] else ls)"

text \<open>The inner option is a panic.\<close>

definition derive_new_contents ::
    "str \<Rightarrow> str \<Rightarrow> update_file_chunk list \<Rightarrow> str + str option" where
  "derive_new_contents path_text original_contents chunks =
     (let original_lines = file_lines original_contents in
      case compute_replacements original_lines path_text chunks of
        Err e \<Rightarrow> Err e
      | Ok replacements \<Rightarrow>
          Ok (map_option lines_contents (apply_replacements original_lines replacements)))"

lemma ends_empty_iff: "ends_empty ls \<longleftrightarrow> ls \<noteq> [] \<and> last ls = []"
  by (auto simp: ends_empty_def last_is_some_and_def)

section \<open>Removing and inserting\<close>

lemma remove_lines_take_drop:
  "start \<le> length lines \<Longrightarrow> remove_lines start n lines = take start lines @ drop (start + n) lines"
  by (induction n arbitrary: lines) (auto simp: min_def ac_simps)

lemma insert_lines_splice:
  "i \<le> length lines \<Longrightarrow> insert_lines i new lines = Some (take i lines @ new @ drop i lines)"
  by (induction new arbitrary: i lines) (auto simp: insert_at_def)

lemma apply_reversed_Cons:
  assumes "s \<le> length lines"
  shows "apply_reversed lines ((s, n, new) # rs) =
    apply_reversed (take s lines @ new @ drop (s + n) lines) rs"
  using assms by (simp add: remove_lines_take_drop insert_lines_splice min_def)

lemma apply_reversed_append:
  "apply_reversed lines (rs @ rs') =
    (case apply_reversed lines rs of None \<Rightarrow> None | Some ls \<Rightarrow> apply_reversed ls rs')"
  by (induction lines rs rule: apply_reversed.induct) (auto split: option.splits)

text \<open>Nothing panics as long as the start positions, taken in descending order, are in range.\<close>

lemma apply_reversed_total:
  "sorted (rev (map fst rs)) \<Longrightarrow> (\<And>r. r \<in> set rs \<Longrightarrow> fst r \<le> length lines) \<Longrightarrow>
   \<exists>ls. apply_reversed lines rs = Some ls"
proof (induction rs arbitrary: lines)
  case (Cons r rs)
  obtain s n new where r: "r = (s, n, new)" by (cases r)
  have "s \<le> length lines" using Cons.prems(2) [of r] r by simp
  moreover have "\<exists>ls. apply_reversed (take s lines @ new @ drop (s + n) lines) rs = Some ls"
  proof (rule Cons.IH)
    show "sorted (rev (map fst rs))" using Cons.prems(1) by (simp add: sorted_append)
    fix q assume "q \<in> set rs"
    then have "fst q \<le> s" using Cons.prems(1) r by (auto simp: sorted_append)
    with \<open>s \<le> length lines\<close> show "fst q \<le> length (take s lines @ new @ drop (s + n) lines)" by simp
  qed
  ultimately show ?case by (simp only: r apply_reversed_Cons)
qed simp

lemma apply_replacements_total:
  "sorted (map fst rs) \<Longrightarrow> \<forall>r \<in> set rs. fst r \<le> length lines \<Longrightarrow>
   \<exists>ls. apply_replacements lines rs = Some ls"
  unfolding apply_replacements_def by (rule apply_reversed_total) (auto simp: rev_map)

section \<open>Replacements in order are spliced\<close>

text \<open>The reference: walk through the lines once; \<open>pos\<close> is the index of the first of them.\<close>

fun splice_lines :: "nat \<Rightarrow> str list \<Rightarrow> replacement list \<Rightarrow> str list" where
  "splice_lines pos lines [] = lines"
| "splice_lines pos lines ((s, n, new) # rs) =
     take (s - pos) lines @ new @ splice_lines (s + n) (drop (s + n - pos) lines) rs"

fun in_order :: "nat \<Rightarrow> nat \<Rightarrow> replacement list \<Rightarrow> bool" where
  "in_order pos len [] = (pos \<le> len)"
| "in_order pos len ((s, n, new) # rs) = (pos \<le> s \<and> in_order (s + n) len rs)"

lemma in_order_le: "in_order pos len rs \<Longrightarrow> pos \<le> len"
  by (induction pos len rs rule: in_order.induct) auto

lemma in_order_sorted: "in_order pos len rs \<Longrightarrow> sorted (map fst rs) \<and> (\<forall>r \<in> set rs. pos \<le> fst r)"
  by (induction pos len rs rule: in_order.induct) fastforce+

lemma apply_reversed_splice:
  "in_order (length pre) (length pre + length lines) rs \<Longrightarrow>
   apply_reversed (pre @ lines) (rev rs) = Some (pre @ splice_lines (length pre) lines rs)"
proof (induction rs arbitrary: pre lines)
  case (Cons r rs)
  obtain s n new where r: "r = (s, n, new)" by (cases r)
  let ?k = "s + n - length pre"
  have le: "length pre \<le> s" "in_order (s + n) (length pre + length lines) rs"
    using Cons.prems r by auto
  then have k: "?k \<le> length lines" using in_order_le by fastforce
  have len: "length (pre @ take ?k lines) = s + n" using le k by simp
  have "apply_reversed ((pre @ take ?k lines) @ drop ?k lines) (rev rs) =
      Some ((pre @ take ?k lines) @ splice_lines (length (pre @ take ?k lines)) (drop ?k lines) rs)"
    using le k by (intro Cons.IH) (simp add: add.commute)
  then have "apply_reversed (pre @ lines) (rev rs) =
      Some (pre @ take ?k lines @ splice_lines (s + n) (drop ?k lines) rs)"
    unfolding len by simp
  moreover have "min (s - length pre) ?k = s - length pre" "s + n - (length pre + ?k) = 0"
    using le by auto
  ultimately show ?case
    using le k len by (simp add: r apply_reversed_append apply_reversed_Cons
        del: apply_reversed.simps(2))
qed simp

lemma apply_replacements_splice:
  "in_order 0 (length lines) rs \<Longrightarrow> apply_replacements lines rs = Some (splice_lines 0 lines rs)"
  using apply_reversed_splice [of "[]" lines rs] by (simp add: apply_replacements_def)

section \<open>What the computed replacements are\<close>

lemma compute_loop_acc:
  "compute_loop ls path cs i acc =
    (case compute_loop ls path cs i [] of Err e \<Rightarrow> Err e | Ok rs \<Rightarrow> Ok (acc @ rs))"
proof (induction cs arbitrary: i acc)
  case (Cons c cs)
  note IH = Cons.IH [of _ "acc @ _"] Cons.IH [of _ "[_]"]
  show ?case
    by (cases "seek_context ls path c i"; cases "find_old_lines ls c (projr (seek_context ls path c i))";
        cases "fst (find_old_lines ls c (projr (seek_context ls path c i)))")
       (simp_all add: IH split: sum.split)
qed simp

lemma seek_context_Ok:
  assumes "seek_context ls path c i = Ok j" "i \<le> length ls"
  shows "i \<le> j" "j \<le> length ls"
    and "change_context c = Some ctx \<Longrightarrow> i < j \<and> normalise (ls ! (j - 1)) = normalise ctx"
  using assms seek_sequence_SomeD [of ls "[ctx]" i False]
    seek_sequence_ge [of ls "[the (change_context c)]" i]
    seek_sequence_bound [of ls "[the (change_context c)]" i False]
  by (auto simp: seek_context_def window_matches_iff split: option.splits)

lemma find_old_lines_seek:
  "find_old_lines ls c i = (Some s, pattern, new) \<Longrightarrow>
   seek_sequence ls pattern i (is_end_of_file c) = Some s"
  by (auto simp: find_old_lines_def Let_def split: if_splits)

lemma find_old_lines_bound:
  assumes "find_old_lines ls c i = (Some s, pattern, new)" "i \<le> length ls"
  shows "s + length pattern \<le> length ls"
  using find_old_lines_seek [OF assms(1)] seek_sequence_bound assms(2)
  by (cases "pattern = []") auto

lemma find_old_lines_ge:
  assumes "find_old_lines ls c i = (Some s, pattern, new)" "\<not> is_end_of_file c"
  shows "i \<le> s"
  using find_old_lines_seek [OF assms(1)] seek_sequence_ge assms(2) by simp

lemma insertion_index_le: "insertion_index ls \<le> length ls"
  by (simp add: insertion_index_def)

lemma compute_loop_bounds:
  "compute_loop ls path cs i [] = Ok rs \<Longrightarrow> i \<le> length ls \<Longrightarrow> (s, n, new) \<in> set rs \<Longrightarrow>
   s + n \<le> length ls"
proof (induction cs arbitrary: i rs)
  case (Cons c cs)
  from Cons.prems(1) obtain j where j: "seek_context ls path c i = Ok j"
    by (auto split: sum.splits)
  note jl = seek_context_Ok(2) [OF j Cons.prems(2)]
  show ?case
  proof (cases "old_lines c = []")
    case True
    then obtain rs' where "compute_loop ls path cs j [] = Ok rs'"
        "rs = (insertion_index ls, 0, new_lines c) # rs'"
      using Cons.prems(1) j compute_loop_acc [of ls path cs j "[_]"] by (auto split: sum.splits)
    then show ?thesis using Cons.IH jl Cons.prems(3) insertion_index_le by auto
  next
    case False
    obtain q pattern new' where f: "find_old_lines ls c j = (q, pattern, new')"
      by (cases "find_old_lines ls c j")
    with Cons.prems(1) j False obtain s' where q: "q = Some s'" by (cases q) auto
    then obtain rs' where "compute_loop ls path cs (s' + length pattern) [] = Ok rs'"
        "rs = (s', length pattern, new') # rs'"
      using Cons.prems(1) j f False compute_loop_acc [of ls path cs _ "[_]"]
      by (auto split: sum.splits)
    then show ?thesis
      using Cons.IH find_old_lines_bound [OF f [unfolded q] jl] Cons.prems(3) by auto
  qed
qed simp

lemma compute_replacements_bounds:
  assumes "compute_replacements ls path cs = Ok rs"
  shows "sorted (map fst rs) \<and> (\<forall>(s, n, new) \<in> set rs. s + n \<le> length ls)"
  using assms compute_loop_bounds [of ls path cs 0]
  by (auto simp: compute_replacements_def split: sum.splits)

lemma compute_apply_total:
  assumes "compute_replacements ls path cs = Ok rs"
  shows "\<exists>out. apply_replacements ls rs = Some out"
  using compute_replacements_bounds [OF assms] by (intro apply_replacements_total) fastforce+

section \<open>The edit a list of chunks describes\<close>

text \<open>Two lines agree when the most lenient comparison of the search does not tell them apart.\<close>

definition agree :: "str \<Rightarrow> str \<Rightarrow> bool" where
  "agree a b \<longleftrightarrow> normalise a = normalise b"

text \<open>
  What a chunk with old lines may do to a block of lines: the block agrees with the old
  lines and the new ones take its place, or both without their final empty line.
\<close>

definition chunk_rewrites :: "update_file_chunk \<Rightarrow> str list \<Rightarrow> str list \<Rightarrow> bool" where
  "chunk_rewrites c block new \<longleftrightarrow>
     list_all2 agree block (old_lines c) \<and> new = new_lines c \<or>
     ends_empty (old_lines c) \<and> list_all2 agree block (butlast (old_lines c)) \<and>
     new = (if ends_empty (new_lines c) then butlast (new_lines c) else new_lines c)"

text \<open>Lines are kept, up to and including the context line; then a block is rewritten.\<close>

inductive edited :: "str list \<Rightarrow> update_file_chunk list \<Rightarrow> str list \<Rightarrow> bool" where
  edited_done: "edited ls [] ls"
| edited_chunk: "chunk_rewrites c block new \<Longrightarrow>
    (\<And>ctx. change_context c = Some ctx \<Longrightarrow> \<exists>l \<in> set kept. agree l ctx) \<Longrightarrow>
    edited rest cs out \<Longrightarrow> edited (kept @ block @ rest) (c # cs) (kept @ new @ out)"

inductive_cases edited_NilE: "edited ls [] out"
inductive_cases edited_ConsE: "edited ls (c # cs) out"

lemma list_all2_agree:
  assumes "i + length p \<le> length ls" "window_matches normalise ls p i"
  shows "list_all2 agree (take (length p) (drop i ls)) p"
  using assms by (auto simp: list_all2_conv_all_nth agree_def window_matches_iff)

lemma find_old_lines_rewrites:
  assumes f: "find_old_lines ls c i = (Some s, pattern, new)" and i: "i \<le> length ls"
    and old: "old_lines c \<noteq> []"
  shows "chunk_rewrites c (take (length pattern) (drop s ls)) new"
proof (cases "pattern = []")
  case True
  with f old have "ends_empty (old_lines c)" "butlast (old_lines c) = []"
      "new = (if ends_empty (new_lines c) then butlast (new_lines c) else new_lines c)"
    by (auto simp: find_old_lines_def Let_def split: if_splits)
  with True show ?thesis by (simp add: chunk_rewrites_def)
next
  case False
  from list_all2_agree [OF find_old_lines_bound [OF f i]
      seek_sequence_SomeD(3) [OF find_old_lines_seek [OF f] False]]
  show ?thesis using f
    by (auto simp: chunk_rewrites_def find_old_lines_def Let_def split: if_splits)
qed

text \<open>Chunks that look forward from the previous one: they have old lines, not tied to the end.\<close>

definition forward_chunk :: "update_file_chunk \<Rightarrow> bool" where
  "forward_chunk c \<longleftrightarrow> old_lines c \<noteq> [] \<and> \<not> is_end_of_file c"

lemma compute_loop_forward:
  "compute_loop ls path cs i [] = Ok rs \<Longrightarrow> i \<le> length ls \<Longrightarrow> list_all forward_chunk cs \<Longrightarrow>
   in_order i (length ls) rs \<and> edited (drop i ls) cs (splice_lines i (drop i ls) rs)"
proof (induction cs arbitrary: i rs)
  case Nil
  then show ?case by (simp add: edited_done)
next
  case (Cons c cs)
  from Cons.prems(3) have c: "old_lines c \<noteq> []" "\<not> is_end_of_file c" "list_all forward_chunk cs"
    by (simp_all add: forward_chunk_def [of c])
  from Cons.prems(1) obtain j where j: "seek_context ls path c i = Ok j"
    by (auto split: sum.splits)
  note jl = seek_context_Ok [OF j Cons.prems(2)]
  obtain q pattern new where f: "find_old_lines ls c j = (q, pattern, new)"
    by (cases "find_old_lines ls c j")
  with Cons.prems(1) j c obtain s where q: "q = Some s" by (cases q) auto
  then obtain rs' where loop: "compute_loop ls path cs (s + length pattern) [] = Ok rs'"
      "rs = (s, length pattern, new) # rs'"
    using Cons.prems(1) j f c compute_loop_acc [of ls path cs _ "[_]"] by (auto split: sum.splits)
  note f = f [unfolded q]
  have le: "j \<le> s" "s + length pattern \<le> length ls"
    using find_old_lines_ge [OF f] find_old_lines_bound [OF f jl(2)] c by auto
  note IH = Cons.IH [OF loop(1) le(2) c(3)]
  let ?kept = "take (s - i) (drop i ls)" and ?block = "take (length pattern) (drop s ls)"
    and ?rest = "drop (s + length pattern) ls"
  have "edited (?kept @ ?block @ ?rest) (c # cs)
      (?kept @ new @ splice_lines (s + length pattern) ?rest rs')"
  proof (rule edited_chunk [OF find_old_lines_rewrites [OF f jl(2) c(1)]])
    fix ctx assume "change_context c = Some ctx"
    then have "i < j" "agree (ls ! (j - 1)) ctx" using jl(3) by (auto simp: agree_def)
    moreover have "ls ! (j - 1) = ?kept ! (j - 1 - i)" "j - 1 - i < length ?kept"
      using \<open>i < j\<close> le jl(2) by auto
    ultimately show "\<exists>l \<in> set ?kept. agree l ctx" by (metis nth_mem)
  qed (use IH in blast)
  moreover have "?kept @ ?block @ ?rest = drop i ls"
    using le jl(1) by (metis (no_types, lifting) add.commute append_take_drop_id drop_drop le_add_diff_inverse le_trans)
  moreover have "splice_lines i (drop i ls) rs =
      ?kept @ new @ splice_lines (s + length pattern) ?rest rs'"
    using le jl(1) by (simp add: loop(2))
  ultimately show ?case using IH le jl(1) by (simp add: loop(2))
qed

lemma compute_replacements_forward:
  assumes "compute_replacements ls path cs = Ok rs" "list_all forward_chunk cs"
  shows "in_order 0 (length ls) rs \<and> edited ls cs (splice_lines 0 ls rs)"
proof -
  from assms(1) obtain rs' where loop: "compute_loop ls path cs 0 [] = Ok rs'"
    and rs: "rs = sort_key fst rs'"
    by (auto simp: compute_replacements_def split: sum.splits)
  note fwd = compute_loop_forward [OF loop _ assms(2)]
  then have "sorted (map fst rs')" using in_order_sorted by blast
  then show ?thesis using fwd by (simp add: rs sort_key_id_if_sorted)
qed

section \<open>Contents and lines\<close>

lemma lines_contents_terminated: "lines_contents ls = [] \<or> last (lines_contents ls) = nl"
proof -
  let ?ls = "if \<not> ends_empty ls then ls @ [[]] else ls"
  have "?ls \<noteq> []" "last ?ls = []" by (auto simp: ends_empty_iff)
  then obtain ys where "?ls = ys @ [[]]" by (metis append_butlast_last_id)
  then show ?thesis unfolding lines_contents_def
    by (cases "ys = []") (simp_all add: join_str_snoc)
qed

text \<open>A file that ends in a newline, but not in an empty line, survives the way to lines and back.\<close>

lemma file_lines_roundtrip:
  assumes "ls = [] \<or> last ls \<noteq> []" "\<forall>l \<in> set ls. nl \<notin> set l"
  shows "file_lines (lines_contents ls) = ls"
proof -
  have "split_char nl (lines_contents ls) = ls @ [[]]"
    using assms by (simp add: lines_contents_def ends_empty_iff split_join)
  then show ?thesis by (simp add: file_lines_def ends_empty_iff)
qed

section \<open>A chunk that occurs verbatim\<close>

lemma seek_first_exact:
  assumes "ls = pre @ old @ post" "old \<noteq> []"
    and "\<forall>j < length pre. take (length old) (drop j ls) \<noteq> old"
  shows "seek_sequence ls old 0 False = Some (length pre)"
  using assms by (intro seek_sequence_exact) (auto simp: set_search_range slice_matches_def)

lemma derive_exact_chunk:
  assumes "file_lines contents = pre @ old @ post" "old \<noteq> []"
    and "\<forall>j < length pre. take (length old) (drop j (pre @ old @ post)) \<noteq> old"
  shows "derive_new_contents path contents
      [\<lparr> change_context = None, old_lines = old, new_lines = new, is_end_of_file = False \<rparr>] =
    Ok (Some (lines_contents (pre @ new @ post)))"
  using assms seek_first_exact [OF refl assms(2,3)]
  by (simp add: derive_new_contents_def compute_replacements_def seek_context_def
      find_old_lines_def apply_replacements_splice Let_def)

section \<open>Properties\<close>

lemmas derive_eval = derive_new_contents_def compute_replacements_def seek_context_def
  find_old_lines_def insertion_index_def apply_replacements_def insert_at_def file_lines_def
  lines_contents_def ends_empty_iff seek_eval

text \<open>
  C34. Computing the new contents of a file never panics, and what it produces is empty or
  ends in a newline.
\<close>

theorem derive_new_contents_total:
  assumes "derive_new_contents path contents chunks = Ok r"
  shows "\<exists>out. r = Some out \<and> (out = [] \<or> last out = nl)"
proof -
  let ?ls = "file_lines contents"
  from assms obtain rs where rs: "compute_replacements ?ls path chunks = Ok rs"
    and r: "r = map_option lines_contents (apply_replacements ?ls rs)"
    by (auto simp: derive_new_contents_def Let_def split: sum.splits)
  from compute_apply_total [OF rs] obtain out where "apply_replacements ?ls rs = Some out" ..
  with lines_contents_terminated [of out] show ?thesis by (simp add: r)
qed

definition sample_chunk :: update_file_chunk where
  "sample_chunk = \<lparr> change_context = None, old_lines = [lit ''x''], new_lines = [lit ''y''],
     is_end_of_file = False \<rparr>"

theorem derive_new_contents_total_witness:
  "derive_new_contents (lit ''f'') (lit ''x'') [sample_chunk] = Ok (Some (lit ''y'' @ [nl])) \<and>
   last (lit ''y'' @ [nl]) = nl"
proof -
  have ok: "derive_new_contents (lit ''f'') (lit ''x'') [sample_chunk] =
      Ok (Some (lit ''y'' @ [nl]))"
    by (simp add: sample_chunk_def derive_eval)
  with derive_new_contents_total [OF ok] show ?thesis by auto
qed

text \<open>
  C4. For chunks that have old lines and are not tied to the end of the file, the new
  contents are an edit of the old lines: the chunks rewrite blocks of lines that agree with
  their old lines, from top to bottom and without overlap, each after its context line, and
  every other line is kept as it was.
\<close>

theorem derive_new_contents_edits:
  assumes "derive_new_contents path contents chunks = Ok (Some out)"
    and "list_all forward_chunk chunks"
  shows "\<exists>ls. edited (file_lines contents) chunks ls \<and> out = lines_contents ls"
  using assms compute_replacements_forward [OF _ assms(2)]
  by (auto simp: derive_new_contents_def apply_replacements_splice Let_def split: sum.splits)

theorem derive_new_contents_edits_witness:
  "\<exists>ls. edited [lit ''a'', lit ''x'', lit ''b''] [sample_chunk] ls \<and>
     lit ''a'' @ [nl] @ lit ''y'' @ [nl] @ lit ''b'' @ [nl] = lines_contents ls"
proof -
  let ?t = "lit ''a'' @ [nl] @ lit ''x'' @ [nl] @ lit ''b'' @ [nl]"
  have "derive_new_contents [] ?t [sample_chunk] =
      Ok (Some (lit ''a'' @ [nl] @ lit ''y'' @ [nl] @ lit ''b'' @ [nl]))"
    by (simp add: sample_chunk_def derive_eval)
  from derive_new_contents_edits [OF this]
  show ?thesis by (simp add: forward_chunk_def sample_chunk_def file_lines_def lit_def ends_empty_iff)
qed

text \<open>
  A chunk whose old lines occur verbatim is applied: the first occurrence is replaced by
  the new lines, and nothing else changes.
\<close>

theorem derive_new_contents_exact:
  assumes "file_lines contents = pre @ old @ post" "old \<noteq> []"
    and "\<forall>j < length pre. take (length old) (drop j (pre @ old @ post)) \<noteq> old"
  shows "derive_new_contents path contents
      [\<lparr> change_context = None, old_lines = old, new_lines = new, is_end_of_file = False \<rparr>] =
    Ok (Some (lines_contents (pre @ new @ post)))"
  by (rule derive_exact_chunk [OF assms])

theorem derive_new_contents_exact_witness:
  "derive_new_contents (lit ''f'') (lit ''x '' @ [nl] @ lit ''x'') [sample_chunk] =
    Ok (Some (lines_contents [lit ''x '', lit ''y'']))"
  using derive_new_contents_exact [of "lit ''x '' @ [nl] @ lit ''x''" "[lit ''x '']" "[lit ''x'']" "[]"
      "lit ''f''" "[lit ''y'']"]
  by (simp add: sample_chunk_def file_lines_def ends_empty_iff lit_def)

text \<open>
  Applying replacements from the last to the first, with removals and insertions at
  indices, is the same as one pass over the lines, for replacements that are in order and do
  not overlap.
\<close>

theorem apply_replacements_is_splice:
  assumes "in_order 0 (length lines) rs"
  shows "apply_replacements lines rs = Some (splice_lines 0 lines rs)"
  by (rule apply_replacements_splice [OF assms])

theorem apply_replacements_is_splice_witness:
  "apply_replacements [lit ''a'', lit ''b'', lit ''c'']
     [(0, 1, [lit ''x'', lit ''y'']), (2, 1, []), (3, 0, [lit ''z''])] =
   Some [lit ''x'', lit ''y'', lit ''b'', lit ''z'']"
  using apply_replacements_is_splice [of "[lit ''a'', lit ''b'', lit ''c'']"
      "[(0, 1, [lit ''x'', lit ''y'']), (2, 1, []), (3, 0, [lit ''z''])]"] by simp

text \<open>
  Two limits of the code.  A blank last line is taken for the final newline and dropped,
  although no chunk mentions it; and an added line whose insertion point lies in a block that
  another chunk rewrites is lost.
\<close>

lemma blank_last_line_dropped:
  "derive_new_contents (lit ''f'') (lit ''x'' @ [nl] @ lit ''a'' @ [nl, nl]) [sample_chunk] =
    Ok (Some (lit ''y'' @ [nl] @ lit ''a'' @ [nl]))"
  by (simp add: sample_chunk_def derive_eval)

lemma added_line_lost:
  "derive_new_contents (lit ''f'') (lit ''a'' @ [nl, nl])
     [\<lparr> change_context = None, old_lines = [lit ''a'', []], new_lines = [lit ''b'', []],
        is_end_of_file = False \<rparr>,
      \<lparr> change_context = None, old_lines = [], new_lines = [lit ''c''],
        is_end_of_file = False \<rparr>] =
    Ok (Some (lit ''b'' @ [nl, nl]))"
  by (simp add: derive_eval)

end
