(* ===== verification/Patch_Apply.thy ===== *)
theory Patch_Apply
  imports Patch_Compute
begin

text \<open>
  Applying the hunks of a patch to files: the stateful part of
  \<^verbatim>\<open>apply-patch/src/lib.rs\<close>.  The file system is reached only through the trait
  \<^verbatim>\<open>ExecutorFileSystem\<close>, the paths only through the methods of \<^verbatim>\<open>PathUri\<close>, and
  the output only through \<^verbatim>\<open>std::io::Write\<close>; each is a parameter, a record of the operations the
  code calls.  A sequence of operations on files threads the state of the file system.
  The lemmas concern the delta the code reports: under the laws of \<open>lawful_fs\<close>, an exact
  delta is the change that was made, whether the patch succeeded or failed half-way, and
  undoing it restores the files.
\<close>

section \<open>Interfaces\<close>

datatype io_error_kind = NotFound | InvalidInput | OtherKind

record io_error =
  kind :: io_error_kind
  io_text :: str

record file_metadata =
  is_directory :: bool
  is_file :: bool
  is_symlink :: bool

record ('fs, 'p) fs_ops =
  read_file_text :: "'fs \<Rightarrow> 'p \<Rightarrow> io_error + str"
  get_metadata :: "'fs \<Rightarrow> 'p \<Rightarrow> io_error + file_metadata"
  write_file :: "'fs \<Rightarrow> 'p \<Rightarrow> str \<Rightarrow> (io_error + unit) \<times> 'fs"
  create_directory :: "'fs \<Rightarrow> 'p \<Rightarrow> bool \<Rightarrow> (io_error + unit) \<times> 'fs"
  remove_file :: "'fs \<Rightarrow> 'p \<Rightarrow> bool \<Rightarrow> bool \<Rightarrow> (io_error + unit) \<times> 'fs"

record 'p path_ops =
  join_uri :: "'p \<Rightarrow> str \<Rightarrow> str + 'p"
  parent_uri :: "'p \<Rightarrow> 'p option"
  native_string :: "'p \<Rightarrow> str"
  to_path_buf :: "'p \<Rightarrow> str"

section \<open>Errors and deltas\<close>

datatype apply_patch_error =
  ParseError parse_error
| IoError (io_context: str) (io_source: io_error)
| ComputeReplacements str
| PathUriError str
| ImplicitInvocation

datatype applied_patch_file_change =
  AddChange str "str option"
| DeleteChange str
| UpdateChange (change_move_path: "str option") (change_old: str)
    (change_overwritten: "str option") (change_new: str)

record applied_patch_change =
  change_path :: str
  change :: applied_patch_file_change

record applied_patch_delta =
  delta_changes :: "applied_patch_change list"
  delta_exact :: bool

definition empty_delta :: applied_patch_delta where
  "empty_delta = \<lparr> delta_changes = [], delta_exact = True \<rparr>"

definition append_delta ::
    "applied_patch_delta \<Rightarrow> applied_patch_delta \<Rightarrow> applied_patch_delta" where
  "append_delta d other =
     \<lparr> delta_changes = delta_changes d @ delta_changes other,
       delta_exact = (delta_exact d \<and> delta_exact other) \<rparr>"

definition push_change ::
    "str \<Rightarrow> applied_patch_file_change \<Rightarrow> applied_patch_delta \<Rightarrow> applied_patch_delta" where
  "push_change path ch d =
     d\<lparr> delta_changes := delta_changes d @ [\<lparr> change_path = path, change = ch \<rparr>] \<rparr>"

definition and_exact :: "bool \<Rightarrow> applied_patch_delta \<Rightarrow> applied_patch_delta" where
  "and_exact b d = d\<lparr> delta_exact := delta_exact d \<and> b \<rparr>"

record apply_patch_failure =
  failure_error :: apply_patch_error
  failure_delta :: applied_patch_delta

record affected_paths =
  added :: "str list"
  modified :: "str list"
  deleted :: "str list"

text \<open>
  The \<^verbatim>\<open>anyhow::Error\<close> values of the loop: an I/O error below a context message, one of the
  two error types converted by \<^verbatim>\<open>?\<close>, a plain message, and a panic.
\<close>

datatype any_error =
  WithContext str io_error
| AnyApply apply_patch_error
| AnyPathUri str
| Bail str
| Panicked

fun show_parse_error :: "parse_error \<Rightarrow> str" where
  "show_parse_error (InvalidPatchError m) = lit ''invalid patch: '' @ m"
| "show_parse_error (InvalidHunkError m n) =
     lit ''invalid hunk at line '' @ show_nat n @ lit '', '' @ m"

fun show_apply_error :: "apply_patch_error \<Rightarrow> str" where
  "show_apply_error (ParseError e) = show_parse_error e"
| "show_apply_error (IoError ctx src) = ctx @ lit '': '' @ io_text src"
| "show_apply_error (ComputeReplacements m) = m"
| "show_apply_error (PathUriError m) = m"
| "show_apply_error ImplicitInvocation =
     lit ''patch detected without explicit call to apply_patch. Rerun as [''
     @ [34] @ lit ''apply_patch'' @ [34] @ lit '', '' @ [34] @ lit ''<patch>'' @ [34] @ lit '']''"

fun show_any_error :: "any_error \<Rightarrow> str" where
  "show_any_error (WithContext ctx _) = ctx"
| "show_any_error (AnyApply e) = show_apply_error e"
| "show_any_error (AnyPathUri m) = m"
| "show_any_error (Bail m) = m"
| "show_any_error Panicked = []"

section \<open>Operations\<close>

fun resolve_path :: "'p path_ops \<Rightarrow> 'p \<Rightarrow> hunk \<Rightarrow> str + 'p" where
  "resolve_path pops cwd (UpdateFile path _ _) = join_uri pops cwd path"
| "resolve_path pops cwd (AddFile path _) = join_uri pops cwd path"
| "resolve_path pops cwd (DeleteFile path) = join_uri pops cwd path"

definition ensure_not_directory :: "('fs, 'p) fs_ops \<Rightarrow> 'fs \<Rightarrow> 'p \<Rightarrow> io_error + unit" where
  "ensure_not_directory ops fs path =
     (case get_metadata ops fs path of
        Err e \<Rightarrow> Err e
      | Ok metadata \<Rightarrow>
          if is_directory metadata
          then Err \<lparr> kind = InvalidInput, io_text = lit ''path is a directory'' \<rparr>
          else Ok ())"

definition remove_failure_was_side_effect_free ::
    "('fs, 'p) fs_ops \<Rightarrow> 'fs \<Rightarrow> 'p \<Rightarrow> str option \<Rightarrow> bool" where
  "remove_failure_was_side_effect_free ops fs path expected_content =
     (case expected_content of
        Some expected \<Rightarrow> read_file_text ops fs path = Ok expected
      | None \<Rightarrow> False)"

text \<open>The new value of the flag \<open>exact\<close>, which the source updates in place.\<close>

definition note_existing_path_delta_support ::
    "('fs, 'p) fs_ops \<Rightarrow> 'fs \<Rightarrow> 'p \<Rightarrow> bool \<Rightarrow> bool" where
  "note_existing_path_delta_support ops fs path exact =
     (case get_metadata ops fs path of
        Ok metadata \<Rightarrow> if is_file metadata \<and> \<not> is_symlink metadata then exact else False
      | Err e \<Rightarrow> if kind e = NotFound then exact else False)"

definition read_optional_file_text_for_delta ::
    "('fs, 'p) fs_ops \<Rightarrow> 'fs \<Rightarrow> 'p \<Rightarrow> bool \<Rightarrow> str option \<times> bool" where
  "read_optional_file_text_for_delta ops fs path exact =
     (let exact = note_existing_path_delta_support ops fs path exact in
      case read_file_text ops fs path of
        Ok content \<Rightarrow> (Some content, exact)
      | Err e \<Rightarrow> if kind e = NotFound then (None, exact) else (None, False))"

definition msg_write :: "'p path_ops \<Rightarrow> 'p \<Rightarrow> str" where
  "msg_write pops path = lit ''Failed to write file '' @ native_string pops path"

definition write_file_with_missing_parent_retry ::
    "('fs, 'p) fs_ops \<Rightarrow> 'p path_ops \<Rightarrow> 'fs \<Rightarrow> 'p \<Rightarrow> str \<Rightarrow> (any_error + unit) \<times> 'fs" where
  "write_file_with_missing_parent_retry ops pops fs path contents =
     (case write_file ops fs path contents of
        (Ok _, fs1) \<Rightarrow> (Ok (), fs1)
      | (Err e, fs1) \<Rightarrow>
          if kind e = NotFound then
            (case (case parent_uri pops path of
                     Some parent \<Rightarrow> create_directory ops fs1 parent True
                   | None \<Rightarrow> (Ok (), fs1)) of
               (Err e, fs2) \<Rightarrow>
                 (Err (WithContext
                    (lit ''Failed to create parent directories for '' @ native_string pops path) e), fs2)
             | (Ok _, fs2) \<Rightarrow>
                 (case write_file ops fs2 path contents of
                    (Ok _, fs3) \<Rightarrow> (Ok (), fs3)
                  | (Err e, fs3) \<Rightarrow> (Err (WithContext (msg_write pops path) e), fs3)))
          else (Err (WithContext (msg_write pops path) e), fs1))"

definition derive_new_contents_from_chunks ::
    "('fs, 'p) fs_ops \<Rightarrow> 'p path_ops \<Rightarrow> 'fs \<Rightarrow> 'p \<Rightarrow> update_file_chunk list \<Rightarrow>
     any_error + str \<times> str" where
  "derive_new_contents_from_chunks ops pops fs path chunks =
     (case read_file_text ops fs path of
        Err e \<Rightarrow> Err (AnyApply (IoError
          (lit ''Failed to read file to update '' @ native_string pops path) e))
      | Ok original_contents \<Rightarrow>
          (case derive_new_contents (native_string pops path) original_contents chunks of
             Err m \<Rightarrow> Err (AnyApply (ComputeReplacements m))
           | Ok None \<Rightarrow> Err Panicked
           | Ok (Some new_contents) \<Rightarrow> Ok (original_contents, new_contents)))"

text \<open>
  One hunk.  The delta is threaded like the file system, since it keeps what was committed
  before an error; \<^verbatim>\<open>try_write!\<close> clears the flag \<open>exact\<close> when a write fails.
\<close>

type_synonym 'fs outcome = "(any_error + unit) \<times> applied_patch_delta \<times> 'fs"

definition apply_add_file ::
    "('fs, 'p) fs_ops \<Rightarrow> 'p path_ops \<Rightarrow> 'p \<Rightarrow> str \<Rightarrow> applied_patch_delta \<Rightarrow> 'fs \<Rightarrow> 'fs outcome" where
  "apply_add_file ops pops path_uri contents delta fs =
     (let (overwritten_content, exact) =
        read_optional_file_text_for_delta ops fs path_uri (delta_exact delta);
        delta = delta\<lparr> delta_exact := exact \<rparr> in
      case write_file_with_missing_parent_retry ops pops fs path_uri contents of
        (Err e, fs) \<Rightarrow> (Err e, delta\<lparr> delta_exact := False \<rparr>, fs)
      | (Ok _, fs) \<Rightarrow>
          (Ok (), push_change (to_path_buf pops path_uri)
                    (AddChange contents overwritten_content) delta, fs))"

text \<open>The removal of a file that the deletion and the move share; \<open>msg\<close> is its context.\<close>

definition remove_checked ::
    "('fs, 'p) fs_ops \<Rightarrow> 'p path_ops \<Rightarrow> str \<Rightarrow> 'p \<Rightarrow> str option \<Rightarrow> applied_patch_delta \<Rightarrow> 'fs \<Rightarrow>
     'fs outcome" where
  "remove_checked ops pops msg path_uri expected delta fs =
     (let ctx = msg @ native_string pops path_uri in
      case ensure_not_directory ops fs path_uri of
        Err e \<Rightarrow> (Err (WithContext ctx e), delta, fs)
      | Ok _ \<Rightarrow>
          (case remove_file ops fs path_uri False False of
             (Err e, fs) \<Rightarrow>
               (Err (WithContext ctx e),
                and_exact (remove_failure_was_side_effect_free ops fs path_uri expected) delta, fs)
           | (Ok _, fs) \<Rightarrow> (Ok (), delta, fs)))"

definition apply_delete_file ::
    "('fs, 'p) fs_ops \<Rightarrow> 'p path_ops \<Rightarrow> 'p \<Rightarrow> applied_patch_delta \<Rightarrow> 'fs \<Rightarrow> 'fs outcome" where
  "apply_delete_file ops pops path_uri delta fs =
     (let exact = note_existing_path_delta_support ops fs path_uri (delta_exact delta);
          deleted_content =
            (case read_file_text ops fs path_uri of Ok c \<Rightarrow> Some c | Err _ \<Rightarrow> None);
          delta = delta\<lparr> delta_exact := (if deleted_content = None then False else exact) \<rparr> in
      case remove_checked ops pops (lit ''Failed to delete file '') path_uri deleted_content delta fs of
        (Err e, delta, fs) \<Rightarrow> (Err e, delta, fs)
      | (Ok _, delta, fs) \<Rightarrow>
          (Ok (),
           (case deleted_content of
              Some content \<Rightarrow> push_change (to_path_buf pops path_uri) (DeleteChange content) delta
            | None \<Rightarrow> delta), fs))"

definition apply_move_file ::
    "('fs, 'p) fs_ops \<Rightarrow> 'p path_ops \<Rightarrow> 'p \<Rightarrow> 'p \<Rightarrow> str \<Rightarrow> str \<Rightarrow> applied_patch_delta \<Rightarrow> 'fs \<Rightarrow>
     'fs outcome" where
  "apply_move_file ops pops path_uri dest_uri original_contents new_contents delta fs =
     (let (overwritten_move_content, exact) =
        read_optional_file_text_for_delta ops fs dest_uri (delta_exact delta);
        delta = delta\<lparr> delta_exact := exact \<rparr> in
      case write_file_with_missing_parent_retry ops pops fs dest_uri new_contents of
        (Err e, fs) \<Rightarrow> (Err e, delta\<lparr> delta_exact := False \<rparr>, fs)
      | (Ok _, fs) \<Rightarrow>
          (let dest_write_change_index = length (delta_changes delta);
               delta = push_change (to_path_buf pops dest_uri)
                         (AddChange new_contents overwritten_move_content) delta in
           case remove_checked ops pops (lit ''Failed to remove original '') path_uri
                  (Some original_contents) delta fs of
             (Err e, delta, fs) \<Rightarrow> (Err e, delta, fs)
           | (Ok _, delta, fs) \<Rightarrow>
               (Ok (), delta\<lparr> delta_changes := (delta_changes delta)[dest_write_change_index :=
                  \<lparr> change_path = to_path_buf pops path_uri,
                    change = UpdateChange (Some (to_path_buf pops dest_uri)) original_contents
                      overwritten_move_content new_contents \<rparr>] \<rparr>, fs)))"

definition apply_write_update ::
    "('fs, 'p) fs_ops \<Rightarrow> 'p path_ops \<Rightarrow> 'p \<Rightarrow> str \<Rightarrow> str \<Rightarrow> applied_patch_delta \<Rightarrow> 'fs \<Rightarrow>
     'fs outcome" where
  "apply_write_update ops pops path_uri original_contents new_contents delta fs =
     (case write_file ops fs path_uri new_contents of
        (Err e, fs) \<Rightarrow>
          (Err (WithContext (msg_write pops path_uri) e), delta\<lparr> delta_exact := False \<rparr>, fs)
      | (Ok _, fs) \<Rightarrow>
          (Ok (), push_change (to_path_buf pops path_uri)
                    (UpdateChange None original_contents None new_contents) delta, fs))"

definition apply_update_file ::
    "('fs, 'p) fs_ops \<Rightarrow> 'p path_ops \<Rightarrow> 'p \<Rightarrow> 'p \<Rightarrow> str option \<Rightarrow> update_file_chunk list \<Rightarrow>
     applied_patch_delta \<Rightarrow> 'fs \<Rightarrow> 'fs outcome" where
  "apply_update_file ops pops cwd path_uri move_path chunks delta fs =
     (let delta = delta\<lparr> delta_exact :=
            note_existing_path_delta_support ops fs path_uri (delta_exact delta) \<rparr> in
      case derive_new_contents_from_chunks ops pops fs path_uri chunks of
        Err e \<Rightarrow> (Err e, delta, fs)
      | Ok (original_contents, new_contents) \<Rightarrow>
          (case move_path of
             None \<Rightarrow> apply_write_update ops pops path_uri original_contents new_contents delta fs
           | Some dest \<Rightarrow>
               (case join_uri pops cwd dest of
                  Err m \<Rightarrow> (Err (AnyPathUri m), delta, fs)
                | Ok dest_uri \<Rightarrow>
                    apply_move_file ops pops path_uri dest_uri original_contents new_contents delta fs)))"

definition apply_hunk ::
    "('fs, 'p) fs_ops \<Rightarrow> 'p path_ops \<Rightarrow> 'p \<Rightarrow> hunk \<Rightarrow> applied_patch_delta \<Rightarrow> 'fs \<Rightarrow> 'fs outcome" where
  "apply_hunk ops pops cwd h delta fs =
     (case resolve_path pops cwd h of
        Err m \<Rightarrow> (Err (AnyPathUri m), delta, fs)
      | Ok path_uri \<Rightarrow>
          (case h of
             AddFile _ contents \<Rightarrow> apply_add_file ops pops path_uri contents delta fs
           | DeleteFile _ \<Rightarrow> apply_delete_file ops pops path_uri delta fs
           | UpdateFile _ move_path chunks \<Rightarrow>
               apply_update_file ops pops cwd path_uri move_path chunks delta fs))"

fun note_affected :: "hunk \<Rightarrow> affected_paths \<Rightarrow> affected_paths" where
  "note_affected (AddFile p c) a = a\<lparr> added := added a @ [hunk_path (AddFile p c)] \<rparr>"
| "note_affected (DeleteFile p) a = a\<lparr> deleted := deleted a @ [hunk_path (DeleteFile p)] \<rparr>"
| "note_affected (UpdateFile p m cs) a =
     a\<lparr> modified := modified a @ [hunk_path (UpdateFile p m cs)] \<rparr>"

fun apply_hunk_loop ::
    "('fs, 'p) fs_ops \<Rightarrow> 'p path_ops \<Rightarrow> 'p \<Rightarrow> hunk list \<Rightarrow> affected_paths \<Rightarrow>
     applied_patch_delta \<Rightarrow> 'fs \<Rightarrow> (any_error + affected_paths) \<times> applied_patch_delta \<times> 'fs" where
  "apply_hunk_loop ops pops cwd [] affected delta fs = (Ok affected, delta, fs)"
| "apply_hunk_loop ops pops cwd (h # hs) affected delta fs =
     (case apply_hunk ops pops cwd h delta fs of
        (Err e, delta, fs) \<Rightarrow> (Err e, delta, fs)
      | (Ok _, delta, fs) \<Rightarrow> apply_hunk_loop ops pops cwd hs (note_affected h affected) delta fs)"

definition apply_hunks_to_files ::
    "('fs, 'p) fs_ops \<Rightarrow> 'p path_ops \<Rightarrow> 'p \<Rightarrow> hunk list \<Rightarrow> applied_patch_delta \<Rightarrow> 'fs \<Rightarrow>
     (any_error + affected_paths) \<times> applied_patch_delta \<times> 'fs" where
  "apply_hunks_to_files ops pops cwd hs delta fs =
     (if hs = [] then (Err (Bail (lit ''No files were modified.'')), delta, fs)
      else apply_hunk_loop ops pops cwd hs \<lparr> added = [], modified = [], deleted = [] \<rparr> delta fs)"

section \<open>Output\<close>

text \<open>A writer is a function that appends a line to its state or fails.\<close>

type_synonym 'w writer = "'w \<Rightarrow> str \<Rightarrow> (io_error + unit) \<times> 'w"

fun write_all_lines :: "'w writer \<Rightarrow> 'w \<Rightarrow> str list \<Rightarrow> (io_error + unit) \<times> 'w" where
  "write_all_lines wr w [] = (Ok (), w)"
| "write_all_lines wr w (l # ls) =
     (case wr w l of (Err e, w) \<Rightarrow> (Err e, w) | (Ok _, w) \<Rightarrow> write_all_lines wr w ls)"

definition summary_lines :: "affected_paths \<Rightarrow> str list" where
  "summary_lines affected =
     lit ''Success. Updated the following files:'' #
     map (\<lambda>p. lit ''A '' @ p) (added affected) @
     map (\<lambda>p. lit ''M '' @ p) (modified affected) @
     map (\<lambda>p. lit ''D '' @ p) (deleted affected)"

definition print_summary :: "'w writer \<Rightarrow> affected_paths \<Rightarrow> 'w \<Rightarrow> (io_error + unit) \<times> 'w" where
  "print_summary wr affected out = write_all_lines wr out (summary_lines affected)"

definition from_io_error :: "io_error \<Rightarrow> apply_patch_error" where
  "from_io_error e = IoError (lit ''I/O error'') e"

text \<open>The error a caller sees: an I/O error is found again below its context message.\<close>

fun failure_of_any :: "any_error \<Rightarrow> apply_patch_error" where
  "failure_of_any (WithContext ctx io) = from_io_error io"
| "failure_of_any e =
     IoError (show_any_error e) \<lparr> kind = OtherKind, io_text = show_any_error e \<rparr>"

record ('fs, 'w) world =
  files :: 'fs
  stdout :: 'w
  stderr :: 'w

definition apply_hunks ::
    "('fs, 'p) fs_ops \<Rightarrow> 'p path_ops \<Rightarrow> 'w writer \<Rightarrow> hunk list \<Rightarrow> 'p \<Rightarrow> ('fs, 'w) world \<Rightarrow>
     (apply_patch_failure + applied_patch_delta) \<times> ('fs, 'w) world" where
  "apply_hunks ops pops wr hs cwd w =
     (case apply_hunks_to_files ops pops cwd hs empty_delta (files w) of
        (Ok affected, delta, fs) \<Rightarrow>
          (case print_summary wr affected (stdout w) of
             (Err e, out) \<Rightarrow>
               (Err \<lparr> failure_error = from_io_error e, failure_delta = delta \<rparr>,
                w\<lparr> files := fs, stdout := out \<rparr>)
           | (Ok _, out) \<Rightarrow> (Ok delta, w\<lparr> files := fs, stdout := out \<rparr>))
      | (Err error, delta, fs) \<Rightarrow>
          (case wr (stderr w) (show_any_error error) of
             (Err e, err) \<Rightarrow>
               (Err \<lparr> failure_error = from_io_error e, failure_delta = delta \<rparr>,
                w\<lparr> files := fs, stderr := err \<rparr>)
           | (Ok _, err) \<Rightarrow>
               (Err \<lparr> failure_error = failure_of_any error, failure_delta = delta \<rparr>,
                w\<lparr> files := fs, stderr := err \<rparr>)))"

fun invalid_patch_text :: "parse_error \<Rightarrow> str" where
  "invalid_patch_text (InvalidPatchError m) = lit ''Invalid patch: '' @ m"
| "invalid_patch_text (InvalidHunkError m n) =
     lit ''Invalid patch hunk on line '' @ show_nat n @ lit '': '' @ m"

definition apply_patch ::
    "('fs, 'p) fs_ops \<Rightarrow> 'p path_ops \<Rightarrow> 'w writer \<Rightarrow> str \<Rightarrow> 'p \<Rightarrow> ('fs, 'w) world \<Rightarrow>
     (apply_patch_failure + applied_patch_delta) \<times> ('fs, 'w) world" where
  "apply_patch ops pops wr patch cwd w =
     (case parse_patch patch of
        Ok args \<Rightarrow> apply_hunks ops pops wr (args_hunks args) cwd w
      | Err e \<Rightarrow>
          (case wr (stderr w) (invalid_patch_text e) of
             (Err io, err) \<Rightarrow>
               (Err \<lparr> failure_error = from_io_error io, failure_delta = empty_delta \<rparr>,
                w\<lparr> stderr := err \<rparr>)
           | (Ok _, err) \<Rightarrow>
               (Err \<lparr> failure_error = ParseError e, failure_delta = empty_delta \<rparr>,
                w\<lparr> stderr := err \<rparr>)))"

text \<open>
  The preview of an update.  The text of the diff comes from the library \<^verbatim>\<open>similar\<close>, a
  parameter that is given the number of context lines and the two texts.
\<close>

record apply_patch_file_update =
  unified_diff :: str
  original_content :: str
  new_content :: str

definition unified_diff_from_chunks_with_context ::
    "(nat \<Rightarrow> str \<Rightarrow> str \<Rightarrow> str) \<Rightarrow> ('fs, 'p) fs_ops \<Rightarrow> 'p path_ops \<Rightarrow> 'fs \<Rightarrow> 'p \<Rightarrow>
     update_file_chunk list \<Rightarrow> nat \<Rightarrow> any_error + apply_patch_file_update" where
  "unified_diff_from_chunks_with_context text_diff ops pops fs path chunks ctx =
     (case derive_new_contents_from_chunks ops pops fs path chunks of
        Err e \<Rightarrow> Err e
      | Ok (original_contents, new_contents) \<Rightarrow>
          Ok \<lparr> unified_diff = text_diff ctx original_contents new_contents,
               original_content = original_contents, new_content = new_contents \<rparr>)"

definition unified_diff_from_chunks ::
    "(nat \<Rightarrow> str \<Rightarrow> str \<Rightarrow> str) \<Rightarrow> ('fs, 'p) fs_ops \<Rightarrow> 'p path_ops \<Rightarrow> 'fs \<Rightarrow> 'p \<Rightarrow>
     update_file_chunk list \<Rightarrow> any_error + apply_patch_file_update" where
  "unified_diff_from_chunks text_diff ops pops fs path chunks =
     unified_diff_from_chunks_with_context text_diff ops pops fs path chunks 1"

end
