(* ===== verification/Patch_Delta.thy ===== *)
theory Patch_Delta
  imports Patch_Apply Patch_Grammar
begin

text \<open>
  What the delta reported by \<^verbatim>\<open>apply_hunks\<close> says about the files: a map from paths to
  contents is the abstract state, replaying a change is its specification, and every
  operation of \<open>Patch_Apply\<close> implements it as long as the delta stays exact.
\<close>

section \<open>Changes as functions on files\<close>

type_synonym file_map = "str \<Rightarrow> str option"

definition replay_change :: "applied_patch_change \<Rightarrow> file_map \<Rightarrow> file_map" where
  "replay_change ch m =
     (case change ch of
        AddChange content _ \<Rightarrow> m(change_path ch \<mapsto> content)
      | DeleteChange _ \<Rightarrow> m(change_path ch := None)
      | UpdateChange None _ _ new \<Rightarrow> m(change_path ch \<mapsto> new)
      | UpdateChange (Some dest) _ _ new \<Rightarrow> (m(dest \<mapsto> new))(change_path ch := None))"


text \<open>The old contents that a change carries are those of the files it was applied to.\<close>

definition recorded :: "applied_patch_change \<Rightarrow> file_map \<Rightarrow> bool" where
  "recorded ch m =
     (case change ch of
        AddChange _ overwritten \<Rightarrow> m (change_path ch) = overwritten
      | DeleteChange content \<Rightarrow> m (change_path ch) = Some content
      | UpdateChange None old _ _ \<Rightarrow> m (change_path ch) = Some old
      | UpdateChange (Some dest) old overwritten _ \<Rightarrow>
          m (change_path ch) = Some old \<and> m dest = overwritten)"

fun all_recorded :: "applied_patch_change list \<Rightarrow> file_map \<Rightarrow> bool" where
  "all_recorded [] m = True"
| "all_recorded (ch # chs) m = (recorded ch m \<and> all_recorded chs (replay_change ch m))"

definition replay :: "applied_patch_change list \<Rightarrow> file_map \<Rightarrow> file_map" where
  "replay chs m = fold replay_change chs m"


lemma replay_simps [simp]:
  "replay [] m = m" "replay (ch # chs) m = replay chs (replay_change ch m)"
  "replay (chs @ chs') m = replay chs' (replay chs m)"
  by (simp_all add: replay_def)



lemma all_recorded_append [simp]:
  "all_recorded (chs @ chs') m \<longleftrightarrow> all_recorded chs m \<and> all_recorded chs' (replay chs m)"
  by (induction chs arbitrary: m) auto

section \<open>Laws of a file system\<close>

text \<open>
  \<open>view\<close> gives the text files a state of the file system holds, by path.  Reading reports
  that text; a missing file is not found; a successful write or removal changes exactly the
  named file; a failed write may leave anything in the named file; a failed removal leaves it
  as it was or removes it; creating a directory changes no file.
\<close>

definition lawful_fs ::
    "('fs, 'p) fs_ops \<Rightarrow> 'p path_ops \<Rightarrow> ('fs \<Rightarrow> file_map) \<Rightarrow> bool" where
  "lawful_fs ops pops view \<longleftrightarrow>
     (\<forall>fs p c. read_file_text ops fs p = Ok c \<longrightarrow> view fs (to_path_buf pops p) = Some c) \<and>
     (\<forall>fs p e. read_file_text ops fs p = Err e \<longrightarrow> kind e = NotFound \<longrightarrow>
        view fs (to_path_buf pops p) = None) \<and>
     (\<forall>fs p c u fs'. write_file ops fs p c = (Ok u, fs') \<longrightarrow>
        view fs' = (view fs)(to_path_buf pops p \<mapsto> c)) \<and>
     (\<forall>fs p c e fs'. write_file ops fs p c = (Err e, fs') \<longrightarrow>
        (\<forall>q. q \<noteq> to_path_buf pops p \<longrightarrow> view fs' q = view fs q)) \<and>
     (\<forall>fs p r u fs'. create_directory ops fs p r = (u, fs') \<longrightarrow> view fs' = view fs) \<and>
     (\<forall>fs p r f u fs'. remove_file ops fs p r f = (Ok u, fs') \<longrightarrow>
        view fs' = (view fs)(to_path_buf pops p := None)) \<and>
     (\<forall>fs p r f e fs'. remove_file ops fs p r f = (Err e, fs') \<longrightarrow>
        view fs' = view fs \<or> view fs' = (view fs)(to_path_buf pops p := None))"

lemma lawful_read:
  "lawful_fs ops pops view \<Longrightarrow> read_file_text ops fs p = Ok c \<Longrightarrow>
   view fs (to_path_buf pops p) = Some c"
  by (simp add: lawful_fs_def)

lemma lawful_missing:
  "lawful_fs ops pops view \<Longrightarrow> read_file_text ops fs p = Err e \<Longrightarrow> kind e = NotFound \<Longrightarrow>
   view fs (to_path_buf pops p) = None"
  by (simp add: lawful_fs_def)

lemma lawful_write:
  "lawful_fs ops pops view \<Longrightarrow> write_file ops fs p c = (Ok u, fs') \<Longrightarrow>
   view fs' = (view fs)(to_path_buf pops p \<mapsto> c)"
  by (simp add: lawful_fs_def)

lemma lawful_write_Err:
  "lawful_fs ops pops view \<Longrightarrow> write_file ops fs p c = (Err e, fs') \<Longrightarrow>
   q \<noteq> to_path_buf pops p \<Longrightarrow> view fs' q = view fs q"
  by (simp add: lawful_fs_def)

lemma lawful_mkdir:
  "lawful_fs ops pops view \<Longrightarrow> create_directory ops fs p r = (u, fs') \<Longrightarrow> view fs' = view fs"
  by (simp add: lawful_fs_def)

lemma lawful_remove:
  "lawful_fs ops pops view \<Longrightarrow> remove_file ops fs p r f = (Ok u, fs') \<Longrightarrow>
   view fs' = (view fs)(to_path_buf pops p := None)"
  by (simp add: lawful_fs_def)

lemma lawful_remove_Err:
  "lawful_fs ops pops view \<Longrightarrow> remove_file ops fs p r f = (Err e, fs') \<Longrightarrow>
   view fs' = view fs \<or> view fs' = (view fs)(to_path_buf pops p := None)"
  by (simp add: lawful_fs_def)

section \<open>Single operations\<close>

lemma write_retry_Ok:
  assumes law: "lawful_fs ops pops view"
    and w: "write_file_with_missing_parent_retry ops pops fs p c = (Ok u, fs')"
  shows "view fs' = (view fs)(to_path_buf pops p \<mapsto> c)"
proof (cases "write_file ops fs p c")
  case (Pair r fs1)
  show ?thesis
  proof (cases r)
    case (Inr u)
    with w Pair lawful_write [OF law] show ?thesis
      by (simp add: write_file_with_missing_parent_retry_def)
  next
    case (Inl e)
    with w Pair obtain mk fs2 where mk: "(case parent_uri pops p of
        Some parent \<Rightarrow> create_directory ops fs1 parent True | None \<Rightarrow> (Ok (), fs1)) = (Ok mk, fs2)"
      and w2: "write_file ops fs2 p c = (Ok (), fs')"
      by (auto simp: write_file_with_missing_parent_retry_def
          split: if_splits prod.splits sum.splits)
    have "view fs2 = view fs1"
      using mk lawful_mkdir [OF law] by (auto split: option.splits)
    moreover have "view fs1 q = view fs q" if "q \<noteq> to_path_buf pops p" for q
      using lawful_write_Err [OF law] Pair Inl that by blast
    ultimately show ?thesis using lawful_write [OF law w2] by (auto simp: fun_eq_iff)
  qed
qed


lemma note_support_exact: "note_existing_path_delta_support ops fs p exact \<Longrightarrow> exact"
  by (auto simp: note_existing_path_delta_support_def split: sum.splits if_splits)

lemma read_optional_exact:
  assumes "lawful_fs ops pops view"
    and "read_optional_file_text_for_delta ops fs p exact = (content, exact')" "exact'"
  shows "exact \<and> view fs (to_path_buf pops p) = content"
  using assms lawful_read [OF assms(1)] lawful_missing [OF assms(1)]
  by (auto simp: read_optional_file_text_for_delta_def Let_def dest: note_support_exact
      split: sum.splits if_splits)

lemma remove_checked_Ok:
  assumes "lawful_fs ops pops view"
    and "remove_checked ops pops msg p expected d fs = (Ok u, d', fs')"
  shows "d' = d \<and> view fs' = (view fs)(to_path_buf pops p := None)"
  using assms lawful_remove [OF assms(1)]
  by (auto simp: remove_checked_def Let_def split: sum.splits prod.splits)

lemma remove_checked_Err:
  assumes law: "lawful_fs ops pops view"
    and r: "remove_checked ops pops msg p expected d fs = (Err e, d', fs')"
  shows "delta_changes d' = delta_changes d" "delta_exact d' \<Longrightarrow> delta_exact d \<and> view fs' = view fs"
proof -
  consider (unchanged) "d' = d" "fs' = fs"
    | (removal) e' where "remove_file ops fs p False False = (Err e', fs')"
        "d' = and_exact (remove_failure_was_side_effect_free ops fs' p expected) d"
    using r by (auto simp: remove_checked_def Let_def split: sum.splits prod.splits)
  note * = this
  show "delta_changes d' = delta_changes d" by (cases rule: *) (simp_all add: and_exact_def)
  assume ex: "delta_exact d'"
  show "delta_exact d \<and> view fs' = view fs"
  proof (cases rule: *)
    case removal
    with ex obtain c where "delta_exact d" "read_file_text ops fs' p = Ok c"
      by (auto simp: and_exact_def remove_failure_was_side_effect_free_def split: option.splits)
    moreover from this have "view fs' (to_path_buf pops p) \<noteq> None" using lawful_read [OF law] by simp
    ultimately show ?thesis using lawful_remove_Err [OF law removal(1)] by auto
  qed (use ex in simp)
qed

section \<open>Every hunk extends the delta faithfully\<close>

definition delta_step ::
    "('fs \<Rightarrow> file_map) \<Rightarrow> applied_patch_delta \<Rightarrow> 'fs \<Rightarrow> applied_patch_delta \<Rightarrow> 'fs \<Rightarrow> bool" where
  "delta_step view d fs d' fs' \<longleftrightarrow>
     (\<exists>chs. delta_changes d' = delta_changes d @ chs \<and>
        (delta_exact d' \<longrightarrow>
           delta_exact d \<and> all_recorded chs (view fs) \<and> view fs' = replay chs (view fs)))"

lemma delta_step_none:
  "delta_changes d' = delta_changes d \<Longrightarrow> (delta_exact d' \<Longrightarrow> delta_exact d \<and> view fs' = view fs) \<Longrightarrow>
   delta_step view d fs d' fs'"
  unfolding delta_step_def by (rule exI [of _ "[]"]) auto

lemma delta_step_one:
  "delta_changes d' = delta_changes d @ [ch] \<Longrightarrow>
   (delta_exact d' \<Longrightarrow> delta_exact d \<and> recorded ch (view fs) \<and> view fs' = replay_change ch (view fs)) \<Longrightarrow>
   delta_step view d fs d' fs'"
  unfolding delta_step_def by (rule exI [of _ "[ch]"]) auto

lemma delta_step_trans:
  assumes "delta_step view d fs d1 fs1" "delta_step view d1 fs1 d2 fs2"
  shows "delta_step view d fs d2 fs2"
proof -
  from assms obtain chs chs' where "delta_changes d2 = delta_changes d @ chs @ chs'"
    "delta_exact d2 \<longrightarrow> delta_exact d \<and> all_recorded (chs @ chs') (view fs) \<and>
       view fs2 = replay (chs @ chs') (view fs)"
    by (auto simp: delta_step_def)
  then show ?thesis unfolding delta_step_def by blast
qed

lemmas change_defs = push_change_def recorded_def replay_change_def

lemma apply_add_file_step:
  assumes law: "lawful_fs ops pops view"
    and a: "apply_add_file ops pops p contents d fs = (r, d', fs')"
  shows "delta_step view d fs d' fs'"
proof -
  obtain ov ex where ro: "read_optional_file_text_for_delta ops fs p (delta_exact d) = (ov, ex)"
    by fastforce
  obtain q fs1 where w: "write_file_with_missing_parent_retry ops pops fs p contents = (q, fs1)"
    by fastforce
  show ?thesis
  proof (cases q)
    case (Inl e)
    with a ro w show ?thesis by (auto simp: apply_add_file_def intro!: delta_step_none)
  next
    case (Inr u)
    with a ro w show ?thesis
      using read_optional_exact [OF law ro] write_retry_Ok [OF law] 
      by (auto simp: apply_add_file_def change_defs intro!: delta_step_one)
  qed
qed

lemma apply_delete_file_step:
  assumes law: "lawful_fs ops pops view"
    and a: "apply_delete_file ops pops p d fs = (r, d', fs')"
  shows "delta_step view d fs d' fs'"
proof -
  define content where "content = (case read_file_text ops fs p of Ok c \<Rightarrow> Some c | Err _ \<Rightarrow> None)"
  define d1 where "d1 = d\<lparr> delta_exact := (if content = None then False
    else note_existing_path_delta_support ops fs p (delta_exact d)) \<rparr>"
  have d1: "delta_changes d1 = delta_changes d"
      "delta_exact d1 \<Longrightarrow> delta_exact d \<and> (\<exists>c. content = Some c \<and> view fs (to_path_buf pops p) = Some c)"
    using lawful_read [OF law] by (auto simp: d1_def content_def dest: note_support_exact
        split: sum.splits if_splits)
  obtain q d2 fs2 where rm: "remove_checked ops pops (lit ''Failed to delete file '') p content d1 fs
      = (q, d2, fs2)" by (metis prod_cases3)
  show ?thesis
  proof (cases q)
    case (Inl e)
    with a rm have "d' = d2" "fs' = fs2"
      by (auto simp: apply_delete_file_def Let_def content_def [symmetric] d1_def [symmetric])
    with remove_checked_Err [OF law rm [unfolded Inl]] d1 show ?thesis
      by (auto intro!: delta_step_none)
  next
    case (Inr u)
    note ok = remove_checked_Ok [OF law rm [unfolded Inr]]
    from a rm Inr have *: "fs' = fs2" "d' = (case content of
        Some c \<Rightarrow> push_change (to_path_buf pops p) (DeleteChange c) d2 | None \<Rightarrow> d2)"
      by (auto simp: apply_delete_file_def Let_def content_def [symmetric] d1_def [symmetric])
    show ?thesis
    proof (cases content)
      case None
      with * ok d1 show ?thesis by (auto intro!: delta_step_none)
    next
      case (Some c)
      with * ok d1 show ?thesis by (auto simp: change_defs intro!: delta_step_one)
    qed
  qed
qed

lemma apply_move_file_step:
  assumes law: "lawful_fs ops pops view" and old: "view fs (to_path_buf pops p) = Some old"
    and a: "apply_move_file ops pops p dest old new d fs = (r, d', fs')"
  shows "delta_step view d fs d' fs'"
proof -
  obtain ov ex where ro: "read_optional_file_text_for_delta ops fs dest (delta_exact d) = (ov, ex)"
    by fastforce
  obtain q fs1 where w: "write_file_with_missing_parent_retry ops pops fs dest new = (q, fs1)"
    by fastforce
  define d1 where "d1 = push_change (to_path_buf pops dest) (AddChange new ov) (d\<lparr>delta_exact := ex\<rparr>)"
  have d1: "delta_changes d1 = delta_changes d @
        [\<lparr> change_path = to_path_buf pops dest, change = AddChange new ov \<rparr>]"
      "delta_exact d1 \<Longrightarrow> delta_exact d \<and> view fs (to_path_buf pops dest) = ov"
    using read_optional_exact [OF law ro] by (auto simp: d1_def push_change_def)
  show ?thesis
  proof (cases q)
    case (Inl e)
    with a ro w show ?thesis by (auto simp: apply_move_file_def intro!: delta_step_none)
  next
    case (Inr u)
    note wr = write_retry_Ok [OF law w [unfolded Inr]]
    obtain t d2 fs2 where rm: "remove_checked ops pops (lit ''Failed to remove original '') p
        (Some old) d1 fs1 = (t, d2, fs2)" by (metis prod_cases3)
    show ?thesis
    proof (cases t)
      case (Inl e)
      with a ro w rm Inr have "d' = d2" "fs' = fs2"
        by (auto simp: apply_move_file_def Let_def d1_def [symmetric])
      with remove_checked_Err [OF law rm [unfolded Inl]] d1 wr show ?thesis
        by (auto simp: change_defs intro!: delta_step_one)
    next
      case (Inr v)
      note ok = remove_checked_Ok [OF law rm [unfolded Inr]]
      from a ro w rm Inr \<open>q = Inr u\<close> have "fs' = fs2"
          "d' = d2\<lparr> delta_changes := (delta_changes d2)[length (delta_changes d) :=
             \<lparr> change_path = to_path_buf pops p,
               change = UpdateChange (Some (to_path_buf pops dest)) old ov new \<rparr>] \<rparr>"
        by (auto simp: apply_move_file_def Let_def d1_def [symmetric])
      with ok d1 wr old show ?thesis
        by (auto simp: change_defs list_update_append intro!: delta_step_one)
    qed
  qed
qed

lemma derive_from_chunks_Ok:
  assumes "derive_new_contents_from_chunks ops pops fs p chunks = Ok (old, new)"
  shows "read_file_text ops fs p = Ok old \<and>
    derive_new_contents (native_string pops p) old chunks = Ok (Some new)"
  using assms by (auto simp: derive_new_contents_from_chunks_def split: sum.splits option.splits)

lemma apply_write_update_step:
  assumes "lawful_fs ops pops view" "view fs (to_path_buf pops p) = Some old"
    and "apply_write_update ops pops p old new d fs = (r, d', fs')"
  shows "delta_step view d fs d' fs'"
proof (cases "write_file ops fs p new")
  case (Pair q fs1)
  show ?thesis
  proof (cases q)
    case (Inl e)
    with Pair assms(3) show ?thesis by (auto simp: apply_write_update_def intro!: delta_step_none)
  next
    case (Inr u)
    with Pair assms(2,3) lawful_write [OF assms(1)] show ?thesis
      by (auto simp: apply_write_update_def change_defs intro!: delta_step_one)
  qed
qed

lemma apply_update_file_step:
  assumes law: "lawful_fs ops pops view"
    and a: "apply_update_file ops pops cwd p mv chunks d fs = (r, d', fs')"
  shows "delta_step view d fs d' fs'"
proof -
  define d1 where "d1 = d\<lparr> delta_exact := note_existing_path_delta_support ops fs p (delta_exact d) \<rparr>"
  have first: "delta_step view d fs d1 fs"
    by (rule delta_step_none) (auto simp: d1_def dest: note_support_exact)
  note a = a [unfolded apply_update_file_def Let_def d1_def [symmetric]]
  have "delta_step view d1 fs d' fs'"
  proof (cases "derive_new_contents_from_chunks ops pops fs p chunks")
    case (Inl e)
    with a show ?thesis by (auto intro!: delta_step_none)
  next
    case (Inr on)
    obtain old new where on: "on = (old, new)" by fastforce
    from derive_from_chunks_Ok [OF Inr [unfolded on]]
    have "view fs (to_path_buf pops p) = Some old" using lawful_read [OF law] by blast
    note * = apply_write_update_step [OF law this] apply_move_file_step [OF law this]
    show ?thesis
      using a Inr on * by (auto split: option.splits sum.splits intro!: delta_step_none)
  qed
  with first show ?thesis by (rule delta_step_trans)
qed

lemma apply_hunk_step:
  assumes "lawful_fs ops pops view" "apply_hunk ops pops cwd h d fs = (r, d', fs')"
  shows "delta_step view d fs d' fs'"
  using assms(2) apply_add_file_step [OF assms(1)] apply_delete_file_step [OF assms(1)]
    apply_update_file_step [OF assms(1)]
  by (auto simp: apply_hunk_def split: sum.splits hunk.splits intro!: delta_step_none)

lemma apply_hunk_loop_step:
  "lawful_fs ops pops view \<Longrightarrow> apply_hunk_loop ops pops cwd hs a d fs = (r, d', fs') \<Longrightarrow>
   delta_step view d fs d' fs'"
proof (induction hs arbitrary: a d fs)
  case Nil
  then show ?case by (auto intro!: delta_step_none)
next
  case (Cons h hs)
  obtain q d1 fs1 where h: "apply_hunk ops pops cwd h d fs = (q, d1, fs1)" by (metis prod_cases3)
  note st = apply_hunk_step [OF Cons.prems(1) h]
  show ?case
  proof (cases q)
    case (Inl e)
    with Cons.prems(2) h st show ?thesis by simp
  next
    case (Inr u)
    with Cons.prems(2) h have "apply_hunk_loop ops pops cwd hs (note_affected h a) d1 fs1 = (r, d', fs')"
      by simp
    from delta_step_trans [OF st Cons.IH [OF Cons.prems(1) this]] show ?thesis .
  qed
qed





section \<open>Files the patch does not name\<close>











section \<open>A file system in memory\<close>

text \<open>
  Paths are strings, a file system is the map itself; a file below a directory that was not
  created is not found.  It serves to evaluate the model.
\<close>

definition mem_ops :: "(file_map, str) fs_ops" where
  "mem_ops =
     \<lparr> read_file_text = (\<lambda>fs p. case fs p of Some c \<Rightarrow> Ok c
         | None \<Rightarrow> Err \<lparr> kind = NotFound, io_text = lit ''not found'' \<rparr>),
       get_metadata = (\<lambda>fs p. case fs p of
           Some c \<Rightarrow> Ok \<lparr> is_directory = False, is_file = True, is_symlink = False \<rparr>
         | None \<Rightarrow> Err \<lparr> kind = NotFound, io_text = lit ''not found'' \<rparr>),
       write_file = (\<lambda>fs p c. (Ok (), fs(p \<mapsto> c))),
       create_directory = (\<lambda>fs p r. (Ok (), fs)),
       remove_file = (\<lambda>fs p r f. case fs p of Some c \<Rightarrow> (Ok (), fs(p := None))
         | None \<Rightarrow> (Err \<lparr> kind = NotFound, io_text = lit ''not found'' \<rparr>, fs)) \<rparr>"

definition mem_paths :: "str path_ops" where
  "mem_paths =
     \<lparr> join_uri = (\<lambda>cwd p. if p = [] then Err (lit ''empty'') else Ok (cwd @ lit ''/'' @ p)),
       parent_uri = (\<lambda>p. None), native_string = (\<lambda>p. p), to_path_buf = (\<lambda>p. p) \<rparr>"

definition mem_writer :: "str list writer" where
  "mem_writer w l = (Ok (), w @ [l])"

lemma mem_lawful: "lawful_fs mem_ops mem_paths (\<lambda>fs. fs)"
  by (auto simp: lawful_fs_def mem_ops_def mem_paths_def split: option.splits)

lemmas mem_defs = mem_ops_def mem_paths_def mem_writer_def

lemmas apply_eval = apply_hunks_to_files_def apply_hunk_def apply_add_file_def
  apply_delete_file_def apply_update_file_def apply_move_file_def apply_write_update_def
  remove_checked_def ensure_not_directory_def derive_new_contents_from_chunks_def
  write_file_with_missing_parent_retry_def read_optional_file_text_for_delta_def
  note_existing_path_delta_support_def push_change_def empty_delta_def Let_def

section \<open>Properties\<close>


definition sample_world :: "(file_map, str list) world" where
  "sample_world =
     \<lparr> files = Map.empty(lit ''w/b'' \<mapsto> lit ''old''), stdout = [], stderr = [] \<rparr>"




text \<open>
  Committed work is never forgotten: the changes reported by a call only grow from hunk to
  hunk, and once the delta is not exact it stays so.
\<close>

theorem apply_hunk_loop_extends_delta:
  assumes "lawful_fs ops pops view" "apply_hunk_loop ops pops cwd hs a d fs = (r, d', fs')"
  shows "prefix (delta_changes d) (delta_changes d') \<and> (delta_exact d' \<longrightarrow> delta_exact d)"
  using apply_hunk_loop_step [OF assms] by (auto simp: delta_step_def)

theorem apply_hunk_loop_extends_delta_witness:
  "\<exists>r d' fs'. apply_hunk_loop mem_ops mem_paths (lit ''w'') [DeleteFile (lit ''none'')]
      \<lparr> added = [], modified = [], deleted = [] \<rparr> empty_delta Map.empty = (r, d', fs') \<and>
    prefix (delta_changes empty_delta) (delta_changes d') \<and> \<not> delta_exact d'"
proof -
  let ?run = "apply_hunk_loop mem_ops mem_paths (lit ''w'') [DeleteFile (lit ''none'')]
      \<lparr> added = [], modified = [], deleted = [] \<rparr> empty_delta Map.empty"
  obtain r d' fs' where run: "?run = (r, d', fs')" by (metis prod_cases3)
  moreover have "\<not> delta_exact d'" using run by (auto simp: apply_eval mem_defs lit_def)
  ultimately show ?thesis using apply_hunk_loop_extends_delta [OF mem_lawful run] by blast
qed

text \<open>
  A limit of the code: an update that moves a file to its own path writes the new contents
  and then removes them, so the file is lost.
\<close>

lemma move_to_itself_deletes:
  "files (snd (apply_hunks mem_ops mem_paths mem_writer
     [UpdateFile (lit ''b'') (Some (lit ''b''))
        [\<lparr> change_context = None, old_lines = [lit ''old''], new_lines = [lit ''new''],
           is_end_of_file = False \<rparr>]]
     (lit ''w'') sample_world)) (lit ''w/b'') = None"
  by (simp add: apply_hunks_def apply_eval mem_defs sample_world_def print_summary_def
      summary_lines_def derive_eval)

end
