(* ===== verification/Stream_Text.thy ===== *)
theory Stream_Text
  imports Prelude
begin

text \<open>
  The interface of the parsers of streamed text,
  \<^verbatim>\<open>utils/stream-parser/src/stream_text.rs\<close>: the chunk each call returns and the trait
  \<^verbatim>\<open>StreamTextParser\<close> as a locale.  Its law is the promise the callers rely on: how the
  text was cut into chunks does not show in the result.
\<close>

section \<open>Chunks\<close>

record 'e stream_text_chunk =
  visible_text :: str
  extracted :: "'e list"

definition default_chunk :: "'e stream_text_chunk" where
  "default_chunk = \<lparr> visible_text = [], extracted = [] \<rparr>"

definition chunk_is_empty :: "'e stream_text_chunk \<Rightarrow> bool" where
  "chunk_is_empty c \<longleftrightarrow> visible_text c = [] \<and> extracted c = []"

text \<open>The callers accumulate chunks by appending both parts.\<close>

definition append_chunk ::
    "'e stream_text_chunk \<Rightarrow> 'e stream_text_chunk \<Rightarrow> 'e stream_text_chunk" where
  "append_chunk a b =
     \<lparr> visible_text = visible_text a @ visible_text b, extracted = extracted a @ extracted b \<rparr>"

lemma append_chunk_default [simp]:
  "append_chunk default_chunk c = c" "append_chunk c default_chunk = c"
  by (simp_all add: append_chunk_def default_chunk_def)

lemma append_chunk_assoc: "append_chunk (append_chunk a b) c = append_chunk a (append_chunk b c)"
  by (simp add: append_chunk_def)

lemma append_chunk_sel [simp]:
  "visible_text (append_chunk a b) = visible_text a @ visible_text b"
  "extracted (append_chunk a b) = extracted a @ extracted b"
  by (simp_all add: append_chunk_def)

lemma default_chunk_sel [simp]: "visible_text default_chunk = []" "extracted default_chunk = []"
  by (simp_all add: default_chunk_def)

text \<open>A stream: the chunks are pushed in turn, then the parser is finished.\<close>

fun push_all ::
    "('s \<Rightarrow> 'i \<Rightarrow> 'e stream_text_chunk \<times> 's) \<Rightarrow> 's \<Rightarrow> 'i list \<Rightarrow> 'e stream_text_chunk \<times> 's" where
  "push_all push s [] = (default_chunk, s)"
| "push_all push s (c # cs) =
     (let (out, s1) = push s c; (outs, s2) = push_all push s1 cs in (append_chunk out outs, s2))"

definition stream_run ::
    "('s \<Rightarrow> 'i \<Rightarrow> 'e stream_text_chunk \<times> 's) \<Rightarrow> ('s \<Rightarrow> 'e stream_text_chunk \<times> 's) \<Rightarrow> 's \<Rightarrow>
     'i list \<Rightarrow> 'e stream_text_chunk \<times> 's" where
  "stream_run push fin s cs =
     (let (out, s1) = push_all push s cs; (tail, s2) = fin s1 in (append_chunk out tail, s2))"

section \<open>The contract\<close>

text \<open>
  Payloads are compared through \<open>canon\<close>: a parser may deliver a piece of text in one payload
  or in several that the caller concatenates.
\<close>

definition same_chunk ::
    "('e list \<Rightarrow> 'e list) \<Rightarrow> 'e stream_text_chunk \<Rightarrow> 'e stream_text_chunk \<Rightarrow> bool" where
  "same_chunk canon a b \<longleftrightarrow>
     visible_text a = visible_text b \<and> canon (extracted a) = canon (extracted b)"

lemma same_chunk_refl [simp]: "same_chunk canon a a"
  by (simp add: same_chunk_def)

lemma same_chunk_sym: "same_chunk canon a b \<Longrightarrow> same_chunk canon b a"
  by (simp add: same_chunk_def)

lemma same_chunk_trans: "same_chunk canon a b \<Longrightarrow> same_chunk canon b c \<Longrightarrow> same_chunk canon a c"
  by (simp add: same_chunk_def)

locale stream_text_parser =
  fixes push :: "'s \<Rightarrow> str \<Rightarrow> 'e stream_text_chunk \<times> 's"
    and fin :: "'s \<Rightarrow> 'e stream_text_chunk \<times> 's"
    and inv :: "'s \<Rightarrow> bool"
    and canon :: "'e list \<Rightarrow> 'e list"
  assumes push_inv: "inv s \<Longrightarrow> inv (snd (push s a))"
    and fin_inv: "inv s \<Longrightarrow> inv (snd (fin s))"
    and push_nil: "inv s \<Longrightarrow> push s [] = (default_chunk, s)"
    and push_split: "inv s \<Longrightarrow> snd (push s (a @ b)) = snd (push (snd (push s a)) b) \<and>
      same_chunk canon (fst (push s (a @ b)))
        (append_chunk (fst (push s a)) (fst (push (snd (push s a)) b)))"
    and canon_append: "canon (xs @ ys) = canon (canon xs @ canon ys)"
begin

lemma same_append:
  "same_chunk canon a a' \<Longrightarrow> same_chunk canon b b' \<Longrightarrow>
   same_chunk canon (append_chunk a b) (append_chunk a' b')"
  unfolding same_chunk_def by (metis append_chunk_sel canon_append)

lemma push_all_concat:
  "inv s \<Longrightarrow> snd (push_all push s cs) = snd (push s (concat cs)) \<and>
   same_chunk canon (fst (push_all push s cs)) (fst (push s (concat cs)))"
proof (induction cs arbitrary: s)
  case Nil
  then show ?case by (simp add: push_nil)
next
  case (Cons c cs)
  obtain out s1 where c: "push s c = (out, s1)" by fastforce
  have "inv s1" using push_inv [OF Cons.prems, of c] c by simp
  note IH = Cons.IH [OF this]
  from push_split [OF Cons.prems, of c "concat cs"] c
  have "snd (push s (c @ concat cs)) = snd (push s1 (concat cs))"
    and "same_chunk canon (append_chunk out (fst (push s1 (concat cs)))) (fst (push s (c @ concat cs)))"
    by (auto intro: same_chunk_sym)
  moreover have "same_chunk canon (append_chunk out (fst (push_all push s1 cs)))
      (append_chunk out (fst (push s1 (concat cs))))"
    by (rule same_append) (use IH in auto)
  ultimately show ?case using IH c by (auto simp: split_beta intro: same_chunk_trans)
qed

lemma push_all_inv: "inv s \<Longrightarrow> inv (snd (push_all push s cs))"
  using push_all_concat push_inv by simp

lemma stream_run_inv: "inv s \<Longrightarrow> inv (snd (stream_run push fin s cs))"
  using push_all_inv fin_inv by (simp add: stream_run_def split_beta)

text \<open>Two ways to cut the same text cannot be told apart.\<close>

lemma stream_run_rechunk:
  assumes "inv s" "concat cs = concat ds"
  shows "snd (stream_run push fin s cs) = snd (stream_run push fin s ds) \<and>
    same_chunk canon (fst (stream_run push fin s cs)) (fst (stream_run push fin s ds))"
proof -
  have "snd (push_all push s cs) = snd (push_all push s ds)"
    using push_all_concat [OF assms(1)] assms(2) by simp
  moreover have "same_chunk canon (fst (push_all push s cs)) (fst (push_all push s ds))"
    using push_all_concat [OF assms(1)] assms(2) by (metis same_chunk_sym same_chunk_trans)
  ultimately show ?thesis
    by (auto simp: stream_run_def split_beta intro!: same_append)
qed

end

end
