(* ===== verification/Inline_Hidden_Tag.thy ===== *)
theory Inline_Hidden_Tag
  imports Stream_Text
begin

text \<open>
  Hidden inline tags in streamed text:
  \<^verbatim>\<open>utils/stream-parser/src/inline_hidden_tag.rs\<close>.  The parser keeps back the end of its
  input while it may still become a delimiter.  The main lemma: with opening delimiters none
  of which contains another, cutting the input differently changes nothing, so the parser
  meets the contract of \<open>Stream_Text\<close>.
\<close>

section \<open>Model\<close>

record 't inline_tag_spec =
  spec_tag :: 't
  spec_open :: str
  spec_close :: str

record 't active_tag =
  active_tag :: 't
  active_close :: str
  active_content :: str

record 't extracted_inline_tag =
  extracted_tag :: 't
  extracted_content :: str

record 't inline_hidden_tag_parser =
  tag_specs :: "'t inline_tag_spec list"
  pending :: str
  active :: "'t active_tag option"

type_synonym 't tag_chunk = "'t extracted_inline_tag stream_text_chunk"

text \<open>The constructor; a failed assertion is \<open>None\<close>.\<close>

definition new_parser :: "'t inline_tag_spec list \<Rightarrow> 't inline_hidden_tag_parser option" where
  "new_parser specs =
     (if specs = [] then None
      else if list_ex (\<lambda>spec. spec_open spec = [] \<or> spec_close spec = []) specs then None
      else Some \<lparr> tag_specs = specs, pending = [], active = None \<rparr>)"

definition longest_suffix_prefix_len :: "str \<Rightarrow> str \<Rightarrow> nat" where
  "longest_suffix_prefix_len s needle =
     (let mx = min (length s) (length needle - 1)
      in case List.find (\<lambda>k. ends_with s (take k needle)) (rev [1..<Suc mx]) of
           Some k \<Rightarrow> k | None \<Rightarrow> 0)"

text \<open>The candidates of \<^verbatim>\<open>find_next_open\<close>: position, length and index of each delimiter found.\<close>

fun open_candidates :: "str \<Rightarrow> nat \<Rightarrow> 't inline_tag_spec list \<Rightarrow> (nat \<times> nat \<times> nat) list" where
  "open_candidates pend idx [] = []"
| "open_candidates pend idx (spec # specs) =
     (case find_str pend (spec_open spec) of
        Some pos \<Rightarrow> [(pos, length (spec_open spec), idx)] | None \<Rightarrow> []) @
     open_candidates pend (Suc idx) specs"

text \<open>The first position, then the longest delimiter, then the first specification.\<close>

fun precedes :: "nat \<times> nat \<times> nat \<Rightarrow> nat \<times> nat \<times> nat \<Rightarrow> bool" where
  "precedes (pos_a, len_a, idx_a) (pos_b, len_b, idx_b) \<longleftrightarrow>
     pos_a < pos_b \<or> pos_a = pos_b \<and> (len_b < len_a \<or> len_a = len_b \<and> idx_a < idx_b)"

fun min_candidate :: "(nat \<times> nat \<times> nat) list \<Rightarrow> (nat \<times> nat \<times> nat) option" where
  "min_candidate [] = None"
| "min_candidate (c # cs) =
     (case min_candidate cs of
        None \<Rightarrow> Some c | Some m \<Rightarrow> Some (if precedes m c then m else c))"

definition find_next_open :: "'t inline_tag_spec list \<Rightarrow> str \<Rightarrow> (nat \<times> nat) option" where
  "find_next_open specs pend =
     map_option (\<lambda>(pos, len, idx). (pos, idx)) (min_candidate (open_candidates pend 0 specs))"

definition max_open_prefix_suffix_len :: "'t inline_tag_spec list \<Rightarrow> str \<Rightarrow> nat" where
  "max_open_prefix_suffix_len specs pend =
     foldr max (map (\<lambda>spec. longest_suffix_prefix_len pend (spec_open spec)) specs) 0"

definition start_tag :: "'t inline_tag_spec \<Rightarrow> 't active_tag" where
  "start_tag spec =
     \<lparr> active_tag = spec_tag spec, active_close = spec_close spec, active_content = [] \<rparr>"

definition end_tag :: "'t active_tag \<Rightarrow> str \<Rightarrow> 't extracted_inline_tag" where
  "end_tag a text =
     \<lparr> extracted_tag = active_tag a, extracted_content = active_content a @ text \<rparr>"

text \<open>
  The loop of \<^verbatim>\<open>push_str\<close> over the active tag, the pending text and the output.  The
  constructor asserts that delimiters are not empty, so entering a tag consumes input; the
  test for an empty delimiter stands for that assertion and makes the recursion total.
\<close>

function push_loop ::
    "'t inline_tag_spec list \<Rightarrow> 't active_tag option \<Rightarrow> str \<Rightarrow> 't tag_chunk \<Rightarrow>
     't tag_chunk \<times> 't active_tag option \<times> str" where
  "push_loop specs (Some a) pend out =
     (case find_str pend (active_close a) of
        Some close_idx \<Rightarrow>
          push_loop specs None (drop (close_idx + length (active_close a)) pend)
            (out\<lparr> extracted := extracted out @ [end_tag a (take close_idx pend)] \<rparr>)
      | None \<Rightarrow>
          (let keep = longest_suffix_prefix_len pend (active_close a);
               tk = length pend - keep
           in (out, Some (a\<lparr> active_content := active_content a @ take tk pend \<rparr>), drop tk pend)))"
| "push_loop specs None pend out =
     (case find_next_open specs pend of
        Some (open_idx, spec_idx) \<Rightarrow>
          (let spec = specs ! spec_idx;
               out = out\<lparr> visible_text := visible_text out @ take open_idx pend \<rparr>
           in if spec_open spec = [] then (out, None, pend)
              else push_loop specs (Some (start_tag spec))
                     (drop (open_idx + length (spec_open spec)) pend) out)
      | None \<Rightarrow>
          (let keep = max_open_prefix_suffix_len specs pend;
               tk = length pend - keep
           in (out\<lparr> visible_text := visible_text out @ take tk pend \<rparr>, None, drop tk pend)))"
  by pat_completeness auto

lemma min_candidate_in: "min_candidate cs = Some c \<Longrightarrow> c \<in> set cs"
  by (induction cs arbitrary: c) (auto split: option.splits if_splits)

lemma open_candidates_in:
  "(pos, len, idx) \<in> set (open_candidates pend k specs) \<longleftrightarrow>
   k \<le> idx \<and> idx < k + length specs \<and> len = length (spec_open (specs ! (idx - k))) \<and>
   find_str pend (spec_open (specs ! (idx - k))) = Some pos"
proof (induction specs arbitrary: k idx)
  case (Cons spec specs)
  show ?case
    by (cases "idx = k"; cases "find_str pend (spec_open spec)")
       (auto simp: Cons.IH nth_Cons' Suc_diff_le)
qed simp

lemma find_next_open_Some:
  assumes "find_next_open specs pend = Some (pos, idx)"
  shows "idx < length specs \<and> find_str pend (spec_open (specs ! idx)) = Some pos"
  using assms min_candidate_in [of "open_candidates pend 0 specs"]
  by (fastforce simp: find_next_open_def open_candidates_in)

termination push_loop
proof (relation "measures [\<lambda>(specs, act, pend, out). length pend,
    \<lambda>(specs, act, pend, out). if act = None then 0 else 1]", goal_cases)
  case (2 specs a pend out x)
  then show ?case by simp arith
next
  case (3 specs pend out p pos idx spec out')
  then have "find_str pend (spec_open spec) = Some pos" "spec_open spec \<noteq> []"
    using find_next_open_Some [of specs pend pos idx] by auto
  then show ?case using find_str_le [of pend "spec_open spec" pos] by (cases "spec_open spec") auto
qed auto

definition push_str ::
    "'t inline_hidden_tag_parser \<Rightarrow> str \<Rightarrow> 't tag_chunk \<times> 't inline_hidden_tag_parser" where
  "push_str p chunk =
     (let (out, act, pend) =
        push_loop (tag_specs p) (active p) (pending p @ chunk) default_chunk
      in (out, p\<lparr> active := act, pending := pend \<rparr>))"

definition finish_tags ::
    "'t inline_hidden_tag_parser \<Rightarrow> 't tag_chunk \<times> 't inline_hidden_tag_parser" where
  "finish_tags p =
     (case active p of
        Some a \<Rightarrow>
          (default_chunk\<lparr> extracted := [end_tag a (pending p)] \<rparr>,
           p\<lparr> active := None, pending := [] \<rparr>)
      | None \<Rightarrow> (default_chunk\<lparr> visible_text := pending p \<rparr>, p\<lparr> pending := [] \<rparr>))"

section \<open>Partial delimiters at the end\<close>

text \<open>A search downwards finds the greatest.\<close>

lemma find_downwards:
  "case List.find P (rev [1..<Suc m]) of
     Some k \<Rightarrow> 1 \<le> k \<and> k \<le> m \<and> P k \<and> (\<forall>j. k < j \<longrightarrow> j \<le> m \<longrightarrow> \<not> P j)
   | None \<Rightarrow> \<forall>j. 1 \<le> j \<longrightarrow> j \<le> m \<longrightarrow> \<not> P j"
proof (induction m)
  case (Suc m)
  have "rev [1..<Suc (Suc m)] = Suc m # rev [1..<Suc m]" by simp
  then show ?case using Suc by (auto split: option.splits simp: le_Suc_eq)
qed simp

lemma longest_suffix_prefix:
  shows "suffix (take (longest_suffix_prefix_len s c) c) s"
    and "longest_suffix_prefix_len s c \<le> length s"
    and "longest_suffix_prefix_len s c < length c \<or> longest_suffix_prefix_len s c = 0"
    and "j < length c \<Longrightarrow> suffix (take j c) s \<Longrightarrow> j \<le> longest_suffix_prefix_len s c"
proof -
  let ?P = "\<lambda>k. ends_with s (take k c)" and ?m = "min (length s) (length c - 1)"
  note down = find_downwards [where P = ?P and m = ?m]
  show "suffix (take (longest_suffix_prefix_len s c) c) s"
      "longest_suffix_prefix_len s c \<le> length s"
      "longest_suffix_prefix_len s c < length c \<or> longest_suffix_prefix_len s c = 0"
    using down by (auto simp: longest_suffix_prefix_len_def Let_def ends_with_suffix
        split: option.splits)
  assume j: "j < length c" "suffix (take j c) s"
  then have "j \<le> length s" using suffix_length_le by fastforce
  then have jm: "j \<le> ?m" "?P j" using j by (auto simp: ends_with_suffix)
  show "j \<le> longest_suffix_prefix_len s c"
  proof (cases "List.find ?P (rev [1..<Suc ?m])")
    case None
    with down jm have "\<not> 1 \<le> j" by auto
    then show ?thesis by simp
  next
    case (Some k)
    with down jm have "\<not> k < j" by auto
    with Some show ?thesis by (simp add: longest_suffix_prefix_len_def Let_def)
  qed
qed

lemma longest_suffix_prefix_cong:
  assumes "\<And>j. j < length c \<Longrightarrow> suffix (take j c) s \<longleftrightarrow> suffix (take j c) t"
  shows "longest_suffix_prefix_len s c = longest_suffix_prefix_len t c"
  using longest_suffix_prefix(1,3,4) assms
  by (metis le_antisym le_zero_eq zero_le)

text \<open>
  \<open>p\<close> is a long enough end of \<open>y @ p\<close>: no longer end of it is a proper prefix of \<open>c\<close>, so
  what a text appended to \<open>y @ p\<close> completes lies in \<open>p\<close> and that text.
\<close>

definition enough :: "str \<Rightarrow> str \<Rightarrow> str \<Rightarrow> bool" where
  "enough c y p \<longleftrightarrow> (\<forall>j < length c. length p < j \<longrightarrow> \<not> suffix (take j c) (y @ p))"

lemma enoughI:
  assumes "longest_suffix_prefix_len (y @ p) c \<le> length p"
  shows "enough c y p"
  using assms longest_suffix_prefix(4) [of _ c "y @ p"] by (fastforce simp: enough_def)

lemma enough_tl: "enough c (h # y) p \<Longrightarrow> enough c y p"
  by (auto simp: enough_def suffix_Cons)

lemma find_str_enough:
  "enough c y p \<Longrightarrow> \<not> sublist c (y @ p) \<Longrightarrow>
   find_str (y @ p @ b) c = map_option (\<lambda>i. length y + i) (find_str (p @ b) c)"
proof (induction y)
  case (Cons h y)
  have "\<not> starts_with (h # y @ p @ b) c"
  proof
    assume "starts_with (h # y @ p @ b) c"
    then have pre: "prefix c ((h # y @ p) @ b)" by (simp add: starts_with_prefix)
    have "\<not> prefix c (h # y @ p)" using Cons.prems(2) by auto
    moreover have "prefix (h # y @ p) ((h # y @ p) @ b)" by (rule prefixI) simp
    ultimately have "prefix (h # y @ p) c" using pre prefix_same_cases by blast
    moreover from this have "length (h # y @ p) < length c"
      using \<open>\<not> prefix c (h # y @ p)\<close>
      by (metis prefix_length_le le_neq_implies_less prefix_order.refl prefix_def append_eq_conv_conj take_all_iff order_refl)
    ultimately have "take (length (h # y @ p)) c = h # y @ p"
      "length (h # y @ p) < length c"
      by (auto simp: prefix_def)
    with \<open>length (h # y @ p) < length c\<close> Cons.prems(1) show False
      by (auto simp: enough_def)
  qed
  moreover have "\<not> sublist c (y @ p)" using Cons.prems(2) by (auto simp: sublist_Cons_right)
  ultimately show ?case
    using Cons.IH [OF enough_tl [OF Cons.prems(1)]]
    by (simp add: option.map_comp comp_def)
qed (simp add: map_option_case split: option.split)

lemma longest_suffix_prefix_enough:
  assumes "enough c y p"
  shows "longest_suffix_prefix_len (y @ p @ b) c = longest_suffix_prefix_len (p @ b) c"
proof (rule longest_suffix_prefix_cong)
  fix j assume j: "j < length c"
  show "suffix (take j c) (y @ p @ b) \<longleftrightarrow> suffix (take j c) (p @ b)"
  proof
    assume s: "suffix (take j c) (y @ p @ b)"
    show "suffix (take j c) (p @ b)"
    proof (cases "j \<le> length (p @ b)")
      case True
      then show ?thesis
        using s j by (intro suffix_length_suffix [OF s]) (auto simp: suffix_def)
    next
      case False
      let ?k = "j - length b"
      from s obtain z where z: "y @ p @ b = z @ take j c" by (auto simp: suffix_def)
      have "take j c = take ?k c @ drop ?k (take j c)"
        by (metis append_take_drop_id diff_le_self min.absorb1 take_take)
      then have "(y @ p) @ b = (z @ take ?k c) @ drop ?k (take j c)" using z by simp
      moreover have "length (drop ?k (take j c)) = length b" using False j by auto
      ultimately have "y @ p = z @ take ?k c" by (subst (asm) append_eq_append_conv) auto
      then have "suffix (take ?k c) (y @ p)" by (auto simp: suffix_def)
      then show ?thesis using assms j False by (auto simp: enough_def)
    qed
  qed (metis append_assoc suffix_append suffix_def)
qed

section \<open>The next opening delimiter\<close>

lemma precedes_order:
  "\<not> precedes a a" "precedes a b \<Longrightarrow> precedes b d \<Longrightarrow> precedes a d"
  "a = b \<or> precedes a b \<or> precedes b a"
  by (cases a; cases b; cases d; auto)+

lemma min_candidate_None: "min_candidate cs = None \<longleftrightarrow> cs = []"
  by (cases cs) (auto split: option.splits)

lemma min_candidate_least:
  "min_candidate cs = Some m \<Longrightarrow> c \<in> set cs \<Longrightarrow> c = m \<or> precedes m c"
proof (induction cs arbitrary: m)
  case (Cons d cs)
  show ?case
  proof (cases "min_candidate cs")
    case None
    with Cons.prems show ?thesis by (auto simp: min_candidate_None)
  next
    case (Some k)
    with Cons.prems have m: "m = (if precedes k d then k else d)" by simp
    show ?thesis
    proof (cases "c = d")
      case True
      with m show ?thesis by auto
    next
      case False
      with Cons.prems have "c \<in> set cs" by simp
      with Cons.IH [OF Some] have "c = k \<or> precedes k c" by blast
      with m show ?thesis by (metis precedes_order(2,3))
    qed
  qed
qed simp

lemma min_candidate_Some:
  "min_candidate cs = Some m \<longleftrightarrow> m \<in> set cs \<and> (\<forall>c \<in> set cs. c = m \<or> precedes m c)"
proof
  assume m: "m \<in> set cs \<and> (\<forall>c \<in> set cs. c = m \<or> precedes m c)"
  then obtain k where k: "min_candidate cs = Some k"
    using min_candidate_None by (cases "min_candidate cs") auto
  from min_candidate_least [OF k] min_candidate_in [OF k] m have "k = m"
    by (metis precedes_order(1,2))
  with k show "min_candidate cs = Some m" by simp
qed (auto intro: min_candidate_in dest: min_candidate_least)

lemma find_next_open_None:
  "find_next_open specs pend = None \<longleftrightarrow> (\<forall>spec \<in> set specs. \<not> sublist (spec_open spec) pend)"
proof -
  have "open_candidates pend k specs = [] \<longleftrightarrow>
      (\<forall>spec \<in> set specs. find_str pend (spec_open spec) = None)" for k
    by (induction specs arbitrary: k) (auto split: option.splits)
  then show ?thesis by (simp add: find_next_open_def min_candidate_None find_str_None)
qed

text \<open>
  Specifications that cannot be confused: the delimiters are not empty, and an opening
  delimiter that occurs in another one is the same.
\<close>

definition specs_independent :: "'t inline_tag_spec list \<Rightarrow> bool" where
  "specs_independent specs \<longleftrightarrow>
     (\<forall>s \<in> set specs. spec_open s \<noteq> [] \<and> spec_close s \<noteq> []) \<and>
     (\<forall>s \<in> set specs. \<forall>t \<in> set specs.
        sublist (spec_open t) (spec_open s) \<longrightarrow> spec_open t = spec_open s)"

lemma occurrence_inside:
  assumes "u = a @ t @ a'" "u @ b = d @ s @ d'" "length d \<le> length a"
    and "length a + length t \<le> length d + length s"
  shows "sublist t s"
proof -
  have "drop (length d) (d @ s @ d') = drop (length d) (a @ t @ a' @ b)"
    using assms(1,2) by simp
  then have "take (length s) (s @ d') = take (length s) (drop (length d) a @ t @ a' @ b)"
    using assms(3) by simp
  then have "s = drop (length d) a @ t @ take (length s - (length a - length d) - length t) (a' @ b)"
    using assms(3,4) by simp
  then show ?thesis by (metis sublist_def)
qed

lemma new_occurrence_later:
  assumes ind: "specs_independent specs" and st: "s \<in> set specs" "t \<in> set specs"
    and t: "find_str x (spec_open t) = Some i"
    and s: "find_str x (spec_open s) = None" "find_str (x @ b) (spec_open s) = Some j"
  shows "i < j"
proof (rule ccontr)
  assume "\<not> i < j"
  obtain a a' where a: "x = a @ spec_open t @ a'" "length a = i" using find_str_Some [OF t] by blast
  obtain d d' where d: "x @ b = d @ spec_open s @ d'" "length d = j"
    using find_str_Some [OF s(2)] by blast
  have "\<not> j + length (spec_open s) \<le> length x"
  proof
    assume "j + length (spec_open s) \<le> length x"
    then have "take (length x) (x @ b) = d @ spec_open s @ take (length x - j - length (spec_open s)) d'"
      unfolding d(1) using d(2) by simp
    then have "x = d @ spec_open s @ take (length x - j - length (spec_open s)) d'" by simp
    then show False using s(1) by (metis find_str_None sublist_def)
  qed
  moreover have "i + length (spec_open t) \<le> length x" using find_str_le [OF t] .
  ultimately have "sublist (spec_open t) (spec_open s)"
    using occurrence_inside [OF a(1) d(1)] a(2) d(2) \<open>\<not> i < j\<close> by simp
  then have "spec_open t = spec_open s" using ind st by (simp add: specs_independent_def)
  with t s(1) show False by simp
qed

lemma find_next_open_append:
  assumes ind: "specs_independent specs" and x: "find_next_open specs x = Some (pos, idx)"
  shows "find_next_open specs (x @ b) = Some (pos, idx)"
proof -
  from x obtain len where m: "min_candidate (open_candidates x 0 specs) = Some (pos, len, idx)"
    by (auto simp: find_next_open_def)
  then have "(pos, len, idx) \<in> set (open_candidates x 0 specs)" by (rule min_candidate_in)
  then have t: "idx < length specs" "len = length (spec_open (specs ! idx))"
      "find_str x (spec_open (specs ! idx)) = Some pos"
    by (auto simp: open_candidates_in)
  have "min_candidate (open_candidates (x @ b) 0 specs) = Some (pos, len, idx)"
    unfolding min_candidate_Some
  proof (intro conjI ballI)
    show "(pos, len, idx) \<in> set (open_candidates (x @ b) 0 specs)"
      using t by (simp add: open_candidates_in find_str_append)
    fix c assume c: "c \<in> set (open_candidates (x @ b) 0 specs)"
    obtain j l k where cc: "c = (j, l, k)" by (metis prod_cases3)
    with c have k: "k < length specs" "l = length (spec_open (specs ! k))"
        "find_str (x @ b) (spec_open (specs ! k)) = Some j"
      by (auto simp: open_candidates_in)
    show "c = (pos, len, idx) \<or> precedes (pos, len, idx) c"
    proof (cases "find_str x (spec_open (specs ! k))")
      case None
      from new_occurrence_later [OF ind _ _ t(3) None k(3)] k(1) t(1) show ?thesis by (simp add: cc)
    next
      case (Some j')
      then have "j' = j" using find_str_append [OF Some, of b] k(3) by simp
      then have "c \<in> set (open_candidates x 0 specs)" using Some k cc by (simp add: open_candidates_in)
      with m show ?thesis by (auto simp: min_candidate_Some)
    qed
  qed
  then show ?thesis by (simp add: find_next_open_def)
qed

lemma open_candidates_shift:
  assumes "\<And>spec. spec \<in> set specs \<Longrightarrow>
    find_str u (spec_open spec) = map_option (\<lambda>i. n + i) (find_str v (spec_open spec))"
  shows "open_candidates u k specs = map (\<lambda>(pos, r). (n + pos, r)) (open_candidates v k specs)"
  using assms by (induction specs arbitrary: k) (auto split: option.split)

lemma min_candidate_shift:
  "min_candidate (map (\<lambda>(pos, r). (n + pos, r)) cs) =
    map_option (\<lambda>(pos, r). (n + pos, r)) (min_candidate cs)"
proof (induction cs)
  case (Cons c cs)
  have "precedes (n + pos, r) (n + pos', r') \<longleftrightarrow> precedes (pos, r) (pos', r')" for pos r pos' r'
    by (cases r; cases r') auto
  then show ?case using Cons by (auto split: option.split prod.split)
qed simp

lemma find_next_open_shift:
  assumes "\<And>spec. spec \<in> set specs \<Longrightarrow>
    find_str u (spec_open spec) = map_option (\<lambda>i. n + i) (find_str v (spec_open spec))"
  shows "find_next_open specs u = map_option (\<lambda>(pos, idx). (n + pos, idx)) (find_next_open specs v)"
  using open_candidates_shift [OF assms]
  by (simp add: find_next_open_def min_candidate_shift option.map_comp comp_def split_beta)

section \<open>Cutting the input\<close>

lemma max_open_ge:
  "spec \<in> set specs \<Longrightarrow>
   longest_suffix_prefix_len pend (spec_open spec) \<le> max_open_prefix_suffix_len specs pend"
  by (induction specs) (auto simp: max_open_prefix_suffix_len_def le_max_iff_disj)

lemma max_open_le: "max_open_prefix_suffix_len specs pend \<le> length pend"
  using longest_suffix_prefix(2) by (induction specs) (auto simp: max_open_prefix_suffix_len_def)

lemma max_open_cong:
  "(\<And>spec. spec \<in> set specs \<Longrightarrow> longest_suffix_prefix_len u (spec_open spec) =
     longest_suffix_prefix_len v (spec_open spec)) \<Longrightarrow>
   max_open_prefix_suffix_len specs u = max_open_prefix_suffix_len specs v"
  by (simp add: max_open_prefix_suffix_len_def cong: map_cong)

lemma push_loop_wait_active:
  assumes "enough (active_close a) y p" "find_str (y @ p) (active_close a) = None"
  shows "push_loop specs (Some a) (y @ p @ b) out =
    push_loop specs (Some (a\<lparr> active_content := active_content a @ y \<rparr>)) (p @ b) out"
proof -
  have find: "find_str (y @ p @ b) (active_close a) =
      map_option (\<lambda>i. length y + i) (find_str (p @ b) (active_close a))"
    using assms by (intro find_str_enough) (auto simp: find_str_None)
  have keep: "longest_suffix_prefix_len (y @ p @ b) (active_close a) =
      longest_suffix_prefix_len (p @ b) (active_close a)"
    by (rule longest_suffix_prefix_enough [OF assms(1)])
  show ?thesis
  proof (cases "find_str (p @ b) (active_close a)")
    case None
    let ?k = "longest_suffix_prefix_len (p @ b) (active_close a)"
    have "?k \<le> length (p @ b)" by (rule longest_suffix_prefix(2))
    with None find keep show ?thesis by (simp add: Let_def)
  next
    case (Some i)
    with find show ?thesis by (simp add: end_tag_def)
  qed
qed

lemma push_loop_wait_open:
  assumes "\<And>spec. spec \<in> set specs \<Longrightarrow> enough (spec_open spec) y p"
    and none: "find_next_open specs (y @ p) = None" and ind: "specs_independent specs"
  shows "push_loop specs None (y @ p @ b) out =
    push_loop specs None (p @ b) (out\<lparr> visible_text := visible_text out @ y \<rparr>)"
proof -
  have find: "find_next_open specs (y @ p @ b) =
      map_option (\<lambda>(pos, idx). (length y + pos, idx)) (find_next_open specs (p @ b))"
    using assms(1) none
    by (intro find_next_open_shift find_str_enough) (auto simp: find_next_open_None)
  have keep: "max_open_prefix_suffix_len specs (y @ p @ b) =
      max_open_prefix_suffix_len specs (p @ b)"
    by (intro max_open_cong longest_suffix_prefix_enough assms(1))
  show ?thesis
  proof (cases "find_next_open specs (p @ b)")
    case None
    let ?k = "max_open_prefix_suffix_len specs (p @ b)"
    have "?k \<le> length (p @ b)" by (rule max_open_le)
    with None find keep show ?thesis by (simp add: Let_def)
  next
    case (Some r)
    obtain i k where r: "r = (i, k)" by fastforce
    have "spec_open (specs ! k) \<noteq> []"
      using find_next_open_Some [of specs "p @ b" i k] Some r ind by (simp add: specs_independent_def)
    with Some find r show ?thesis by (simp add: Let_def)
  qed
qed

lemma push_loop_append:
  assumes "specs_independent specs"
  shows "push_loop specs act (x @ b) out =
    (case push_loop specs act x out of (out1, act1, p1) \<Rightarrow> push_loop specs act1 (p1 @ b) out1)"
  using assms
proof (induction specs act x out rule: push_loop.induct)
  case (1 specs a pend out)
  show ?case
  proof (cases "find_str pend (active_close a)")
    case None
    let ?tk = "length pend - longest_suffix_prefix_len pend (active_close a)"
    have e: "enough (active_close a) (take ?tk pend) (drop ?tk pend)"
      using longest_suffix_prefix(2) [of pend "active_close a"] by (intro enoughI) simp
    have stop: "push_loop specs (Some a) pend out =
        (out, Some (a\<lparr> active_content := active_content a @ take ?tk pend \<rparr>), drop ?tk pend)"
      using None by (simp add: Let_def)
    have split: "pend @ b = take ?tk pend @ drop ?tk pend @ b" by simp
    show ?thesis unfolding stop prod.case
      by (subst split, rule push_loop_wait_active [OF e]) (simp add: None)
  next
    case (Some i)
    have "i + length (active_close a) \<le> length pend" using find_str_le [OF Some] .
    with Some 1 show ?thesis by (simp add: find_str_append)
  qed
next
  case (2 specs pend out)
  show ?case
  proof (cases "find_next_open specs pend")
    case None
    let ?tk = "length pend - max_open_prefix_suffix_len specs pend"
    have "length (drop ?tk pend) = max_open_prefix_suffix_len specs pend"
      using max_open_le [of specs pend] by simp
    then have e: "enough (spec_open spec) (take ?tk pend) (drop ?tk pend)" if "spec \<in> set specs" for spec
      using max_open_ge [OF that, of pend] by (intro enoughI) simp
    have stop: "push_loop specs None pend out =
        (out\<lparr> visible_text := visible_text out @ take ?tk pend \<rparr>, None, drop ?tk pend)"
      using None by (simp add: Let_def)
    have split: "pend @ b = take ?tk pend @ drop ?tk pend @ b" by simp
    show ?thesis unfolding stop prod.case
      by (subst split, rule push_loop_wait_open [OF e]) (simp_all add: None 2(2))
  next
    case (Some r)
    obtain i k where r: "r = (i, k)" by fastforce
    note found = find_next_open_Some [of specs pend i k]
    from found Some r have le: "i + length (spec_open (specs ! k)) \<le> length pend"
      using find_str_le by blast
    have "spec_open (specs ! k) \<noteq> []"
      using found Some r 2(2) by (simp add: specs_independent_def)
    with 2 Some r le find_next_open_append [OF 2(2), of pend i k b] show ?thesis
      by (simp add: Let_def)
  qed
qed

text \<open>The output so far is only appended to.\<close>

lemma append_chunk_update:
  "(append_chunk a b)\<lparr> extracted := extracted a @ xs \<rparr> = append_chunk a (b\<lparr> extracted := xs \<rparr>)"
  "(append_chunk a b)\<lparr> visible_text := visible_text a @ t \<rparr> = append_chunk a (b\<lparr> visible_text := t \<rparr>)"
  by (simp_all add: append_chunk_def)

lemma push_loop_out:
  "push_loop specs act x (append_chunk o1 out) =
    (case push_loop specs act x out of (o', act', p) \<Rightarrow> (append_chunk o1 o', act', p))"
proof (induction specs act x out rule: push_loop.induct)
  case (1 specs a pend out)
  then show ?case by (simp add: append_chunk_update Let_def split: option.split)
next
  case (2 specs pend out)
  then show ?case by (auto simp: append_chunk_update Let_def split: option.split)
qed

lemma push_loop_default:
  "push_loop specs act x out =
    (case push_loop specs act x default_chunk of (o', act', p) \<Rightarrow> (append_chunk out o', act', p))"
  using push_loop_out [of specs act x out default_chunk] by simp

section \<open>The contract of the parser\<close>

text \<open>Nothing is left to do with the pending text.\<close>

definition tag_parser_inv :: "'t inline_hidden_tag_parser \<Rightarrow> bool" where
  "tag_parser_inv p \<longleftrightarrow> specs_independent (tag_specs p) \<and>
     push_loop (tag_specs p) (active p) (pending p) default_chunk =
       (default_chunk, active p, pending p)"

lemma append_chunk_cancel: "append_chunk a b = a \<longleftrightarrow> b = default_chunk"
  by (cases a; cases b) (auto simp: append_chunk_def default_chunk_def)

lemma push_loop_idem:
  assumes "specs_independent specs" "push_loop specs act x out = (out1, act1, p1)"
  shows "push_loop specs act1 p1 default_chunk = (default_chunk, act1, p1)"
proof -
  have "push_loop specs act1 p1 out1 = (out1, act1, p1)"
    using push_loop_append [OF assms(1), of act x "[]" out] assms(2) by simp
  then show ?thesis
    using push_loop_default [of specs act1 p1 out1]
    by (auto simp: append_chunk_cancel split: prod.splits)
qed

lemma push_str_inv: "tag_parser_inv p \<Longrightarrow> tag_parser_inv (snd (push_str p a))"
  using push_loop_idem
  by (cases "push_loop (tag_specs p) (active p) (pending p @ a) default_chunk")
     (auto simp: tag_parser_inv_def push_str_def)

lemma push_str_nil: "tag_parser_inv p \<Longrightarrow> push_str p [] = (default_chunk, p)"
  by (simp add: tag_parser_inv_def push_str_def)

lemma push_str_append:
  assumes "tag_parser_inv p"
  shows "push_str p (a @ b) =
    (append_chunk (fst (push_str p a)) (fst (push_str (snd (push_str p a)) b)),
     snd (push_str (snd (push_str p a)) b))"
proof -
  obtain o1 act1 p1 where l: "push_loop (tag_specs p) (active p) (pending p @ a) default_chunk =
      (o1, act1, p1)" by (metis prod_cases3)
  obtain o2 act2 p2 where r: "push_loop (tag_specs p) act1 (p1 @ b) default_chunk = (o2, act2, p2)"
    by (metis prod_cases3)
  have "push_loop (tag_specs p) (active p) ((pending p @ a) @ b) default_chunk =
      (append_chunk o1 o2, act2, p2)"
    using assms l r push_loop_append [of "tag_specs p" "active p" "pending p @ a" b default_chunk]
      push_loop_default [of "tag_specs p" act1 "p1 @ b" o1]
    by (simp add: tag_parser_inv_def)
  with l r show ?thesis by (simp add: push_str_def)
qed

lemma new_parser_inv:
  assumes "new_parser specs = Some p" "specs_independent specs"
  shows "tag_parser_inv p"
proof -
  have p: "p = \<lparr> tag_specs = specs, pending = [], active = None \<rparr>"
    using assms(1) by (auto simp: new_parser_def split: if_splits)
  have "find_next_open specs [] = None"
    using assms(2) by (auto simp: find_next_open_None specs_independent_def)
  then show ?thesis using assms(2) by (simp add: p tag_parser_inv_def Let_def)
qed

lemma finish_tags_inv: "tag_parser_inv p \<Longrightarrow> tag_parser_inv (snd (finish_tags p))"
proof -
  assume "tag_parser_inv p"
  then have ind: "specs_independent (tag_specs p)" by (simp add: tag_parser_inv_def)
  then have "find_next_open (tag_specs p) [] = None"
    by (auto simp: find_next_open_None specs_independent_def)
  with ind show ?thesis
    by (simp add: finish_tags_def tag_parser_inv_def Let_def split: option.split)
qed

interpretation tags: stream_text_parser push_str finish_tags tag_parser_inv "\<lambda>xs. xs"
proof
  show "tag_parser_inv (snd (push_str p a))" if "tag_parser_inv p"
    for p :: "'a inline_hidden_tag_parser" and a using that by (rule push_str_inv)
  show "tag_parser_inv (snd (finish_tags p))" if "tag_parser_inv p"
    for p :: "'a inline_hidden_tag_parser" using that by (rule finish_tags_inv)
  show "push_str p [] = (default_chunk, p)" if "tag_parser_inv p"
    for p :: "'a inline_hidden_tag_parser" using that by (rule push_str_nil)
  show "snd (push_str p (a @ b)) = snd (push_str (snd (push_str p a)) b) \<and>
      same_chunk (\<lambda>xs. xs) (fst (push_str p (a @ b)))
        (append_chunk (fst (push_str p a)) (fst (push_str (snd (push_str p a)) b)))"
    if "tag_parser_inv p" for p :: "'a inline_hidden_tag_parser" and a b
    using push_str_append [OF that, of a b] by (simp del: append_chunk_sel)
qed simp

section \<open>Properties\<close>

lemmas tag_eval = push_str_def finish_tags_def new_parser_def find_next_open_def
  max_open_prefix_suffix_len_def longest_suffix_prefix_len_def start_tag_def end_tag_def
  starts_with_def ends_with_def default_chunk_def append_chunk_def stream_run_def lit_def Let_def
  upt_rec

definition sample_specs :: "nat inline_tag_spec list" where
  "sample_specs =
     [\<lparr> spec_tag = 0, spec_open = lit ''<a>'', spec_close = lit ''</a>'' \<rparr>,
      \<lparr> spec_tag = 1, spec_open = lit ''<b>'', spec_close = lit ''</b>'' \<rparr>]"

lemma sample_specs_independent: "specs_independent sample_specs"
  by (simp add: specs_independent_def sample_specs_def lit_def sublist_Cons_right)

text \<open>
  C14. For opening delimiters that do not occur in one another, the parser of hidden tags gives
  the same visible text, the same payloads and the same final state however the text was cut
  into chunks.
\<close>

theorem hidden_tags_rechunk:
  assumes "new_parser specs = Some p" "specs_independent specs" "concat cs = concat ds"
  shows "stream_run push_str finish_tags p cs = stream_run push_str finish_tags p ds"
  using tags.stream_run_rechunk [OF new_parser_inv [OF assms(1,2)] assms(3)]
  by (intro prod_eqI stream_text_chunk.equality) (auto simp: same_chunk_def)

theorem hidden_tags_rechunk_witness:
  "\<exists>p. new_parser sample_specs = Some p \<and>
     stream_run push_str finish_tags p [lit ''x<'', lit ''a>y</a'', lit ''>z''] =
     stream_run push_str finish_tags p [lit ''x<a>y</a>z'']"
proof -
  obtain p where p: "new_parser sample_specs = Some p"
    by (simp add: new_parser_def sample_specs_def lit_def)
  have "concat [lit ''x<'', lit ''a>y</a'', lit ''>z''] = concat [lit ''x<a>y</a>z'']"
    by (simp add: lit_def)
  from hidden_tags_rechunk [OF p sample_specs_independent this] p show ?thesis by blast
qed

text \<open>
  A limit of the code: when one opening delimiter begins another, the longer one is preferred
  only if both are in the buffer, so that the same text is read differently in two chunks.
\<close>

lemma prefix_delimiters_rechunk:
  "extracted (fst (stream_run push_str finish_tags
     \<lparr> tag_specs = [\<lparr> spec_tag = 0, spec_open = lit ''<a'', spec_close = lit ''>'' \<rparr>,
          \<lparr> spec_tag = (1::nat), spec_open = lit ''<ab'', spec_close = lit ''>'' \<rparr>],
       pending = [], active = None \<rparr> [lit ''<ab>''])) =
     [\<lparr> extracted_tag = 1, extracted_content = [] \<rparr>]"
  "extracted (fst (stream_run push_str finish_tags
     \<lparr> tag_specs = [\<lparr> spec_tag = 0, spec_open = lit ''<a'', spec_close = lit ''>'' \<rparr>,
          \<lparr> spec_tag = (1::nat), spec_open = lit ''<ab'', spec_close = lit ''>'' \<rparr>],
       pending = [], active = None \<rparr> [lit ''<a'', lit ''b>''])) =
     [\<lparr> extracted_tag = 0, extracted_content = lit ''b'' \<rparr>]"
  by (simp_all add: tag_eval)

end
