(* ===== verification/Citation.thy ===== *)
theory Citation
  imports Inline_Hidden_Tag
begin

text \<open>
  The parser of memory citations, \<^verbatim>\<open>utils/stream-parser/src/citation.rs\<close>: one hidden tag of
  \<open>Inline_Hidden_Tag\<close>.  It meets the contract of \<open>Stream_Text\<close>, and a stream in any chunks
  gives what a recursion over the complete text gives.
\<close>

section \<open>Citations\<close>

datatype citation_tag = Citation

definition CITATION_OPEN :: str where "CITATION_OPEN = lit ''<oai-mem-citation>''"
definition CITATION_CLOSE :: str where "CITATION_CLOSE = lit ''</oai-mem-citation>''"

record citation_stream_parser =
  citation_inner :: "citation_tag inline_hidden_tag_parser"

definition citation_specs :: "citation_tag inline_tag_spec list" where
  "citation_specs =
     [\<lparr> spec_tag = Citation, spec_open = CITATION_OPEN, spec_close = CITATION_CLOSE \<rparr>]"

definition new_citation_parser :: citation_stream_parser where
  "new_citation_parser = \<lparr> citation_inner = the (new_parser citation_specs) \<rparr>"

definition citation_chunk :: "citation_tag tag_chunk \<Rightarrow> str stream_text_chunk" where
  "citation_chunk c =
     \<lparr> visible_text = visible_text c, extracted = map extracted_content (extracted c) \<rparr>"

definition citation_push ::
    "citation_stream_parser \<Rightarrow> str \<Rightarrow> str stream_text_chunk \<times> citation_stream_parser" where
  "citation_push p chunk =
     (let (out, q) = push_str (citation_inner p) chunk
      in (citation_chunk out, p\<lparr> citation_inner := q \<rparr>))"

definition citation_finish ::
    "citation_stream_parser \<Rightarrow> str stream_text_chunk \<times> citation_stream_parser" where
  "citation_finish p =
     (let (out, q) = finish_tags (citation_inner p)
      in (citation_chunk out, p\<lparr> citation_inner := q \<rparr>))"

definition strip_citations :: "str \<Rightarrow> str \<times> str list" where
  "strip_citations text =
     (let (out, p) = citation_push new_citation_parser text; (tail, _) = citation_finish p
      in (visible_text out @ visible_text tail, extracted out @ extracted tail))"

definition citation_inv :: "citation_stream_parser \<Rightarrow> bool" where
  "citation_inv p \<longleftrightarrow> tag_parser_inv (citation_inner p)"

lemma citation_independent: "specs_independent citation_specs"
  by (simp add: specs_independent_def citation_specs_def CITATION_OPEN_def CITATION_CLOSE_def lit_def)

lemma new_citation_parser_eq:
  "new_citation_parser =
    \<lparr> citation_inner = \<lparr> tag_specs = citation_specs, pending = [], active = None \<rparr> \<rparr>"
  by (simp add: new_citation_parser_def new_parser_def citation_specs_def CITATION_OPEN_def
      CITATION_CLOSE_def lit_def)

lemma new_citation_inv: "citation_inv new_citation_parser"
  using new_parser_inv [OF _ citation_independent]
  by (simp add: citation_inv_def new_citation_parser_eq new_parser_def citation_specs_def
      CITATION_OPEN_def CITATION_CLOSE_def lit_def)

lemma citation_chunk_append:
  "citation_chunk (append_chunk a b) = append_chunk (citation_chunk a) (citation_chunk b)"
  by (simp add: citation_chunk_def append_chunk_def)

interpretation citations: stream_text_parser citation_push citation_finish citation_inv "\<lambda>xs. xs"
proof
  show "citation_inv (snd (citation_push p a))" if "citation_inv p" for p a
    using that push_str_inv [of "citation_inner p" a]
    by (simp add: citation_inv_def citation_push_def split_beta)
  show "citation_inv (snd (citation_finish p))" if "citation_inv p" for p
    using that finish_tags_inv [of "citation_inner p"]
    by (simp add: citation_inv_def citation_finish_def split_beta)
  show "citation_push p [] = (default_chunk, p)" if "citation_inv p" for p
    using that push_str_nil [of "citation_inner p"]
    by (simp add: citation_inv_def citation_push_def citation_chunk_def default_chunk_def)
  show "snd (citation_push p (a @ b)) = snd (citation_push (snd (citation_push p a)) b) \<and>
      same_chunk (\<lambda>xs. xs) (fst (citation_push p (a @ b)))
        (append_chunk (fst (citation_push p a)) (fst (citation_push (snd (citation_push p a)) b)))"
    if "citation_inv p" for p a b
    using that push_str_append [of "citation_inner p" a b]
    by (simp add: citation_inv_def citation_push_def split_beta citation_chunk_append
        del: append_chunk_sel)
qed simp

section \<open>The reference\<close>

text \<open>What is hidden, by recursion on the complete text.\<close>

function hidden_tags :: "str \<Rightarrow> str \<Rightarrow> str \<Rightarrow> str \<times> str list" where
  "hidden_tags op cl text =
     (if op = [] then (text, [])
      else case find_str text op of
        None \<Rightarrow> (text, [])
      | Some i \<Rightarrow>
          (let rest = drop (i + length op) text in
           case find_str rest cl of
             None \<Rightarrow> (take i text, [rest])
           | Some j \<Rightarrow>
               (let (vis, tags) = hidden_tags op cl (drop (j + length cl) rest)
                in (take i text @ vis, take j rest # tags))))"
  by pat_completeness auto

termination hidden_tags
proof (relation "measure (\<lambda>(op, cl, t). length t)", goal_cases)
  case (2 op cl t i rest j)
  then show ?case using find_str_le [of t op i] by (cases op) auto
qed simp

declare hidden_tags.simps [simp del]

lemma find_next_open_single:
  "find_next_open [spec] pend = map_option (\<lambda>i. (i, 0)) (find_str pend (spec_open spec))"
  by (simp add: find_next_open_def split: option.split)

lemma push_finish_hidden:
  assumes "spec_open spec \<noteq> []"
    and "push_loop [spec] None t default_chunk = (out, act, pend)"
    and "finish_tags \<lparr> tag_specs = [spec], pending = pend, active = act \<rparr> = (tail, q)"
  shows "(visible_text out @ visible_text tail,
      map extracted_content (extracted out @ extracted tail)) =
    hidden_tags (spec_open spec) (spec_close spec) t"
  using assms(2,3)
proof (induction "spec_open spec" "spec_close spec" t arbitrary: out act pend tail q
    rule: hidden_tags.induct)
  case (1 t)
  note defs = hidden_tags.simps [of _ _ t] find_next_open_single finish_tags_def end_tag_def
    start_tag_def default_chunk_def Let_def
  show ?case
  proof (cases "find_str t (spec_open spec)")
    case None
    with 1(2,3) assms(1) show ?thesis by (auto simp: defs)
  next
    case (Some i)
    let ?rest = "drop (i + length (spec_open spec)) t"
    show ?thesis
    proof (cases "find_str ?rest (spec_close spec)")
      case None
      with 1(2,3) Some assms(1) show ?thesis by (auto simp: defs simp del: drop_drop)
    next
      case close: (Some j)
      let ?rest2 = "drop (j + length (spec_close spec)) ?rest"
      obtain o2 act2 p2 where o2: "push_loop [spec] None ?rest2 default_chunk = (o2, act2, p2)"
        by (metis prod_cases3)
      let ?o1 = "\<lparr> visible_text = take i t, extracted = [\<lparr> extracted_tag = spec_tag spec,
          extracted_content = take j ?rest \<rparr>] \<rparr>"
      have "push_loop [spec] None t default_chunk = push_loop [spec] None ?rest2 ?o1"
        using Some close assms(1) by (simp add: find_next_open_single start_tag_def end_tag_def
            default_chunk_def Let_def)
      with o2 1(2) have res: "out = append_chunk ?o1 o2" "act = act2" "pend = p2"
        using push_loop_default [of "[spec]" None ?rest2 ?o1] by auto
      have "(visible_text o2 @ visible_text tail,
          map extracted_content (extracted o2 @ extracted tail)) =
        hidden_tags (spec_open spec) (spec_close spec) ?rest2"
        by (rule 1(1) [OF assms(1) Some refl close o2]) (use 1(3) res in simp)
      from this [symmetric] show ?thesis using res Some close assms(1) by (auto simp: hidden_tags.simps [of _ _ t] Let_def)
    qed
  qed
qed

lemma strip_citations_hidden:
  "strip_citations t = hidden_tags CITATION_OPEN CITATION_CLOSE t"
proof -
  let ?spec = "\<lparr> spec_tag = Citation, spec_open = CITATION_OPEN, spec_close = CITATION_CLOSE \<rparr>"
  obtain out act pend where l: "push_loop [?spec] None t default_chunk = (out, act, pend)"
    by (metis prod_cases3)
  obtain tail q where f: "finish_tags \<lparr> tag_specs = [?spec], pending = pend, active = act \<rparr> = (tail, q)"
    by fastforce
  have "CITATION_OPEN \<noteq> []" by (simp add: CITATION_OPEN_def lit_def)
  with push_finish_hidden [OF _ l f] l f show ?thesis
    by (simp add: strip_citations_def citation_push_def citation_finish_def new_citation_parser_eq
        push_str_def citation_specs_def citation_chunk_def)
qed

lemma citation_stream_hidden:
  "(case stream_run citation_push citation_finish new_citation_parser cs of (out, _) \<Rightarrow>
      (visible_text out, extracted out)) =
   hidden_tags CITATION_OPEN CITATION_CLOSE (concat cs)"
proof -
  have "same_chunk (\<lambda>xs. xs) (fst (stream_run citation_push citation_finish new_citation_parser cs))
      (fst (stream_run citation_push citation_finish new_citation_parser [concat cs]))"
    using citations.stream_run_rechunk [OF new_citation_inv, of cs "[concat cs]"] by simp
  then show ?thesis
    using strip_citations_hidden [of "concat cs"]
    by (simp add: same_chunk_def strip_citations_def stream_run_def split_beta)
qed

section \<open>Properties\<close>

text \<open>
  C23. The citation parser, fed a text in any chunks and then finished, shows and extracts
  exactly what the recursive reference hides in the complete text: the bodies between each
  first opening delimiter and the first closing delimiter after it, with an open one closed
  at the end.
\<close>

theorem citations_match_reference:
  "(case stream_run citation_push citation_finish new_citation_parser cs of (out, _) \<Rightarrow>
      (visible_text out, extracted out)) =
   hidden_tags CITATION_OPEN CITATION_CLOSE (concat cs)"
  by (rule citation_stream_hidden)

fun with_citations :: "str \<Rightarrow> (str \<times> str) list \<Rightarrow> str" where
  "with_citations v [] = v"
| "with_citations v ((c, v') # rest) =
     v @ CITATION_OPEN @ c @ CITATION_CLOSE @ with_citations v' rest"

text \<open>
  Marking up a text with citations and stripping them is the identity: when no delimiter
  arises by accident in the text or in the bodies, the visible text and the bodies come back.
\<close>

theorem strip_citations_roundtrip:
  assumes "\<forall>u \<in> set (butlast (v # map snd ps)).
      find_str (u @ CITATION_OPEN) CITATION_OPEN = Some (length u)"
    and "find_str (last (v # map snd ps)) CITATION_OPEN = None"
    and "\<forall>c \<in> set (map fst ps). find_str (c @ CITATION_CLOSE) CITATION_CLOSE = Some (length c)"
  shows "strip_citations (with_citations v ps) = (v @ concat (map snd ps), map fst ps)"
proof -
  have ne: "CITATION_OPEN \<noteq> []" by (simp add: CITATION_OPEN_def lit_def)
  have "hidden_tags CITATION_OPEN CITATION_CLOSE (with_citations v ps) =
      (v @ concat (map snd ps), map fst ps)"
    using assms
  proof (induction v ps rule: with_citations.induct)
    case (1 v)
    then show ?case using ne by (simp add: hidden_tags.simps)
  next
    case (2 v c v' rest)
    have "find_str ((v @ CITATION_OPEN) @ c @ CITATION_CLOSE @ with_citations v' rest)
        CITATION_OPEN = Some (length v)"
      by (rule find_str_append) (use 2(2) in simp)
    moreover have "find_str ((c @ CITATION_CLOSE) @ with_citations v' rest) CITATION_CLOSE =
        Some (length c)"
      by (rule find_str_append) (use 2(4) in simp)
    ultimately show ?case
      using 2 ne by (simp add: hidden_tags.simps [of _ _ "_ @ _"] Let_def)
  qed
  then show ?thesis by (simp add: strip_citations_hidden)
qed

theorem strip_citations_roundtrip_witness:
  "strip_citations (with_citations (lit ''a '') [(lit ''doc'', lit '' b'')]) =
    (lit ''a  b'', [lit ''doc''])"
  using strip_citations_roundtrip [of "lit ''a ''" "[(lit ''doc'', lit '' b'')]"]
  by (simp add: CITATION_OPEN_def CITATION_CLOSE_def lit_def starts_with_def)

end
