(* ===== verification/Tagged_Line.thy ===== *)
theory Tagged_Line
  imports Stream_Text
begin

text \<open>
  Tags that stand alone on a line, \<^verbatim>\<open>utils/stream-parser/src/tagged_line_parser.rs\<close>.  The
  parser keeps a line back as long as it may be a tag.  Two lemmas carry the rest: how the
  input is cut shows only in how text is spread over segments, which \<^verbatim>\<open>push_segment\<close>
  joins again; and the segments of a complete text are those of a reference that looks at
  whole lines.
\<close>

section \<open>Model\<close>

record 't tag_spec =
  tag_open :: str
  tag_close :: str
  line_tag :: 't

datatype 't tagged_line_segment =
  Normal str
| TagStart 't
| TagDelta 't str
| TagEnd 't

record 't tagged_line_parser =
  line_specs :: "'t tag_spec list"
  current_tag :: "'t option"
  detect_tag :: bool
  held_line :: str

definition new_line_parser :: "'t tag_spec list \<Rightarrow> 't tagged_line_parser" where
  "new_line_parser specs =
     \<lparr> line_specs = specs, current_tag = None, detect_tag = True, held_line = [] \<rparr>"

definition last_segment :: "'a list \<Rightarrow> 'a option" where
  "last_segment xs = (if xs = [] then None else Some (last xs))"

definition push_segment ::
    "'t tagged_line_segment list \<Rightarrow> 't tagged_line_segment \<Rightarrow> 't tagged_line_segment list" where
  "push_segment segments segment =
     (case segment of
        Normal delta \<Rightarrow>
          if delta = [] then segments
          else (case last_segment segments of
                  Some (Normal existing) \<Rightarrow> butlast segments @ [Normal (existing @ delta)]
                | _ \<Rightarrow> segments @ [Normal delta])
      | TagDelta tag delta \<Rightarrow>
          if delta = [] then segments
          else (case last_segment segments of
                  Some (TagDelta existing_tag existing) \<Rightarrow>
                    if existing_tag = tag
                    then butlast segments @ [TagDelta existing_tag (existing @ delta)]
                    else segments @ [TagDelta tag delta]
                | _ \<Rightarrow> segments @ [TagDelta tag delta])
      | TagStart tag \<Rightarrow> segments @ [TagStart tag]
      | TagEnd tag \<Rightarrow> segments @ [TagEnd tag])"

text \<open>The methods of the parser that read only its active tag and its specifications.\<close>

definition text_segment :: "'t option \<Rightarrow> str \<Rightarrow> 't tagged_line_segment" where
  "text_segment act s = (case act of Some tag \<Rightarrow> TagDelta tag s | None \<Rightarrow> Normal s)"

definition push_text ::
    "'t option \<Rightarrow> str \<Rightarrow> 't tagged_line_segment list \<Rightarrow> 't tagged_line_segment list" where
  "push_text act s segments = push_segment segments (text_segment act s)"

definition is_tag_prefix :: "'t tag_spec list \<Rightarrow> str \<Rightarrow> bool" where
  "is_tag_prefix specs slug =
     (let slug = trim_end slug in
      list_ex (\<lambda>spec. starts_with (tag_open spec) slug \<or> starts_with (tag_close spec) slug) specs)"

definition match_open :: "'t tag_spec list \<Rightarrow> str \<Rightarrow> 't option" where
  "match_open specs slug = map_option line_tag (List.find (\<lambda>spec. tag_open spec = slug) specs)"

definition match_close :: "'t tag_spec list \<Rightarrow> str \<Rightarrow> 't option" where
  "match_close specs slug = map_option line_tag (List.find (\<lambda>spec. tag_close spec = slug) specs)"

text \<open>
  What a whole line does, with its newline or, at the end of the input, without: the part that
  \<^verbatim>\<open>finish_line\<close> and \<^verbatim>\<open>finish\<close> share.
\<close>

definition end_line ::
    "'t tag_spec list \<Rightarrow> str \<Rightarrow> 't option \<times> 't tagged_line_segment list \<Rightarrow>
     't option \<times> 't tagged_line_segment list" where
  "end_line specs line st =
     (case st of (act, segments) \<Rightarrow>
        let without_newline = (case strip_suffix line [nl] of Some l \<Rightarrow> l | None \<Rightarrow> line);
            slug = trim_end (trim_start without_newline) in
        case match_open specs slug of
          Some tag \<Rightarrow>
            if act = None then (Some tag, push_segment segments (TagStart tag))
            else (case match_close specs slug of
                    Some tag \<Rightarrow>
                      if act = Some tag then (None, push_segment segments (TagEnd tag))
                      else (act, push_text act line segments)
                  | None \<Rightarrow> (act, push_text act line segments))
        | None \<Rightarrow>
            (case match_close specs slug of
               Some tag \<Rightarrow>
                 if act = Some tag then (None, push_segment segments (TagEnd tag))
                 else (act, push_text act line segments)
             | None \<Rightarrow> (act, push_text act line segments)))"

definition finish_line ::
    "'t tagged_line_parser \<Rightarrow> 't tagged_line_segment list \<Rightarrow>
     't tagged_line_parser \<times> 't tagged_line_segment list" where
  "finish_line p segments =
     (let (act, segments) = end_line (line_specs p) (held_line p) (current_tag p, segments)
      in (p\<lparr> held_line := [], current_tag := act, detect_tag := True \<rparr>, segments))"

definition flush_run ::
    "'t tagged_line_parser \<Rightarrow> str \<Rightarrow> 't tagged_line_segment list \<Rightarrow> 't tagged_line_segment list" where
  "flush_run p r segments = (if r = [] then segments else push_text (current_tag p) r segments)"

text \<open>The loop over the characters of a delta; \<open>r\<close> is the local variable \<^verbatim>\<open>run\<close>.\<close>

fun parse_loop ::
    "'t tagged_line_parser \<Rightarrow> str \<Rightarrow> 't tagged_line_segment list \<Rightarrow> str \<Rightarrow>
     't tagged_line_parser \<times> 't tagged_line_segment list" where
  "parse_loop p r segments [] = (p, flush_run p r segments)"
| "parse_loop p r segments (ch # delta) =
     (if detect_tag p then
        (let segments = flush_run p r segments;
             p = p\<lparr> held_line := held_line p @ [ch] \<rparr> in
         if ch = nl then
           (let (p, segments) = finish_line p segments in parse_loop p [] segments delta)
         else if trim_start (held_line p) = [] \<or>
                 is_tag_prefix (line_specs p) (trim_start (held_line p)) then
           parse_loop p [] segments delta
         else
           parse_loop (p\<lparr> held_line := [], detect_tag := False \<rparr>) []
             (push_text (current_tag p) (held_line p) segments) delta)
      else if ch = nl then
        parse_loop (p\<lparr> detect_tag := True \<rparr>) []
          (push_text (current_tag p) (r @ [ch]) segments) delta
      else parse_loop p (r @ [ch]) segments delta)"

definition parse_lines ::
    "'t tagged_line_parser \<Rightarrow> str \<Rightarrow> 't tagged_line_segment list \<times> 't tagged_line_parser" where
  "parse_lines p delta = (let (p, segments) = parse_loop p [] [] delta in (segments, p))"

definition finish_lines ::
    "'t tagged_line_parser \<Rightarrow> 't tagged_line_segment list \<times> 't tagged_line_parser" where
  "finish_lines p =
     (let (act, segments) =
        (if held_line p \<noteq> [] then end_line (line_specs p) (held_line p) (current_tag p, [])
         else (current_tag p, []));
        segments = (case act of Some tag \<Rightarrow> push_segment segments (TagEnd tag) | None \<Rightarrow> segments)
      in (segments, p\<lparr> held_line := [], current_tag := None, detect_tag := True \<rparr>))"

section \<open>Joining segments\<close>

definition coalesce :: "'t tagged_line_segment list \<Rightarrow> 't tagged_line_segment list" where
  "coalesce segs = foldl push_segment [] segs"

lemma last_segment_simps [simp]:
  "last_segment [] = None" "last_segment (xs @ y # ys) = Some (last (y # ys))"
  by (simp_all add: last_segment_def)

lemma push_segment_Nil:
  "push_segment [] (text_segment act b) = (if b = [] then [] else [text_segment act b])"
  by (simp add: push_segment_def text_segment_def split: option.split)

lemma push_segment_join:
  "push_segment (xs @ [text_segment act a]) (text_segment act b) = xs @ [text_segment act (a @ b)]"
  by (cases act) (simp_all add: push_segment_def text_segment_def)

lemma push_segment_other:
  "\<forall>a. y \<noteq> text_segment act a \<Longrightarrow> push_segment (xs @ [y]) (text_segment act b) =
    (if b = [] then xs @ [y] else xs @ [y, text_segment act b])"
  by (cases act; cases y) (auto simp: push_segment_def text_segment_def)

lemma push_segment_text:
  "push_segment (push_segment S (text_segment act a)) (text_segment act b) =
    push_segment S (text_segment act (a @ b))"
proof (cases S rule: rev_cases)
  case Nil
  then show ?thesis
    using push_segment_join [of "[]" act a b] by (simp add: push_segment_Nil)
next
  case (snoc xs y)
  show ?thesis
  proof (cases "\<exists>c. y = text_segment act c")
    case True
    then show ?thesis using snoc by (auto simp: push_segment_join)
  next
    case False
    with snoc push_segment_join [of "xs @ [y]" act a b] show ?thesis
      by (simp add: push_segment_other)
  qed
qed

lemma push_segment_empty: "push_segment S (text_segment act []) = S"
  by (simp add: push_segment_def text_segment_def split: option.split)

text \<open>A segment that was already joined to a list can be added later with it.\<close>

lemma push_segment_cases:
  obtains (join) act a b ys where "xs = ys @ [text_segment act a]" "seg = text_segment act b"
  | (drop) act where "seg = text_segment act []"
  | (add) "push_segment xs seg = xs @ [seg]"
proof (cases "\<exists>act b. seg = text_segment act b")
  case True
  then obtain act b where seg: "seg = text_segment act b" by blast
  show thesis
  proof (cases xs rule: rev_cases)
    case Nil
    with seg drop add show thesis by (cases "b = []") (auto simp: push_segment_Nil)
  next
    case (snoc ys y)
    show thesis
    proof (cases "\<exists>a. y = text_segment act a")
      case True
      with snoc seg join show thesis by blast
    next
      case False
      with snoc seg drop add show thesis by (cases "b = []") (auto simp: push_segment_other)
    qed
  qed
next
  case False
  then have "\<forall>b. seg \<noteq> text_segment None b" "\<forall>t b. seg \<noteq> text_segment (Some t) b" by blast+
  with add show thesis by (cases seg) (auto simp: text_segment_def push_segment_def)
qed

lemma fold_push_segment:
  "foldl push_segment S (push_segment xs seg) = push_segment (foldl push_segment S xs) seg"
  by (cases xs seg rule: push_segment_cases) (simp_all add: push_segment_join push_segment_text push_segment_empty)

lemma fold_push_absorb:
  "foldl push_segment S (foldl push_segment xs ys) = foldl push_segment S (xs @ ys)"
  by (induction ys arbitrary: xs) (simp_all add: fold_push_segment)

lemma coalesce_append: "coalesce (xs @ ys) = coalesce (coalesce xs @ coalesce ys)"
  by (simp add: coalesce_def fold_push_absorb)

section \<open>Cutting the input\<close>

lemma push_text_split: "push_text act (a @ b) S = push_text act b (push_text act a S)"
  by (simp add: push_text_def push_segment_text)

lemma flush_run_eq: "flush_run p r S = push_text (current_tag p) r S"
  by (simp add: flush_run_def push_text_def push_segment_empty)

text \<open>The run may be flushed at any time.\<close>

lemma parse_loop_flush:
  "parse_loop p r segs cs = parse_loop p [] (flush_run p r segs) cs"
proof (induction cs arbitrary: p r segs)
  case Nil
  then show ?case by (simp add: flush_run_def)
next
  case (Cons ch cs)
  show ?case
  proof (cases "detect_tag p")
    case True
    have "flush_run p [] (flush_run p r segs) = flush_run p r segs" by (simp add: flush_run_def)
    with True show ?thesis by (simp add: Let_def)
  next
    case False
    have "parse_loop p (r @ [ch]) segs cs = parse_loop p [ch] (flush_run p r segs) cs"
      using Cons.IH [of p "r @ [ch]" segs] Cons.IH [of p "[ch]" "flush_run p r segs"]
      by (simp add: flush_run_eq push_text_split)
    then show ?thesis using False by (simp add: flush_run_eq push_text_split)
  qed
qed

text \<open>The segments so far are only joined with what follows.\<close>

lemma end_line_fold:
  "end_line specs line (act, foldl push_segment S xs) =
    (case end_line specs line (act, xs) of (act', ys) \<Rightarrow> (act', foldl push_segment S ys))"
  by (auto simp: end_line_def Let_def push_text_def fold_push_segment split: option.split)

lemma flush_run_fold: "flush_run p r (foldl push_segment S xs) = foldl push_segment S (flush_run p r xs)"
  by (simp add: flush_run_def push_text_def fold_push_segment)

lemma parse_loop_fold:
  "parse_loop p r (foldl push_segment S xs) cs =
    (case parse_loop p r xs cs of (q, ys) \<Rightarrow> (q, foldl push_segment S ys))"
proof (induction p r xs cs rule: parse_loop.induct)
  case (1 p r xs)
  then show ?case by (simp add: flush_run_fold)
next
  case (2 p r xs ch cs)
  then show ?case
    by (simp add: flush_run_fold finish_line_def end_line_fold push_text_def fold_push_segment
        Let_def split: prod.split)
qed

lemma parse_loop_append:
  "parse_loop p r segs (a @ b) =
    (case parse_loop p r segs a of (q, segs') \<Rightarrow> parse_loop q [] segs' b)"
proof (induction p r segs a rule: parse_loop.induct)
  case (1 p r segs)
  then show ?case using parse_loop_flush by simp
next
  case (2 p r segs ch cs)
  then show ?case by (simp add: Let_def split: prod.split)
qed

lemma parse_lines_nil: "parse_lines p [] = ([], p)"
  by (simp add: parse_lines_def flush_run_def)

lemma parse_lines_append:
  "parse_lines p (a @ b) =
    (case parse_lines p a of (xs, q) \<Rightarrow>
       (case parse_lines q b of (ys, q') \<Rightarrow> (foldl push_segment xs ys, q')))"
proof -
  obtain q xs where a: "parse_loop p [] [] a = (q, xs)" by fastforce
  obtain q' ys where b: "parse_loop q [] [] b = (q', ys)" by fastforce
  show ?thesis
    using parse_loop_append [of p "[]" "[]" a b] parse_loop_fold [of q "[]" xs "[]" b] a b
    by (simp add: parse_lines_def)
qed

text \<open>What the parser emits is joined already.\<close>

lemma parse_lines_coalesced: "coalesce (fst (parse_lines p a)) = fst (parse_lines p a)"
  using parse_loop_fold [of p "[]" "[]" "[]" a]
  by (simp add: parse_lines_def coalesce_def split_beta) (metis snd_conv)

section \<open>The reference on whole lines\<close>

text \<open>The lines of a text, each with its newline.\<close>

fun keep_lines :: "str \<Rightarrow> str list" where
  "keep_lines [] = []"
| "keep_lines (c # s) =
     (if c = nl then [c] # keep_lines s
      else (case keep_lines s of [] \<Rightarrow> [[c]] | l # ls \<Rightarrow> (c # l) # ls))"

definition close_open_tag ::
    "'t option \<times> 't tagged_line_segment list \<Rightarrow> 't tagged_line_segment list" where
  "close_open_tag st =
     (case st of (act, segs) \<Rightarrow>
        (case act of Some tag \<Rightarrow> push_segment segs (TagEnd tag) | None \<Rightarrow> segs))"

definition line_reference :: "'t tag_spec list \<Rightarrow> str \<Rightarrow> 't tagged_line_segment list" where
  "line_reference specs s =
     close_open_tag (foldl (\<lambda>st l. end_line specs l st) (None, []) (keep_lines s))"

lemma keep_lines_last: "nl \<notin> set l \<Longrightarrow> keep_lines l = (if l = [] then [] else [l])"
  by (induction l) (auto split: list.splits)

lemma keep_lines_append:
  "nl \<notin> set l \<Longrightarrow> keep_lines (l @ nl # rest) = (l @ [nl]) # keep_lines rest"
  by (induction l) auto

lemma concat_keep_lines: "concat (keep_lines s) = s"
  by (induction s) (auto split: list.splits)

text \<open>The line seen so far may still be a tag.\<close>

definition holds_line :: "'t tag_spec list \<Rightarrow> str \<Rightarrow> bool" where
  "holds_line specs u \<longleftrightarrow> trim_start u = [] \<or> is_tag_prefix specs (trim_start u)"

lemma trim_end_append_prefix: "prefix (trim_end x) (trim_end (x @ v))"
proof (cases "\<forall>c \<in> set v. is_whitespace c")
  case True
  then have "trim_end (x @ v) = trim_end x"
    by (induction v rule: rev_induct) (auto simp: trim_end_snoc append_assoc [symmetric]
        simp del: append_assoc)
  then show ?thesis by simp
next
  case False
  then have "trim_end (x @ v) = x @ trim_end v"
    by (induction v rule: rev_induct) (auto simp: trim_end_snoc append_assoc [symmetric]
        simp del: append_assoc)
  then show ?thesis using trim_end_prefix by (metis prefix_prefix prefix_order.trans prefixI)
qed

lemma not_held_no_tag:
  assumes "\<not> holds_line specs u" "l = u @ v"
  shows "match_open specs (trim_end (trim_start l)) = None"
    and "match_close specs (trim_end (trim_start l)) = None"
proof -
  have ne: "trim_start u \<noteq> []" using assms(1) by (simp add: holds_line_def)
  then have "trim_start l = trim_start u @ v"
    by (auto simp: assms(2) str_defs dropWhile_append dropWhile_eq_Nil_conv)
  then have pre: "prefix (trim_end (trim_start u)) (trim_end (trim_start l))"
    by (simp add: trim_end_append_prefix)
  have no: "\<forall>spec \<in> set specs. \<not> prefix (trim_end (trim_start u)) (tag_open spec) \<and>
      \<not> prefix (trim_end (trim_start u)) (tag_close spec)"
    using assms(1) by (auto simp: holds_line_def is_tag_prefix_def Let_def list_ex_iff
        starts_with_prefix)
  show "match_open specs (trim_end (trim_start l)) = None"
      "match_close specs (trim_end (trim_start l)) = None"
    using pre no by (auto simp: match_open_def match_close_def find_None_iff)
qed

lemma parse_loop_released:
  "\<not> detect_tag p \<Longrightarrow> nl \<notin> set l \<Longrightarrow>
   parse_loop p r segs l = (p, push_text (current_tag p) (r @ l) segs)"
  by (induction l arbitrary: r) (auto simp: flush_run_eq)

lemma parse_loop_held:
  assumes "detect_tag p" "nl \<notin> set l"
  shows "parse_loop p [] segs l = (p\<lparr> held_line := held_line p @ l \<rparr>, segs) \<or>
    parse_loop p [] segs l = (p\<lparr> held_line := [], detect_tag := False \<rparr>,
      push_text (current_tag p) (held_line p @ l) segs) \<and>
    (\<exists>u v. l = u @ v \<and> \<not> holds_line (line_specs p) (held_line p @ u))"
  using assms
proof (induction l arbitrary: p)
  case Nil
  then show ?case by (simp add: flush_run_def)
next
  case (Cons ch l)
  let ?p = "p\<lparr> held_line := held_line p @ [ch] \<rparr>"
  have fl: "flush_run p [] segs = segs" by (simp add: flush_run_def)
  show ?case
  proof (cases "holds_line (line_specs p) (held_line p @ [ch])")
    case True
    then have step: "parse_loop p [] segs (ch # l) = parse_loop ?p [] segs l"
      using Cons.prems by (auto simp: Let_def holds_line_def fl)
    have "detect_tag ?p" "nl \<notin> set l" using Cons.prems by auto
    from Cons.IH [OF this] consider
        (held) "parse_loop ?p [] segs l = (p\<lparr> held_line := held_line p @ ch # l \<rparr>, segs)"
      | (released) u v where "parse_loop ?p [] segs l = (p\<lparr> held_line := [], detect_tag := False \<rparr>,
          push_text (current_tag p) (held_line p @ ch # l) segs)" "l = u @ v"
          "\<not> holds_line (line_specs p) (held_line p @ ch # u)"
      by auto
    then show ?thesis
    proof cases
      case held
      then show ?thesis unfolding step by simp
    next
      case released
      then show ?thesis unfolding step
        by (intro disjI2 conjI exI [of _ "ch # u"] exI [of _ v]) simp_all
    qed
  next
    case False
    then have "parse_loop p [] segs (ch # l) =
        parse_loop (p\<lparr> held_line := [], detect_tag := False \<rparr>) []
          (push_text (current_tag p) (held_line p @ [ch]) segs) l"
      using Cons.prems by (simp add: Let_def holds_line_def fl)
    also have "\<dots> = (p\<lparr> held_line := [], detect_tag := False \<rparr>,
        push_text (current_tag p) (held_line p @ ch # l) segs)"
      using Cons.prems push_text_split [of "current_tag p" "held_line p @ [ch]" l segs]
      by (simp add: parse_loop_released)
    finally show ?thesis using False by (metis append_Cons append_Nil)
  qed
qed

definition idle :: "'t tagged_line_parser \<Rightarrow> bool" where
  "idle p \<longleftrightarrow> detect_tag p \<and> held_line p = []"

lemma end_line_text:
  assumes "match_open specs (trim_end (trim_start l)) = None"
    "match_close specs (trim_end (trim_start l)) = None" "nl \<notin> set l"
  shows "end_line specs l (act, segs) = (act, push_text act l segs)"
    "end_line specs (l @ [nl]) (act, segs) = (act, push_text act (l @ [nl]) segs)"
proof -
  have "strip_suffix (l @ [nl]) [nl] = Some l" "strip_suffix l [nl] = None"
    using assms(3) by (auto simp: strip_suffix_def ends_with_suffix suffix_def)
  then show "end_line specs l (act, segs) = (act, push_text act l segs)"
    "end_line specs (l @ [nl]) (act, segs) = (act, push_text act (l @ [nl]) segs)"
    using assms by (simp_all add: end_line_def)
qed

lemma parse_loop_line:
  assumes "idle p" "nl \<notin> set l"
    and e: "end_line (line_specs p) (l @ [nl]) (current_tag p, segs) = (act', segs')"
  shows "parse_loop p [] segs (l @ nl # rest) =
    parse_loop (p\<lparr> current_tag := act' \<rparr>) [] segs' rest"
proof -
  note p = assms(1) [unfolded idle_def]
  from parse_loop_held [of p l segs] p assms(2) consider
      (held) "parse_loop p [] segs l = (p\<lparr> held_line := l \<rparr>, segs)"
    | (released) u v where "parse_loop p [] segs l = (p\<lparr> held_line := [], detect_tag := False \<rparr>,
        push_text (current_tag p) l segs)" "l = u @ v" "\<not> holds_line (line_specs p) u"
    by auto
  then show ?thesis
  proof cases
    case held
    then have "parse_loop p [] segs (l @ nl # rest) =
        parse_loop (p\<lparr> held_line := l \<rparr>) [] segs (nl # rest)"
      by (simp add: parse_loop_append)
    also have "\<dots> = parse_loop (p\<lparr> current_tag := act' \<rparr>) [] segs' rest"
      using p e by (simp add: flush_run_def finish_line_def Let_def) (cases p; simp)
    finally show ?thesis .
  next
    case released
    from released(1) have "parse_loop p [] segs (l @ nl # rest) =
        parse_loop (p\<lparr> held_line := [], detect_tag := False \<rparr>) []
          (push_text (current_tag p) l segs) (nl # rest)"
      by (simp add: parse_loop_append)
    also have "\<dots> = parse_loop p [] (push_text (current_tag p) (l @ [nl]) segs) rest"
      using p by (simp add: push_text_split) (cases p; simp)
    finally have "parse_loop p [] segs (l @ nl # rest) =
        parse_loop p [] (push_text (current_tag p) (l @ [nl]) segs) rest" .
    moreover have "push_text (current_tag p) (l @ [nl]) segs = segs'" "act' = current_tag p"
      using e end_line_text(2) [OF not_held_no_tag [OF released(3,2)] assms(2)] by auto
    ultimately show ?thesis by simp
  qed
qed

text \<open>The end of the input.\<close>

definition parse_to_end ::
    "'t tagged_line_parser \<Rightarrow> 't tagged_line_segment list \<Rightarrow> str \<Rightarrow> 't tagged_line_segment list" where
  "parse_to_end p segs s =
     (case parse_loop p [] segs s of (q, ys) \<Rightarrow> foldl push_segment ys (fst (finish_lines q)))"

lemma close_fold:
  "foldl push_segment S (close_open_tag st) = close_open_tag (fst st, foldl push_segment S (snd st))"
  by (cases st) (simp add: close_open_tag_def fold_push_segment split: option.split)

lemma finish_lines_close:
  "fst (finish_lines p) =
    close_open_tag (if held_line p \<noteq> [] then end_line (line_specs p) (held_line p) (current_tag p, [])
      else (current_tag p, []))"
  by (simp add: finish_lines_def close_open_tag_def split_beta)

lemma parse_to_end_last:
  assumes "idle p" "nl \<notin> set l"
  shows "parse_to_end p segs l =
    close_open_tag (foldl (\<lambda>st l. end_line (line_specs p) l st) (current_tag p, segs) (keep_lines l))"
proof (cases "l = []")
  case True
  with assms(1) show ?thesis
    by (simp add: parse_to_end_def idle_def flush_run_def finish_lines_close close_fold)
next
  case False
  note p = assms(1) [unfolded idle_def]
  from parse_loop_held [of p l segs] p assms(2) consider
      (held) "parse_loop p [] segs l = (p\<lparr> held_line := l \<rparr>, segs)"
    | (released) u v where "parse_loop p [] segs l = (p\<lparr> held_line := [], detect_tag := False \<rparr>,
        push_text (current_tag p) l segs)" "l = u @ v" "\<not> holds_line (line_specs p) u"
    by auto
  then show ?thesis
  proof cases
    case held
    then show ?thesis
      using False end_line_fold [of "line_specs p" l "current_tag p" segs "[]"] assms(2)
      by (simp add: parse_to_end_def finish_lines_close close_fold keep_lines_last split_beta)
  next
    case released
    note none = not_held_no_tag [OF released(3,2)]
    from released(1) show ?thesis
      using False assms(2) end_line_text(1) [OF none assms(2)]
      by (simp add: parse_to_end_def finish_lines_close close_fold keep_lines_last)
  qed
qed

lemma parse_to_end_lines:
  "idle p \<Longrightarrow> parse_to_end p segs s =
    close_open_tag (foldl (\<lambda>st l. end_line (line_specs p) l st) (current_tag p, segs) (keep_lines s))"
proof (induction "length s" arbitrary: p segs s rule: less_induct)
  case less
  show ?case
  proof (cases "nl \<in> set s")
    case True
    then obtain l rest where s: "s = l @ nl # rest" "nl \<notin> set l" by (meson split_list_first)
    obtain act' segs' where e: "end_line (line_specs p) (l @ [nl]) (current_tag p, segs) = (act', segs')"
      by fastforce
    have "idle (p\<lparr> current_tag := act' \<rparr>)" using less.prems by (simp add: idle_def)
    from less.hyps [OF _ this, of rest segs'] s
    have IH: "parse_to_end (p\<lparr> current_tag := act' \<rparr>) segs' rest =
        close_open_tag (foldl (\<lambda>st l. end_line (line_specs p) l st) (act', segs') (keep_lines rest))"
      by simp
    have "parse_to_end p segs s = parse_to_end (p\<lparr> current_tag := act' \<rparr>) segs' rest"
      unfolding parse_to_end_def s(1) parse_loop_line [OF less.prems s(2) e] ..
    with IH e s show ?thesis by (simp add: keep_lines_append)
  next
    case False
    with less.prems show ?thesis by (rule parse_to_end_last)
  qed
qed

lemma parse_reference:
  "foldl push_segment (fst (parse_lines (new_line_parser specs) s))
     (fst (finish_lines (snd (parse_lines (new_line_parser specs) s)))) = line_reference specs s"
proof -
  have "idle (new_line_parser specs)" by (simp add: idle_def new_line_parser_def)
  from parse_to_end_lines [OF this, of "[]" s] show ?thesis
    by (simp add: parse_to_end_def parse_lines_def line_reference_def new_line_parser_def split_beta)
qed

end
