(* ===== verification/Proposed_Plan.thy ===== *)
theory Proposed_Plan
  imports Tagged_Line
begin

text \<open>
  Plan blocks in streamed text, \<^verbatim>\<open>utils/stream-parser/src/proposed_plan.rs\<close>: the line
  parser of \<open>Tagged_Line\<close> with one tag.  It meets the contract of \<open>Stream_Text\<close> up to how the
  text of a block is spread over payloads; stripping and extracting a block that was put
  into a text gives back the text and the block.
\<close>

section \<open>Model\<close>

definition OPEN_TAG :: str where "OPEN_TAG = lit ''<proposed_plan>''"
definition CLOSE_TAG :: str where "CLOSE_TAG = lit ''</proposed_plan>''"

datatype plan_tag = ProposedPlan

datatype proposed_plan_segment =
  PlanNormal str
| ProposedPlanStart
| ProposedPlanDelta str
| ProposedPlanEnd

record proposed_plan_parser =
  plan_parser :: "plan_tag tagged_line_parser"

definition plan_specs :: "plan_tag tag_spec list" where
  "plan_specs = [\<lparr> tag_open = OPEN_TAG, tag_close = CLOSE_TAG, line_tag = ProposedPlan \<rparr>]"

definition new_plan_parser :: proposed_plan_parser where
  "new_plan_parser = \<lparr> plan_parser = new_line_parser plan_specs \<rparr>"

fun plan_segment :: "plan_tag tagged_line_segment \<Rightarrow> proposed_plan_segment" where
  "plan_segment (Normal s) = PlanNormal s"
| "plan_segment (TagStart ProposedPlan) = ProposedPlanStart"
| "plan_segment (TagDelta ProposedPlan s) = ProposedPlanDelta s"
| "plan_segment (TagEnd ProposedPlan) = ProposedPlanEnd"

definition map_segment ::
    "proposed_plan_segment stream_text_chunk \<Rightarrow> plan_tag tagged_line_segment \<Rightarrow>
     proposed_plan_segment stream_text_chunk" where
  "map_segment out segment =
     (let mapped = plan_segment segment;
          out = (case mapped of
                   PlanNormal s \<Rightarrow> out\<lparr> visible_text := visible_text out @ s \<rparr>
                 | _ \<Rightarrow> out)
      in out\<lparr> extracted := extracted out @ [mapped] \<rparr>)"

definition map_segments ::
    "plan_tag tagged_line_segment list \<Rightarrow> proposed_plan_segment stream_text_chunk" where
  "map_segments segments = foldl map_segment default_chunk segments"

definition plan_push ::
    "proposed_plan_parser \<Rightarrow> str \<Rightarrow>
     proposed_plan_segment stream_text_chunk \<times> proposed_plan_parser" where
  "plan_push p chunk =
     (let (segments, q) = parse_lines (plan_parser p) chunk
      in (map_segments segments, p\<lparr> plan_parser := q \<rparr>))"

definition plan_finish ::
    "proposed_plan_parser \<Rightarrow> proposed_plan_segment stream_text_chunk \<times> proposed_plan_parser" where
  "plan_finish p =
     (let (segments, q) = finish_lines (plan_parser p)
      in (map_segments segments, p\<lparr> plan_parser := q \<rparr>))"

definition strip_proposed_plan_blocks :: "str \<Rightarrow> str" where
  "strip_proposed_plan_blocks s =
     (let (out, p) = plan_push new_plan_parser s
      in visible_text out @ visible_text (fst (plan_finish p)))"

text \<open>The loop of \<^verbatim>\<open>extract_proposed_plan_text\<close>: whether a block was seen, and its text.\<close>

fun extract_step :: "bool \<times> str \<Rightarrow> proposed_plan_segment \<Rightarrow> bool \<times> str" where
  "extract_step (saw_plan_block, plan_text) ProposedPlanStart = (True, [])"
| "extract_step (saw_plan_block, plan_text) (ProposedPlanDelta delta) =
     (saw_plan_block, plan_text @ delta)"
| "extract_step st ProposedPlanEnd = st"
| "extract_step st (PlanNormal _) = st"

definition extract_proposed_plan_text :: "str \<Rightarrow> str option" where
  "extract_proposed_plan_text s =
     (let (out, p) = plan_push new_plan_parser s;
          (saw_plan_block, plan_text) =
            foldl extract_step (False, []) (extracted out @ extracted (fst (plan_finish p)))
      in if saw_plan_block then Some plan_text else None)"

section \<open>Segments and payloads\<close>

fun line_segment :: "proposed_plan_segment \<Rightarrow> plan_tag tagged_line_segment" where
  "line_segment (PlanNormal s) = Normal s"
| "line_segment ProposedPlanStart = TagStart ProposedPlan"
| "line_segment (ProposedPlanDelta s) = TagDelta ProposedPlan s"
| "line_segment ProposedPlanEnd = TagEnd ProposedPlan"

lemma line_plan_segment [simp]: "line_segment (plan_segment seg) = seg"
  by (cases seg rule: plan_segment.cases) auto

lemma map_line_plan [simp]: "map line_segment (map plan_segment segs) = segs"
  by (induction segs) auto

definition plan_coalesce :: "proposed_plan_segment list \<Rightarrow> proposed_plan_segment list" where
  "plan_coalesce xs = map plan_segment (coalesce (map line_segment xs))"

lemma plan_coalesce_append:
  "plan_coalesce (xs @ ys) = plan_coalesce (plan_coalesce xs @ plan_coalesce ys)"
  unfolding plan_coalesce_def map_append map_line_plan by (simp only: coalesce_append [symmetric])

fun segment_text :: "plan_tag tagged_line_segment \<Rightarrow> str" where
  "segment_text (Normal s) = s"
| "segment_text _ = []"

definition normal_text :: "plan_tag tagged_line_segment list \<Rightarrow> str" where
  "normal_text segs = concat (map segment_text segs)"

lemma normal_text_simps [simp]:
  "normal_text [] = []" "normal_text (xs @ ys) = normal_text xs @ normal_text ys"
  "normal_text (seg # segs) = segment_text seg @ normal_text segs"
  by (simp_all add: normal_text_def)

lemma map_segments_eq:
  "map_segments segs = \<lparr> visible_text = normal_text segs, extracted = map plan_segment segs \<rparr>"
proof -
  have "foldl map_segment out segs =
      \<lparr> visible_text = visible_text out @ normal_text segs,
        extracted = extracted out @ map plan_segment segs \<rparr>" for out
  proof (induction segs arbitrary: out)
    case (Cons seg segs)
    then show ?case by (cases seg rule: plan_segment.cases) (simp_all add: map_segment_def)
  qed simp
  then show ?thesis by (simp add: map_segments_def)
qed

lemma normal_text_push: "normal_text (push_segment xs seg) = normal_text xs @ segment_text seg"
proof (cases xs seg rule: push_segment_cases)
  case (join act a b ys)
  then show ?thesis
    by (cases act) (simp_all add: push_segment_join, simp_all add: text_segment_def)
next
  case (drop act)
  then show ?thesis
    by (cases act) (simp_all add: push_segment_empty, simp_all add: text_segment_def)
qed simp

lemma normal_text_fold: "normal_text (foldl push_segment xs ys) = normal_text xs @ normal_text ys"
  by (induction ys arbitrary: xs) (simp_all add: normal_text_push)

lemma plan_push_split:
  "snd (plan_push p (a @ b)) = snd (plan_push (snd (plan_push p a)) b) \<and>
   same_chunk plan_coalesce (fst (plan_push p (a @ b)))
     (append_chunk (fst (plan_push p a)) (fst (plan_push (snd (plan_push p a)) b)))"
proof -
  obtain xs q where a: "parse_lines (plan_parser p) a = (xs, q)" by fastforce
  obtain ys q' where b: "parse_lines q b = (ys, q')" by fastforce
  have "parse_lines (plan_parser p) (a @ b) = (foldl push_segment xs ys, q')"
    using parse_lines_append [of "plan_parser p" a b] a b by simp
  with a b show ?thesis
    by (simp add: plan_push_def same_chunk_def map_segments_eq normal_text_fold plan_coalesce_def
        coalesce_def fold_push_absorb del: map_map)
qed

interpretation plans: stream_text_parser plan_push plan_finish "\<lambda>_. True" plan_coalesce
proof
  show "plan_push p [] = (default_chunk, p)" for p
    by (simp add: plan_push_def parse_lines_nil map_segments_eq default_chunk_def)
qed (use plan_push_split plan_coalesce_append in auto)

section \<open>Whole texts\<close>

lemma plan_stream_reference:
  defines "run \<equiv> stream_run plan_push plan_finish new_plan_parser"
  shows "visible_text (fst (run cs)) = normal_text (line_reference plan_specs (concat cs))"
    and "plan_coalesce (extracted (fst (run cs))) =
      map plan_segment (line_reference plan_specs (concat cs))"
proof -
  let ?s = "concat cs"
  obtain xs q where parse: "parse_lines (new_line_parser plan_specs) ?s = (xs, q)" by fastforce
  obtain ys q' where finish: "finish_lines q = (ys, q')" by fastforce
  have ref: "foldl push_segment xs ys = line_reference plan_specs ?s"
    using parse_reference [of plan_specs ?s] parse finish by simp
  have one: "fst (run [?s]) = append_chunk (map_segments xs) (map_segments ys)"
    using parse finish by (simp add: run_def stream_run_def plan_push_def plan_finish_def
        new_plan_parser_def)
  have same: "same_chunk plan_coalesce (fst (run cs)) (fst (run [?s]))"
    using plans.stream_run_rechunk [where s = new_plan_parser and cs = cs and ds = "[?s]"] by (simp add: run_def)
  then show "visible_text (fst (run cs)) = normal_text (line_reference plan_specs ?s)"
    by (simp add: same_chunk_def one map_segments_eq ref [symmetric] normal_text_fold)
  have "coalesce xs = xs"
    using parse_lines_coalesced [of "new_line_parser plan_specs" ?s] parse by simp
  then have "coalesce (xs @ ys) = line_reference plan_specs ?s"
    using ref by (simp add: coalesce_def)
  with same show "plan_coalesce (extracted (fst (run cs))) =
      map plan_segment (line_reference plan_specs ?s)"
    by (simp add: same_chunk_def one map_segments_eq plan_coalesce_def del: map_map
        flip: map_append)
qed

lemma strip_reference:
  "strip_proposed_plan_blocks s = normal_text (line_reference plan_specs s)"
  using plan_stream_reference(1) [of "[s]"]
  by (simp add: strip_proposed_plan_blocks_def stream_run_def split_beta)

lemma extract_push:
  "foldl extract_step st (map plan_segment (push_segment xs seg)) =
    extract_step (foldl extract_step st (map plan_segment xs)) (plan_segment seg)"
proof (cases xs seg rule: push_segment_cases)
  case (join act a b ys)
  obtain saw t where st: "foldl extract_step st (map plan_segment ys) = (saw, t)" by fastforce
  show ?thesis
  proof (cases act)
    case None
    with join show ?thesis by (simp add: push_segment_join) (simp add: text_segment_def st)
  next
    case (Some tag)
    then have "act = Some ProposedPlan" by (cases tag) simp
    with join show ?thesis by (simp add: push_segment_join) (simp add: text_segment_def st)
  qed
next
  case (drop act)
  obtain saw t where st: "foldl extract_step st (map plan_segment xs) = (saw, t)" by fastforce
  show ?thesis
  proof (cases act)
    case None
    with drop show ?thesis by (simp add: push_segment_empty) (simp add: text_segment_def)
  next
    case (Some tag)
    then have "act = Some ProposedPlan" by (cases tag) simp
    with drop show ?thesis by (simp add: push_segment_empty st) (simp add: text_segment_def)
  qed
qed simp

lemma extract_fold:
  "foldl extract_step st (map plan_segment (foldl push_segment xs ys)) =
    foldl extract_step (foldl extract_step st (map plan_segment xs)) (map plan_segment ys)"
  by (induction ys arbitrary: xs) (simp_all add: extract_push)

lemma extract_reference:
  "extract_proposed_plan_text s =
    (case foldl extract_step (False, []) (map plan_segment (line_reference plan_specs s)) of
       (saw, plan) \<Rightarrow> if saw then Some plan else None)"
  using parse_reference [of plan_specs s, symmetric]
  by (simp add: extract_proposed_plan_text_def plan_push_def plan_finish_def new_plan_parser_def
      map_segments_eq extract_fold split_beta)

text \<open>Lines none of which is a tag.\<close>

definition tag_free :: "str \<Rightarrow> bool" where
  "tag_free s \<longleftrightarrow> (\<forall>l \<in> set (keep_lines s). trim l \<noteq> OPEN_TAG \<and> trim l \<noteq> CLOSE_TAG)"

lemma keep_lines_terminated:
  "a = [] \<or> last a = nl \<Longrightarrow> keep_lines (a @ b) = keep_lines a @ keep_lines b"
proof (induction a rule: keep_lines.induct)
  case (2 c s)
  show ?case
  proof (cases "s = []")
    case False
    then have "keep_lines s \<noteq> []" using concat_keep_lines [of s] by (metis concat.simps(1))
    with False 2 show ?thesis by (auto split: list.splits)
  qed (use 2 in auto)
qed simp

lemma trim_newline: "(case strip_suffix l [nl] of Some l' \<Rightarrow> trim_end (trim_start l') | None \<Rightarrow>
    trim_end (trim_start l)) = trim l"
proof (cases "strip_suffix l [nl]")
  case (Some l')
  then have l: "l = l' @ [nl]" by (simp add: strip_suffix_Some)
  have "trim l = trim l'"
    using trim_start_end [of l'] trim_start_end [of l]
    by (simp add: trim_def l) (simp add: trim_end_snoc is_whitespace_def flip: trim_start_end)
  with Some show ?thesis by (simp add: trim_def)
qed (simp add: trim_def)

lemma end_line_free:
  assumes "trim l \<noteq> OPEN_TAG" "trim l \<noteq> CLOSE_TAG"
  shows "end_line plan_specs l (act, segs) = (act, push_text act l segs)"
proof -
  have "match_open plan_specs (trim l) = None" "match_close plan_specs (trim l) = None"
    using assms by (auto simp: match_open_def match_close_def plan_specs_def)
  then show ?thesis
    using trim_newline [of l] by (auto simp: end_line_def Let_def split: option.splits)
qed

lemma end_lines_free:
  "\<forall>l \<in> set ls. trim l \<noteq> OPEN_TAG \<and> trim l \<noteq> CLOSE_TAG \<Longrightarrow>
   foldl (\<lambda>st l. end_line plan_specs l st) (act, segs) ls = (act, push_text act (concat ls) segs)"
  by (induction ls arbitrary: segs)
     (simp_all add: end_line_free push_text_split, simp add: push_text_def push_segment_empty)

lemma tag_free_lines:
  "tag_free s \<Longrightarrow> foldl (\<lambda>st l. end_line plan_specs l st) (act, segs) (keep_lines s) =
    (act, push_text act s segs)"
  using end_lines_free [of "keep_lines s" act segs] by (simp add: tag_free_def concat_keep_lines)

lemma end_line_tags:
  "end_line plan_specs (OPEN_TAG @ [nl]) (None, segs) =
    (Some ProposedPlan, push_segment segs (TagStart ProposedPlan))"
  "end_line plan_specs (CLOSE_TAG @ [nl]) (Some ProposedPlan, segs) =
    (None, push_segment segs (TagEnd ProposedPlan))"
proof -
  have "trim_end (trim_start OPEN_TAG) = OPEN_TAG" "trim_end (trim_start CLOSE_TAG) = CLOSE_TAG"
    by (simp_all add: OPEN_TAG_def CLOSE_TAG_def str_defs lit_def is_whitespace_def)
  moreover have "strip_suffix (l @ [nl]) [nl] = Some l" for l by (simp add: strip_suffix_Some)
  moreover have "OPEN_TAG \<noteq> CLOSE_TAG" by (simp add: OPEN_TAG_def CLOSE_TAG_def lit_def)
  ultimately show "end_line plan_specs (OPEN_TAG @ [nl]) (None, segs) =
      (Some ProposedPlan, push_segment segs (TagStart ProposedPlan))"
    "end_line plan_specs (CLOSE_TAG @ [nl]) (Some ProposedPlan, segs) =
      (None, push_segment segs (TagEnd ProposedPlan))"
    by (simp_all add: end_line_def match_open_def match_close_def plan_specs_def Let_def)
qed

lemma line_reference_block:
  assumes "pre = [] \<or> last pre = nl" "tag_free pre" "plan = [] \<or> last plan = nl" "tag_free plan"
    and "tag_free post"
  shows "line_reference plan_specs (pre @ OPEN_TAG @ [nl] @ plan @ CLOSE_TAG @ [nl] @ post) =
    push_text None post (push_segment (push_text (Some ProposedPlan) plan
      (push_segment (push_text None pre []) (TagStart ProposedPlan))) (TagEnd ProposedPlan))"
proof -
  have "nl \<notin> set OPEN_TAG" "nl \<notin> set CLOSE_TAG"
    by (simp_all add: OPEN_TAG_def CLOSE_TAG_def lit_def)
  then have "keep_lines (pre @ OPEN_TAG @ [nl] @ plan @ CLOSE_TAG @ [nl] @ post) =
      keep_lines pre @ [OPEN_TAG @ [nl]] @ keep_lines plan @ [CLOSE_TAG @ [nl]] @ keep_lines post"
    using assms(1,3) by (simp add: keep_lines_terminated keep_lines_append)
  then show ?thesis
    using assms(2,4,5)
    by (simp add: line_reference_def close_open_tag_def tag_free_lines end_line_tags)
qed

section \<open>Properties\<close>

text \<open>
  C24. The plan parser, fed a text in any chunks and then finished, gives what the complete
  lines of the text determine: the visible text is the text outside the blocks, and the
  payloads, with adjacent pieces of text joined, are the segments of the reference.
\<close>

theorem plan_stream_matches_lines:
  "case stream_run plan_push plan_finish new_plan_parser cs of (out, _) \<Rightarrow>
     visible_text out = normal_text (line_reference plan_specs (concat cs)) \<and>
     plan_coalesce (extracted out) = map plan_segment (line_reference plan_specs (concat cs))"
  using plan_stream_reference [of cs] by (simp add: split_beta)

text \<open>
  A plan block put between lines that are not tags can be taken out again: stripping
  gives the lines around it, and extracting gives its body.
\<close>

theorem plan_block_roundtrip:
  assumes "pre = [] \<or> last pre = nl" "tag_free pre" "plan = [] \<or> last plan = nl" "tag_free plan"
    and "tag_free post"
  shows "strip_proposed_plan_blocks (pre @ OPEN_TAG @ [nl] @ plan @ CLOSE_TAG @ [nl] @ post) =
      pre @ post \<and>
    extract_proposed_plan_text (pre @ OPEN_TAG @ [nl] @ plan @ CLOSE_TAG @ [nl] @ post) = Some plan"
proof -
  note ref = line_reference_block [OF assms]
  show ?thesis
    unfolding strip_reference extract_reference ref push_text_def normal_text_push extract_push
    by (simp add: text_segment_def)
qed

theorem plan_block_roundtrip_witness:
  "strip_proposed_plan_blocks (lit ''a'' @ [nl] @ OPEN_TAG @ [nl] @ lit ''p'' @ [nl] @ CLOSE_TAG @ [nl] @
     lit ''b'') = lit ''a'' @ [nl] @ lit ''b'' \<and>
   extract_proposed_plan_text (lit ''a'' @ [nl] @ OPEN_TAG @ [nl] @ lit ''p'' @ [nl] @ CLOSE_TAG @ [nl] @
     lit ''b'') = Some (lit ''p'' @ [nl])"
proof -
  have "tag_free (lit ''a'' @ [nl])" "tag_free (lit ''p'' @ [nl])" "tag_free (lit ''b'')"
    by (simp_all add: tag_free_def str_defs OPEN_TAG_def CLOSE_TAG_def lit_def is_whitespace_def)
  then show ?thesis
    using plan_block_roundtrip [of "lit ''a'' @ [nl]" "lit ''p'' @ [nl]" "lit ''b''"]
    by (simp add: OPEN_TAG_def CLOSE_TAG_def)
qed

end
