(* ===== verification/Assistant_Text.thy ===== *)
theory Assistant_Text
  imports Citation Proposed_Plan
begin

text \<open>
  The parser of assistant text, \<^verbatim>\<open>utils/stream-parser/src/assistant_text.rs\<close>: citations are
  taken out first, and in plan mode what remains goes through the plan parser.  It relies on
  both parsers only through the contract of \<open>Stream_Text\<close> and their references.
\<close>

section \<open>Model\<close>

record assistant_text_chunk =
  assistant_visible :: str
  assistant_citations :: "str list"
  plan_segments :: "proposed_plan_segment list"

definition default_assistant_chunk :: assistant_text_chunk where
  "default_assistant_chunk =
     \<lparr> assistant_visible = [], assistant_citations = [], plan_segments = [] \<rparr>"

definition assistant_chunk_is_empty :: "assistant_text_chunk \<Rightarrow> bool" where
  "assistant_chunk_is_empty c \<longleftrightarrow>
     assistant_visible c = [] \<and> assistant_citations c = [] \<and> plan_segments c = []"

record assistant_text_stream_parser =
  plan_mode :: bool
  citation_state :: citation_stream_parser
  plan_state :: proposed_plan_parser

definition new_assistant_parser :: "bool \<Rightarrow> assistant_text_stream_parser" where
  "new_assistant_parser md =
     \<lparr> plan_mode = md, citation_state = new_citation_parser, plan_state = new_plan_parser \<rparr>"

definition parse_visible_text ::
    "assistant_text_stream_parser \<Rightarrow> str \<Rightarrow> assistant_text_chunk \<times> assistant_text_stream_parser" where
  "parse_visible_text p s =
     (if \<not> plan_mode p then (default_assistant_chunk\<lparr> assistant_visible := s \<rparr>, p)
      else
        let (plan_chunk, q) = plan_push (plan_state p) s in
        (default_assistant_chunk\<lparr> assistant_visible := visible_text plan_chunk,
           plan_segments := extracted plan_chunk \<rparr>, p\<lparr> plan_state := q \<rparr>))"

definition assistant_push ::
    "assistant_text_stream_parser \<Rightarrow> str \<Rightarrow> assistant_text_chunk \<times> assistant_text_stream_parser" where
  "assistant_push p chunk =
     (let (cit, c) = citation_push (citation_state p) chunk;
          (out, p) = parse_visible_text (p\<lparr> citation_state := c \<rparr>) (visible_text cit)
      in (out\<lparr> assistant_citations := extracted cit \<rparr>, p))"

definition assistant_finish ::
    "assistant_text_stream_parser \<Rightarrow> assistant_text_chunk \<times> assistant_text_stream_parser" where
  "assistant_finish p =
     (let (cit, c) = citation_finish (citation_state p);
          (out, p) = parse_visible_text (p\<lparr> citation_state := c \<rparr>) (visible_text cit);
          (out, p) =
            (if plan_mode p then
               (let (tail, q) = plan_finish (plan_state p); p = p\<lparr> plan_state := q \<rparr> in
                if \<not> chunk_is_empty tail then
                  (out\<lparr> assistant_visible := assistant_visible out @ visible_text tail,
                     plan_segments := plan_segments out @ extracted tail \<rparr>, p)
                else (out, p))
             else (out, p))
      in (out\<lparr> assistant_citations := extracted cit \<rparr>, p))"

section \<open>Streams\<close>

definition append_assistant ::
    "assistant_text_chunk \<Rightarrow> assistant_text_chunk \<Rightarrow> assistant_text_chunk" where
  "append_assistant a b =
     \<lparr> assistant_visible = assistant_visible a @ assistant_visible b,
       assistant_citations = assistant_citations a @ assistant_citations b,
       plan_segments = plan_segments a @ plan_segments b \<rparr>"

fun assistant_push_all ::
    "assistant_text_stream_parser \<Rightarrow> str list \<Rightarrow>
     assistant_text_chunk \<times> assistant_text_stream_parser" where
  "assistant_push_all p [] = (default_assistant_chunk, p)"
| "assistant_push_all p (c # cs) =
     (let (out, p1) = assistant_push p c; (outs, p2) = assistant_push_all p1 cs
      in (append_assistant out outs, p2))"

definition assistant_run ::
    "assistant_text_stream_parser \<Rightarrow> str list \<Rightarrow> assistant_text_chunk" where
  "assistant_run p cs =
     (let (out, p1) = assistant_push_all p cs; (tail, _) = assistant_finish p1
      in append_assistant out tail)"

text \<open>The visible text that each chunk leaves for the second parser.\<close>

fun citation_texts ::
    "citation_stream_parser \<Rightarrow> str list \<Rightarrow> str list" where
  "citation_texts c [] = []"
| "citation_texts c (s # ss) =
     visible_text (fst (citation_push c s)) # citation_texts (snd (citation_push c s)) ss"

lemma concat_citation_texts:
  "concat (citation_texts c cs) = visible_text (fst (push_all citation_push c cs))"
  by (induction cs arbitrary: c) (auto simp: split_beta)

lemma assistant_push_all_plan:
  assumes "plan_mode p"
  shows "assistant_push_all p cs =
    (\<lparr> assistant_visible =
         visible_text (fst (push_all plan_push (plan_state p) (citation_texts (citation_state p) cs))),
       assistant_citations = extracted (fst (push_all citation_push (citation_state p) cs)),
       plan_segments =
         extracted (fst (push_all plan_push (plan_state p) (citation_texts (citation_state p) cs))) \<rparr>,
     p\<lparr> citation_state := snd (push_all citation_push (citation_state p) cs),
        plan_state := snd (push_all plan_push (plan_state p) (citation_texts (citation_state p) cs)) \<rparr>)"
  using assms
proof (induction cs arbitrary: p)
  case Nil
  then show ?case by (simp add: default_assistant_chunk_def)
next
  case (Cons s cs)
  then show ?case
    by (simp add: assistant_push_def parse_visible_text_def default_assistant_chunk_def
        append_assistant_def split_beta Let_def)
qed

lemma assistant_push_all_plain:
  assumes "\<not> plan_mode p"
  shows "assistant_push_all p cs =
    (\<lparr> assistant_visible = visible_text (fst (push_all citation_push (citation_state p) cs)),
       assistant_citations = extracted (fst (push_all citation_push (citation_state p) cs)),
       plan_segments = [] \<rparr>,
     p\<lparr> citation_state := snd (push_all citation_push (citation_state p) cs) \<rparr>)"
  using assms
proof (induction cs arbitrary: p)
  case Nil
  then show ?case by (simp add: default_assistant_chunk_def)
next
  case (Cons s cs)
  then show ?case
    by (simp add: assistant_push_def parse_visible_text_def default_assistant_chunk_def
        append_assistant_def split_beta Let_def)
qed

lemma push_all_append:
  "push_all push s (cs @ ds) =
    (case push_all push s cs of (a, s1) \<Rightarrow>
       (case push_all push s1 ds of (b, s2) \<Rightarrow> (append_chunk a b, s2)))"
  by (induction cs arbitrary: s) (auto simp: split_beta append_chunk_assoc)

text \<open>In plan mode the second parser sees one stream: the texts left over, then the rest.\<close>

lemma assistant_run_plan:
  assumes "plan_mode p"
  defines "run \<equiv> stream_run citation_push citation_finish (citation_state p)"
    and "texts \<equiv> (\<lambda>cs. citation_texts (citation_state p) cs @
      [visible_text (fst (citation_finish (snd (push_all citation_push (citation_state p) cs))))])"
  shows "assistant_run p cs =
      \<lparr> assistant_visible =
          visible_text (fst (stream_run plan_push plan_finish (plan_state p) (texts cs))),
        assistant_citations = extracted (fst (run cs)),
        plan_segments =
          extracted (fst (stream_run plan_push plan_finish (plan_state p) (texts cs))) \<rparr> \<and>
    concat (texts cs) = visible_text (fst (run cs))"
proof
  have empty: "chunk_is_empty c \<Longrightarrow> visible_text c = [] \<and> extracted c = []"
    for c :: "proposed_plan_segment stream_text_chunk" by (simp add: chunk_is_empty_def)
  show "assistant_run p cs =
      \<lparr> assistant_visible =
          visible_text (fst (stream_run plan_push plan_finish (plan_state p) (texts cs))),
        assistant_citations = extracted (fst (run cs)),
        plan_segments =
          extracted (fst (stream_run plan_push plan_finish (plan_state p) (texts cs))) \<rparr>"
    using assms(1) assistant_push_all_plan [OF assms(1), of cs]
    by (auto simp: assistant_run_def assistant_finish_def parse_visible_text_def run_def texts_def
        stream_run_def push_all_append split_beta Let_def append_assistant_def
        default_assistant_chunk_def dest!: empty)
  show "concat (texts cs) = visible_text (fst (run cs))"
    by (simp add: texts_def run_def stream_run_def concat_citation_texts split_beta)
qed

lemma assistant_run_plain:
  assumes "\<not> plan_mode p"
  shows "assistant_run p cs =
    (case stream_run citation_push citation_finish (citation_state p) cs of (out, _) \<Rightarrow>
      \<lparr> assistant_visible = visible_text out, assistant_citations = extracted out,
        plan_segments = [] \<rparr>)"
  using assms assistant_push_all_plain [OF assms, of cs]
  by (simp add: assistant_run_def assistant_finish_def parse_visible_text_def stream_run_def
      split_beta Let_def append_assistant_def default_assistant_chunk_def)

section \<open>Properties\<close>

text \<open>
  C22. The assistant parser composes its two parsers: over any chunks, the citations are those
  hidden in the complete text; without plan mode the visible text is what remains; in plan
  mode the visible text and the plan segments are those that the lines of what remains
  determine.
\<close>

theorem assistant_stream_result:
  "case hidden_tags CITATION_OPEN CITATION_CLOSE (concat cs) of (rest, cited) \<Rightarrow>
     (let out = assistant_run (new_assistant_parser md) cs in
      assistant_citations out = cited \<and>
      assistant_visible out = (if md then normal_text (line_reference plan_specs rest) else rest) \<and>
      plan_coalesce (plan_segments out) =
        (if md then map plan_segment (line_reference plan_specs rest) else []))"
proof -
  obtain rest cited where h: "hidden_tags CITATION_OPEN CITATION_CLOSE (concat cs) = (rest, cited)"
    by fastforce
  let ?run = "stream_run citation_push citation_finish new_citation_parser cs"
  have run: "visible_text (fst ?run) = rest" "extracted (fst ?run) = cited"
    using citation_stream_hidden [of cs] h by (auto simp: split_beta)
  show ?thesis
  proof (cases md)
    case True
    let ?p = "new_assistant_parser True"
    define ts where "ts = citation_texts new_citation_parser cs @
      [visible_text (fst (citation_finish (snd (push_all citation_push new_citation_parser cs))))]"
    have "plan_mode ?p" by (simp add: new_assistant_parser_def)
    from assistant_run_plan [OF this, of cs]
    have out: "assistant_run ?p cs =
        \<lparr> assistant_visible =
            visible_text (fst (stream_run plan_push plan_finish new_plan_parser ts)),
          assistant_citations = cited,
          plan_segments = extracted (fst (stream_run plan_push plan_finish new_plan_parser ts)) \<rparr>"
      and ts: "concat ts = rest"
      using run by (auto simp: new_assistant_parser_def ts_def)
    from plan_stream_reference [of ts] True show ?thesis by (simp add: h out ts)
  next
    case False
    then show ?thesis
      using assistant_run_plain [of "new_assistant_parser False" cs] run
      by (simp add: h new_assistant_parser_def split_beta plan_coalesce_def coalesce_def)
  qed
qed

end
