(* ===== verification/Utf8.thy ===== *)
theory Utf8
  imports Prelude
begin

text \<open>
  UTF-8 as the standard library decodes it: \<^verbatim>\<open>std::str::from_utf8\<close> with the two numbers of
  its error, the length of the valid prefix and the length of the offending sequence, which
  is absent when the input ends inside a character.  Bytes are numbers; a number above 255
  is treated like any other byte that starts no character.  Encoding and decoding are
  inverse, and decoding a concatenation can be done piece by piece.
\<close>

section \<open>Decoding\<close>

type_synonym byte = nat

definition is_cont :: "byte \<Rightarrow> bool" where
  "is_cont b \<longleftrightarrow> 0x80 \<le> b \<and> b \<le> 0xBF"

definition second_of_three :: "byte \<Rightarrow> byte \<Rightarrow> bool" where
  "second_of_three b0 b1 =
     (if b0 = 0xE0 then 0xA0 \<le> b1 \<and> b1 \<le> 0xBF
      else if b0 = 0xED then 0x80 \<le> b1 \<and> b1 \<le> 0x9F
      else is_cont b1)"

definition second_of_four :: "byte \<Rightarrow> byte \<Rightarrow> bool" where
  "second_of_four b0 b1 =
     (if b0 = 0xF0 then 0x90 \<le> b1 \<and> b1 \<le> 0xBF
      else if b0 = 0xF4 then 0x80 \<le> b1 \<and> b1 \<le> 0x8F
      else is_cont b1)"

datatype decoded = Scalar uchar nat | Incomplete | Invalid nat

fun decode_two :: "byte \<Rightarrow> byte list \<Rightarrow> decoded" where
  "decode_two b0 [] = Incomplete"
| "decode_two b0 (b1 # _) =
     (if is_cont b1 then Scalar ((b0 - 0xC0) * 64 + (b1 - 0x80)) 2 else Invalid 1)"

fun decode_three :: "byte \<Rightarrow> byte list \<Rightarrow> decoded" where
  "decode_three b0 [] = Incomplete"
| "decode_three b0 [b1] = (if second_of_three b0 b1 then Incomplete else Invalid 1)"
| "decode_three b0 (b1 # b2 # _) =
     (if \<not> second_of_three b0 b1 then Invalid 1
      else if \<not> is_cont b2 then Invalid 2
      else Scalar ((b0 - 0xE0) * 4096 + (b1 - 0x80) * 64 + (b2 - 0x80)) 3)"

fun decode_four :: "byte \<Rightarrow> byte list \<Rightarrow> decoded" where
  "decode_four b0 [] = Incomplete"
| "decode_four b0 [b1] = (if second_of_four b0 b1 then Incomplete else Invalid 1)"
| "decode_four b0 [b1, b2] =
     (if \<not> second_of_four b0 b1 then Invalid 1
      else if is_cont b2 then Incomplete else Invalid 2)"
| "decode_four b0 (b1 # b2 # b3 # _) =
     (if \<not> second_of_four b0 b1 then Invalid 1
      else if \<not> is_cont b2 then Invalid 2
      else if \<not> is_cont b3 then Invalid 3
      else Scalar ((b0 - 0xF0) * 262144 + (b1 - 0x80) * 4096 + (b2 - 0x80) * 64 + (b3 - 0x80)) 4)"

text \<open>One character at the head of a non-empty input.\<close>

definition decode_one :: "byte \<Rightarrow> byte list \<Rightarrow> decoded" where
  "decode_one b0 bs =
     (if b0 < 0x80 then Scalar b0 1
      else if 0xC2 \<le> b0 \<and> b0 \<le> 0xDF then decode_two b0 bs
      else if 0xE0 \<le> b0 \<and> b0 \<le> 0xEF then decode_three b0 bs
      else if 0xF0 \<le> b0 \<and> b0 \<le> 0xF4 then decode_four b0 bs
      else Invalid 1)"

datatype utf8_error = Utf8Error (valid_up_to: nat) (error_len: "nat option")

lemma decode_one_length:
  assumes "decode_one b0 bs = Scalar c n"
  shows "1 \<le> n \<and> n \<le> Suc (length bs)"
proof -
  have "decode_two b0 bs = Scalar c n \<Longrightarrow> 1 \<le> n \<and> n \<le> Suc (length bs)"
    by (cases "(b0, bs)" rule: decode_two.cases) (auto split: if_splits)
  moreover have "decode_three b0 bs = Scalar c n \<Longrightarrow> 1 \<le> n \<and> n \<le> Suc (length bs)"
    by (cases "(b0, bs)" rule: decode_three.cases) (auto split: if_splits)
  moreover have "decode_four b0 bs = Scalar c n \<Longrightarrow> 1 \<le> n \<and> n \<le> Suc (length bs)"
    by (cases "(b0, bs)" rule: decode_four.cases) (auto split: if_splits)
  ultimately show ?thesis using assms by (auto simp: decode_one_def split: if_splits)
qed

function from_utf8 :: "byte list \<Rightarrow> utf8_error + str" where
  "from_utf8 [] = Ok []"
| "from_utf8 (b # bs) =
     (case decode_one b bs of
        Scalar c n \<Rightarrow>
          (case from_utf8 (drop n (b # bs)) of
             Ok s \<Rightarrow> Ok (c # s)
           | Err e \<Rightarrow> Err (Utf8Error (n + valid_up_to e) (error_len e)))
      | Incomplete \<Rightarrow> Err (Utf8Error 0 None)
      | Invalid k \<Rightarrow> Err (Utf8Error 0 (Some k)))"
  by pat_completeness auto

termination from_utf8
  by (relation "measure length") (auto dest: decode_one_length)

section \<open>Appending input\<close>

lemma decode_one_append:
  assumes "decode_one b bs \<noteq> Incomplete"
  shows "decode_one b (bs @ cs) = decode_one b bs"
proof -
  have "decode_two b bs \<noteq> Incomplete \<Longrightarrow> decode_two b (bs @ cs) = decode_two b bs"
    by (cases "(b, bs)" rule: decode_two.cases) auto
  moreover have "decode_three b bs \<noteq> Incomplete \<Longrightarrow> decode_three b (bs @ cs) = decode_three b bs"
    by (cases "(b, bs)" rule: decode_three.cases; cases cs) (auto split: if_splits)
  moreover have "decode_four b bs \<noteq> Incomplete \<Longrightarrow> decode_four b (bs @ cs) = decode_four b bs"
    by (cases "(b, bs)" rule: decode_four.cases; cases cs; cases "tl cs") (auto split: if_splits)
  ultimately show ?thesis using assms by (auto simp: decode_one_def split: if_splits)
qed

lemma decode_one_take:
  assumes "decode_one b bs = Scalar c n"
  shows "decode_one b (take (n - 1) bs) = Scalar c n"
proof -
  have "decode_two b bs = Scalar c n \<Longrightarrow> decode_two b (take (n - 1) bs) = Scalar c n"
    by (cases "(b, bs)" rule: decode_two.cases) (auto split: if_splits)
  moreover have "decode_three b bs = Scalar c n \<Longrightarrow> decode_three b (take (n - 1) bs) = Scalar c n"
    by (cases "(b, bs)" rule: decode_three.cases) (auto split: if_splits)
  moreover have "decode_four b bs = Scalar c n \<Longrightarrow> decode_four b (take (n - 1) bs) = Scalar c n"
    by (cases "(b, bs)" rule: decode_four.cases) (auto split: if_splits)
  ultimately show ?thesis using assms by (auto simp: decode_one_def split: if_splits)
qed

lemma drop_Cons_append: "n \<le> Suc (length xs) \<Longrightarrow> drop n (x # xs @ b) = drop n (x # xs) @ b"
  by (cases n) auto

lemma from_utf8_append_Ok:
  "from_utf8 a = Ok s \<Longrightarrow> from_utf8 (a @ b) =
    (case from_utf8 b of Ok t \<Rightarrow> Ok (s @ t)
     | Err e \<Rightarrow> Err (Utf8Error (length a + valid_up_to e) (error_len e)))"
proof (induction a arbitrary: s rule: from_utf8.induct)
  case 1
  then show ?case by (cases "from_utf8 b") auto
next
  case (2 x xs)
  from 2(2) obtain c n where d: "decode_one x xs = Scalar c n"
    by (auto split: decoded.splits)
  with 2(2) obtain s' where s': "from_utf8 (drop n (x # xs)) = Ok s'" "s = c # s'"
    by (auto split: sum.splits)
  note n = decode_one_length [OF d]
  have "decode_one x (xs @ b) = Scalar c n" using decode_one_append [of x xs b] d by simp
  moreover have "drop n (x # xs @ b) = drop n (x # xs) @ b" using n by (simp add: drop_Cons_append)
  ultimately show ?case
    using 2(1) [OF d s'(1)] s' n by (auto split: sum.splits)
qed

lemma from_utf8_append_Invalid:
  "from_utf8 a = Err (Utf8Error v (Some l)) \<Longrightarrow> from_utf8 (a @ b) = Err (Utf8Error v (Some l))"
proof (induction a arbitrary: v rule: from_utf8.induct)
  case (2 x xs)
  show ?case
  proof (cases "decode_one x xs")
    case (Scalar c n)
    note n = decode_one_length [OF Scalar]
    from 2(2) Scalar obtain e where e: "from_utf8 (drop n (x # xs)) = Err e"
        "v = n + valid_up_to e" "error_len e = Some l"
      by (auto split: sum.splits)
    have "drop n (x # xs @ b) = drop n (x # xs) @ b" using n by (simp add: drop_Cons_append)
    moreover have "from_utf8 (drop n (x # xs) @ b) = Err (Utf8Error (valid_up_to e) (Some l))"
      by (rule 2(1) [OF Scalar]) (use e in \<open>cases e; simp\<close>)
    ultimately show ?thesis using Scalar e decode_one_append [of x xs b] by simp
  qed (use 2(2) decode_one_append [of x xs b] in auto)
qed simp

lemma from_utf8_Incomplete:
  "from_utf8 a = Err (Utf8Error v None) \<Longrightarrow>
   v < length a \<and> (\<exists>s. from_utf8 (take v a) = Ok s) \<and> from_utf8 (drop v a) = Err (Utf8Error 0 None)"
proof (induction a arbitrary: v rule: from_utf8.induct)
  case (2 x xs)
  show ?case
  proof (cases "decode_one x xs")
    case (Scalar c n)
    note n = decode_one_length [OF Scalar]
    from 2(2) Scalar obtain e where e: "from_utf8 (drop n (x # xs)) = Err e"
        "v = n + valid_up_to e" "error_len e = None"
      by (auto split: sum.splits)
    have IH: "valid_up_to e < length (drop n (x # xs)) \<and>
        (\<exists>s. from_utf8 (take (valid_up_to e) (drop n (x # xs))) = Ok s) \<and>
        from_utf8 (drop (valid_up_to e) (drop n (x # xs))) = Err (Utf8Error 0 None)"
      by (rule 2(1) [OF Scalar]) (use e in \<open>cases e; simp\<close>)
    have "from_utf8 (take n (x # xs)) = Ok [c]"
      using decode_one_take [OF Scalar] n by (cases n) auto
    moreover have "take v (x # xs) = take n (x # xs) @ take (valid_up_to e) (drop n (x # xs))"
      using e(2) by (simp add: take_add)
    ultimately have "\<exists>s. from_utf8 (take v (x # xs)) = Ok s"
      using IH from_utf8_append_Ok [of "take n (x # xs)" "[c]"] by auto
    moreover have "drop v (x # xs) = drop (valid_up_to e) (drop n (x # xs))"
      using e(2) by (simp add: add.commute)
    ultimately show ?thesis using IH e(2) n by auto
  qed (use 2(2) in auto)
qed simp

section \<open>Encoding\<close>

definition is_scalar :: "uchar \<Rightarrow> bool" where
  "is_scalar c \<longleftrightarrow> c < 0x110000 \<and> \<not> (0xD800 \<le> c \<and> c \<le> 0xDFFF)"

definition encode_char :: "uchar \<Rightarrow> byte list" where
  "encode_char c =
     (if c < 0x80 then [c]
      else if c < 0x800 then [0xC0 + c div 64, 0x80 + c mod 64]
      else if c < 0x10000 then [0xE0 + c div 4096, 0x80 + c div 64 mod 64, 0x80 + c mod 64]
      else [0xF0 + c div 262144, 0x80 + c div 4096 mod 64, 0x80 + c div 64 mod 64, 0x80 + c mod 64])"

definition utf8_encode :: "str \<Rightarrow> byte list" where
  "utf8_encode s = concat (map encode_char s)"

lemma length_encode_char: "length (encode_char c) = len_utf8 c"
  by (simp add: encode_char_def len_utf8_def)

text \<open>The digits of a code point to the base 64, with their bounds.\<close>

lemma digits_64:
  fixes c :: nat
  shows "c div 64 * 64 + c mod 64 = c" "c mod 64 < 64"
    "c div 4096 * 64 + c div 64 mod 64 = c div 64" "c div 64 mod 64 < 64"
    "c div 262144 * 64 + c div 4096 mod 64 = c div 4096" "c div 4096 mod 64 < 64"
proof -
  have "c div 4096 = c div 64 div 64" "c div 262144 = c div 4096 div 64"
    by (simp_all flip: div_mult2_eq)
  then show "c div 4096 * 64 + c div 64 mod 64 = c div 64"
      "c div 262144 * 64 + c div 4096 mod 64 = c div 4096"
    by (metis div_mult_mod_eq)+
qed simp_all

lemma decode_encode_char:
  assumes "is_scalar c"
  shows "\<exists>b bs. encode_char c = b # bs \<and> decode_one b (bs @ rest) = Scalar c (length (encode_char c))"
proof -
  note dg = digits_64 [of c]
  have mx: "c mod 64 \<le> 63" "c div 64 mod 64 \<le> 63" "c div 4096 mod 64 \<le> 63"
    using dg(2,4,6) by linarith+
  consider "c < 0x80" | "0x80 \<le> c" "c < 0x800" | "0x800 \<le> c" "c < 0x10000" | "0x10000 \<le> c"
    by linarith
  then show ?thesis
  proof cases
    case 1
    then show ?thesis by (simp add: encode_char_def decode_one_def)
  next
    case 2
    have "2 \<le> c div 64" "c div 64 < 32" using 2 dg(1,2) by linarith+
    with 2 dg(1) mx show ?thesis
      by (auto simp: encode_char_def decode_one_def is_cont_def)
  next
    case 3
    have val: "c div 4096 * 4096 + c div 64 mod 64 * 64 + c mod 64 = c"
      using dg(1,3) by linarith
    have "c div 4096 < 16" "c div 4096 = 0 \<Longrightarrow> 32 \<le> c div 64 mod 64"
      using 3 dg by linarith+
    moreover have "c div 4096 = 13 \<Longrightarrow> c div 64 mod 64 < 32"
      using assms dg unfolding is_scalar_def by linarith
    ultimately show ?thesis using 3 mx val
      by (auto simp: encode_char_def decode_one_def is_cont_def second_of_three_def)
  next
    case 4
    have val: "c div 262144 * 262144 + c div 4096 mod 64 * 4096 + c div 64 mod 64 * 64 + c mod 64 = c"
      using dg(1,3,5) by linarith
    have lt: "c < 0x110000" using assms by (simp add: is_scalar_def)
    have "c div 262144 \<le> 4" "c div 262144 = 0 \<Longrightarrow> 16 \<le> c div 4096 mod 64"
        "c div 262144 = 4 \<Longrightarrow> c div 4096 mod 64 < 16"
      using 4 lt dg by linarith+
    then show ?thesis using 4 mx val
      by (auto simp: encode_char_def decode_one_def is_cont_def second_of_four_def)
  qed
qed

lemma from_utf8_encode: "list_all is_scalar s \<Longrightarrow> from_utf8 (utf8_encode s) = Ok s"
proof (induction s)
  case (Cons c s)
  then obtain b bs where "encode_char c = b # bs"
      "decode_one b (bs @ utf8_encode s) = Scalar c (length (encode_char c))"
    using decode_encode_char [of c "utf8_encode s"] by auto
  moreover have "utf8_encode (c # s) = encode_char c @ utf8_encode s" by (simp add: utf8_encode_def)
  ultimately show ?case using Cons by simp
qed (simp add: utf8_encode_def)

end
