(* ===== verification/Utf8_Stream.thy ===== *)
theory Utf8_Stream
  imports Utf8 Citation
begin

text \<open>
  Raw bytes for a parser of streamed text, \<^verbatim>\<open>utils/stream-parser/src/utf8_stream.rs\<close>.  The
  wrapper decodes what it can and keeps an unfinished character for the next chunk.  It
  knows the wrapped parser only by the contract of \<open>Stream_Text\<close>: over any chunks of a
  valid encoding the wrapped parser sees the decoded text, a chunk that makes the input
  invalid is refused and changes nothing.
\<close>

section \<open>Model\<close>

datatype utf8_stream_parser_error =
  InvalidUtf8 nat nat
| IncompleteUtf8AtEof

record 's utf8_stream_parser =
  inner_parser :: 's
  pending_utf8 :: "byte list"

definition new_utf8_parser :: "'s \<Rightarrow> 's utf8_stream_parser" where
  "new_utf8_parser s = \<lparr> inner_parser = s, pending_utf8 = [] \<rparr>"

definition unwrap_or_zero :: "nat option \<Rightarrow> nat" where
  "unwrap_or_zero n = (case n of Some k \<Rightarrow> k | None \<Rightarrow> 0)"

text \<open>The buffer is extended before decoding and cut back on an error.\<close>

definition push_bytes ::
    "('s \<Rightarrow> str \<Rightarrow> 'e stream_text_chunk \<times> 's) \<Rightarrow> 's utf8_stream_parser \<Rightarrow> byte list \<Rightarrow>
     (utf8_stream_parser_error + 'e stream_text_chunk) \<times> 's utf8_stream_parser" where
  "push_bytes push p chunk =
     (let old_len = length (pending_utf8 p);
          p = p\<lparr> pending_utf8 := pending_utf8 p @ chunk \<rparr> in
      case from_utf8 (pending_utf8 p) of
        Ok s \<Rightarrow>
          (let (out, inner) = push (inner_parser p) s
           in (Ok out, p\<lparr> inner_parser := inner, pending_utf8 := [] \<rparr>))
      | Err err \<Rightarrow>
          (case error_len err of
             Some len \<Rightarrow>
               (Err (InvalidUtf8 (valid_up_to err) len),
                p\<lparr> pending_utf8 := take old_len (pending_utf8 p) \<rparr>)
           | None \<Rightarrow>
               if valid_up_to err = 0 then (Ok default_chunk, p)
               else
                 (case from_utf8 (take (valid_up_to err) (pending_utf8 p)) of
                    Ok s \<Rightarrow>
                      (let (out, inner) = push (inner_parser p) s
                       in (Ok out, p\<lparr> inner_parser := inner,
                             pending_utf8 := drop (valid_up_to err) (pending_utf8 p) \<rparr>))
                  | Err prefix_err \<Rightarrow>
                      (Err (InvalidUtf8 (valid_up_to prefix_err)
                             (unwrap_or_zero (error_len prefix_err))),
                       p\<lparr> pending_utf8 := take old_len (pending_utf8 p) \<rparr>))))"

definition utf8_finish ::
    "('s \<Rightarrow> str \<Rightarrow> 'e stream_text_chunk \<times> 's) \<Rightarrow> ('s \<Rightarrow> 'e stream_text_chunk \<times> 's) \<Rightarrow>
     's utf8_stream_parser \<Rightarrow>
     (utf8_stream_parser_error + 'e stream_text_chunk) \<times> 's utf8_stream_parser" where
  "utf8_finish push fin p =
     (case (if pending_utf8 p = [] then Ok (default_chunk, p)
            else case from_utf8 (pending_utf8 p) of
              Ok s \<Rightarrow>
                (let (out, inner) = push (inner_parser p) s
                 in Ok (out, p\<lparr> inner_parser := inner, pending_utf8 := [] \<rparr>))
            | Err err \<Rightarrow>
                (case error_len err of
                   Some len \<Rightarrow> Err (InvalidUtf8 (valid_up_to err) len)
                 | None \<Rightarrow> Err IncompleteUtf8AtEof)) of
        Err e \<Rightarrow> (Err e, p)
      | Ok (out, p) \<Rightarrow>
          (let (tail, inner) = fin (inner_parser p)
           in (Ok (append_chunk out tail), p\<lparr> inner_parser := inner \<rparr>)))"

definition into_inner :: "'s utf8_stream_parser \<Rightarrow> utf8_stream_parser_error + 's" where
  "into_inner p =
     (if pending_utf8 p = [] then Ok (inner_parser p)
      else case from_utf8 (pending_utf8 p) of
        Ok _ \<Rightarrow> Ok (inner_parser p)
      | Err err \<Rightarrow>
          (case error_len err of
             Some len \<Rightarrow> Err (InvalidUtf8 (valid_up_to err) len)
           | None \<Rightarrow> Err IncompleteUtf8AtEof))"

definition into_inner_lossy :: "'s utf8_stream_parser \<Rightarrow> 's" where
  "into_inner_lossy p = inner_parser p"

section \<open>Streams of bytes\<close>

fun push_bytes_all ::
    "('s \<Rightarrow> str \<Rightarrow> 'e stream_text_chunk \<times> 's) \<Rightarrow> 's utf8_stream_parser \<Rightarrow> byte list list \<Rightarrow>
     (utf8_stream_parser_error + 'e stream_text_chunk) \<times> 's utf8_stream_parser" where
  "push_bytes_all push p [] = (Ok default_chunk, p)"
| "push_bytes_all push p (b # bs) =
     (case push_bytes push p b of
        (Err e, p) \<Rightarrow> (Err e, p)
      | (Ok out, p) \<Rightarrow>
          (case push_bytes_all push p bs of
             (Err e, p) \<Rightarrow> (Err e, p)
           | (Ok outs, p) \<Rightarrow> (Ok (append_chunk out outs), p)))"

lemma push_bytes_rollback:
  assumes "push_bytes push p chunk = (Err e, p')"
  shows "p' = p"
  using assms by (cases p)
    (auto simp: push_bytes_def Let_def split: sum.splits option.splits if_splits prod.splits)

text \<open>What a chunk does, by what the buffer and the chunk decode to.\<close>

lemma push_bytes_Ok:
  "from_utf8 (pending_utf8 p @ chunk) = Ok s \<Longrightarrow>
   push_bytes push p chunk =
     (Ok (fst (push (inner_parser p) s)),
      \<lparr> inner_parser = snd (push (inner_parser p) s), pending_utf8 = [] \<rparr>)"
  by (cases p) (simp add: push_bytes_def split_beta)

lemma push_bytes_Invalid:
  "from_utf8 (pending_utf8 p @ chunk) = Err (Utf8Error v (Some l)) \<Longrightarrow>
   push_bytes push p chunk = (Err (InvalidUtf8 v l), p)"
  by (cases p) (simp add: push_bytes_def)

text \<open>The buffer between two calls: empty, or the beginning of a character.\<close>

definition unfinished :: "byte list \<Rightarrow> bool" where
  "unfinished r \<longleftrightarrow> r = [] \<or> from_utf8 r = Err (Utf8Error 0 None)"

context stream_text_parser
begin

lemma push_bytes_partial:
  assumes i: "inv (inner_parser p)"
    and v: "from_utf8 (pending_utf8 p @ chunk) = Err (Utf8Error v None)"
    and s: "from_utf8 (take v (pending_utf8 p @ chunk)) = Ok s"
  shows "push_bytes push p chunk =
     (Ok (fst (push (inner_parser p) s)),
      \<lparr> inner_parser = snd (push (inner_parser p) s),
        pending_utf8 = drop v (pending_utf8 p @ chunk) \<rparr>)"
proof (cases "v = 0")
  case True
  with s have "s = []" by simp
  with True v i show ?thesis by (cases p) (simp add: push_bytes_def push_nil)
next
  case False
  with v s show ?thesis by (cases p) (simp add: push_bytes_def split_beta)
qed

lemma push_bytes_step:
  assumes i: "inv (inner_parser p)"
    and ok: "\<And>v l. from_utf8 (pending_utf8 p @ b) \<noteq> Err (Utf8Error v (Some l))"
  obtains s r where "push_bytes push p b =
      (Ok (fst (push (inner_parser p) s)),
       \<lparr> inner_parser = snd (push (inner_parser p) s), pending_utf8 = r \<rparr>)"
    "unfinished r" "\<And>rest. from_utf8 (pending_utf8 p @ b @ rest) =
      (case from_utf8 (r @ rest) of Ok t \<Rightarrow> Ok (s @ t)
       | Err e \<Rightarrow> Err (Utf8Error (length (pending_utf8 p @ b) - length r + valid_up_to e) (error_len e)))"
proof (cases "from_utf8 (pending_utf8 p @ b)")
  case (Inr s)
  show thesis
  proof (rule that [of s "[]"])
    show "push_bytes push p b = (Ok (fst (push (inner_parser p) s)),
        \<lparr> inner_parser = snd (push (inner_parser p) s), pending_utf8 = [] \<rparr>)"
      by (rule push_bytes_Ok [OF Inr])
    show "unfinished []" by (simp add: unfinished_def)
  qed (use from_utf8_append_Ok [OF Inr] in \<open>simp split: sum.split\<close>)
next
  case (Inl e)
  obtain v where e: "e = Utf8Error v None"
    using ok Inl by (cases e; cases "error_len e") auto
  let ?buf = "pending_utf8 p @ b"
  note inc = from_utf8_Incomplete [OF Inl [unfolded e]]
  then obtain s where s: "from_utf8 (take v ?buf) = Ok s" by blast
  have split: "pending_utf8 p @ b @ rest = take v ?buf @ (drop v ?buf @ rest)" for rest
    by (metis append_assoc append_take_drop_id)
  show thesis
  proof (rule that [of s "drop v ?buf"])
    show "push_bytes push p b = (Ok (fst (push (inner_parser p) s)),
        \<lparr> inner_parser = snd (push (inner_parser p) s), pending_utf8 = drop v ?buf \<rparr>)"
      by (rule push_bytes_partial [OF i Inl [unfolded e] s])
    show "unfinished (drop v ?buf)" using inc by (simp add: unfinished_def)
    show "from_utf8 (pending_utf8 p @ b @ rest) =
      (case from_utf8 (drop v ?buf @ rest) of Ok t \<Rightarrow> Ok (s @ t)
       | Err e \<Rightarrow> Err (Utf8Error (length ?buf - length (drop v ?buf) + valid_up_to e) (error_len e)))"
      for rest
      unfolding split [of rest] using from_utf8_append_Ok [OF s, of "drop v ?buf @ rest"] inc
      by (simp add: min_def split: sum.split)
  qed
qed

lemma push_bytes_all_Ok:
  "inv (inner_parser p) \<Longrightarrow> unfinished (pending_utf8 p) \<Longrightarrow>
   from_utf8 (pending_utf8 p @ concat bs) = Ok s \<Longrightarrow>
   \<exists>out. push_bytes_all push p bs =
       (Ok out, \<lparr> inner_parser = snd (push (inner_parser p) s), pending_utf8 = [] \<rparr>) \<and>
     same_chunk canon out (fst (push (inner_parser p) s))"
proof (induction bs arbitrary: p s)
  case Nil
  then have "pending_utf8 p = []" "s = []" by (auto simp: unfinished_def)
  with Nil.prems(1) show ?case by (cases p) (simp add: push_nil)
next
  case (Cons b bs)
  have "from_utf8 (pending_utf8 p @ b) \<noteq> Err (Utf8Error v (Some l))" for v l
    using from_utf8_append_Invalid [of "pending_utf8 p @ b" v l "concat bs"] Cons.prems(3) by auto
  from push_bytes_step [OF Cons.prems(1) this] obtain s1 r where
      step: "push_bytes push p b = (Ok (fst (push (inner_parser p) s1)),
        \<lparr> inner_parser = snd (push (inner_parser p) s1), pending_utf8 = r \<rparr>)"
      and r: "unfinished r" and dec: "\<And>rest. from_utf8 (pending_utf8 p @ b @ rest) =
      (case from_utf8 (r @ rest) of Ok t \<Rightarrow> Ok (s1 @ t)
       | Err e \<Rightarrow> Err (Utf8Error (length (pending_utf8 p @ b) - length r + valid_up_to e) (error_len e)))"
    by blast
  let ?p = "\<lparr> inner_parser = snd (push (inner_parser p) s1), pending_utf8 = r \<rparr>"
  obtain s2 where s2: "from_utf8 (r @ concat bs) = Ok s2" "s = s1 @ s2"
    using dec [of "concat bs"] Cons.prems(3) by (auto split: sum.splits)
  have "inv (inner_parser ?p)" using push_inv [OF Cons.prems(1)] by simp
  from Cons.IH [OF this] r s2 obtain out where
      out: "push_bytes_all push ?p bs =
        (Ok out, \<lparr> inner_parser = snd (push (inner_parser ?p) s2), pending_utf8 = [] \<rparr>)"
      "same_chunk canon out (fst (push (inner_parser ?p) s2))"
    by auto
  from push_split [OF Cons.prems(1), of s1 s2]
  have st: "snd (push (inner_parser p) s) = snd (push (inner_parser ?p) s2)"
    and sm: "same_chunk canon (append_chunk (fst (push (inner_parser p) s1))
        (fst (push (inner_parser ?p) s2))) (fst (push (inner_parser p) s))"
    by (auto simp: s2(2) intro: same_chunk_sym)
  have "same_chunk canon (append_chunk (fst (push (inner_parser p) s1)) out)
      (fst (push (inner_parser p) s))"
    by (rule same_chunk_trans [OF same_append [OF same_chunk_refl out(2)] sm])
  then show ?case using step out(1) st by simp
qed

lemma push_bytes_all_Invalid:
  "inv (inner_parser p) \<Longrightarrow> unfinished (pending_utf8 p) \<Longrightarrow>
   from_utf8 (pending_utf8 p @ concat bs) = Err (Utf8Error v (Some l)) \<Longrightarrow>
   \<exists>k p'. push_bytes_all push p bs = (Err (InvalidUtf8 k l), p')"
proof (induction bs arbitrary: p v)
  case Nil
  then show ?case by (auto simp: unfinished_def)
next
  case (Cons b bs)
  show ?case
  proof (cases "\<exists>k m. from_utf8 (pending_utf8 p @ b) = Err (Utf8Error k (Some m))")
    case True
    then obtain k m where km: "from_utf8 (pending_utf8 p @ b) = Err (Utf8Error k (Some m))" by blast
    with from_utf8_append_Invalid [OF km, of "concat bs"] Cons.prems(3)
    show ?thesis by (simp add: push_bytes_Invalid)
  next
    case False
    then have "\<And>v l. from_utf8 (pending_utf8 p @ b) \<noteq> Err (Utf8Error v (Some l))" by blast
    from push_bytes_step [OF Cons.prems(1) this] obtain s1 r where
        step: "push_bytes push p b = (Ok (fst (push (inner_parser p) s1)),
          \<lparr> inner_parser = snd (push (inner_parser p) s1), pending_utf8 = r \<rparr>)"
        and r: "unfinished r" and dec: "\<And>rest. from_utf8 (pending_utf8 p @ b @ rest) =
        (case from_utf8 (r @ rest) of Ok t \<Rightarrow> Ok (s1 @ t)
         | Err e \<Rightarrow> Err (Utf8Error (length (pending_utf8 p @ b) - length r + valid_up_to e) (error_len e)))"
      by blast
    let ?p = "\<lparr> inner_parser = snd (push (inner_parser p) s1), pending_utf8 = r \<rparr>"
    obtain v' where v': "from_utf8 (r @ concat bs) = Err (Utf8Error v' (Some l))"
      using dec [of "concat bs"] Cons.prems(3)
      by (auto split: sum.splits) (metis utf8_error.collapse)
    have "inv (inner_parser ?p)" using push_inv [OF Cons.prems(1)] by simp
    from Cons.IH [OF this] r v' step show ?thesis by fastforce
  qed
qed

end

section \<open>Properties\<close>

text \<open>
  C15. Over any chunks of the UTF-8 encoding of a text, also chunks that end inside a
  character, the bytes are all accepted, no byte is left over, and the wrapped parser has
  produced what it produces for the text, for every parser that meets the contract.
\<close>

theorem push_bytes_any_chunks:
  assumes "stream_text_parser push fin good canon" "good s" "list_all is_scalar t"
    and "concat bs = utf8_encode t"
  shows "\<exists>out. push_bytes_all push (new_utf8_parser s) bs =
      (Ok out, \<lparr> inner_parser = snd (push s t), pending_utf8 = [] \<rparr>) \<and>
    same_chunk canon out (fst (push s t))"
  using stream_text_parser.push_bytes_all_Ok [OF assms(1), of "new_utf8_parser s" bs t]
    from_utf8_encode [OF assms(3)] assms(2,4)
  by (simp add: new_utf8_parser_def unfinished_def)

theorem push_bytes_any_chunks_witness:
  "\<exists>out q. push_bytes_all citation_push (new_utf8_parser new_citation_parser) [[195], [169, 65]] =
      (Ok out, q) \<and> pending_utf8 q = [] \<and>
    visible_text out = visible_text (fst (citation_push new_citation_parser [233, 65]))"
proof -
  have "list_all is_scalar [233, 65]" "concat [[195], [169, 65]] = utf8_encode [233, 65]"
    by (simp_all add: is_scalar_def utf8_encode_def encode_char_def)
  from push_bytes_any_chunks [OF citations.stream_text_parser_axioms new_citation_inv this]
  show ?thesis by (auto simp: same_chunk_def)
qed

text \<open>
  A refused chunk leaves no trace: when pushing bytes reports an error, the parser, its
  buffer included, is as it was before the call.
\<close>

theorem push_bytes_error_rollback:
  assumes "push_bytes push p chunk = (Err e, p')"
  shows "p' = p"
  by (rule push_bytes_rollback [OF assms])

theorem push_bytes_error_rollback_witness:
  "push_bytes citation_push (new_utf8_parser new_citation_parser) [65, 255] =
    (Err (InvalidUtf8 1 1), new_utf8_parser new_citation_parser)"
proof -
  have "from_utf8 [65, 255] = Err (Utf8Error 1 (Some 1))" by (simp add: decode_one_def)
  then have "fst (push_bytes citation_push (new_utf8_parser new_citation_parser) [65, 255]) =
      Err (InvalidUtf8 1 1)"
    by (simp add: push_bytes_def new_utf8_parser_def)
  then obtain p' where run: "push_bytes citation_push (new_utf8_parser new_citation_parser) [65, 255] =
      (Err (InvalidUtf8 1 1), p')" by (metis prod.collapse)
  from push_bytes_error_rollback [OF run] run show ?thesis by simp
qed

text \<open>
  Invalid bytes do not get through: if the bytes of all chunks together are not UTF-8 and
  are not merely cut short, pushing them reports an invalid sequence of the length the
  decoder reports, however they are cut.
\<close>

theorem push_bytes_detects_invalid:
  assumes "stream_text_parser push fin good canon" "good s"
    and "from_utf8 (concat bs) = Err (Utf8Error v (Some l))"
  shows "\<exists>k p'. push_bytes_all push (new_utf8_parser s) bs = (Err (InvalidUtf8 k l), p')"
  using stream_text_parser.push_bytes_all_Invalid [OF assms(1), of "new_utf8_parser s" bs v l]
    assms(2,3) by (simp add: new_utf8_parser_def unfinished_def)

theorem push_bytes_detects_invalid_witness:
  "\<exists>k p'. push_bytes_all citation_push (new_utf8_parser new_citation_parser) [[226], [130], [65]] =
    (Err (InvalidUtf8 k 2), p')"
proof -
  have "from_utf8 (concat [[226], [130], [65]]) = Err (Utf8Error 0 (Some 2))"
    by (simp add: decode_one_def second_of_three_def is_cont_def)
  from push_bytes_detects_invalid [OF citations.stream_text_parser_axioms new_citation_inv this]
  show ?thesis .
qed

end
