(* ===== verification/Exec_Policy.thy ===== *)
theory Exec_Policy
  imports Prelude "HOL-Library.List_Lexorder"
begin

text \<open>
  The rules that decide whether a command may run: \<^verbatim>\<open>execpolicy/src/decision.rs\<close>,
  \<^verbatim>\<open>rule.rs\<close>, \<^verbatim>\<open>executable_name.rs\<close> and \<^verbatim>\<open>policy.rs\<close>.  The multimap of rules is an
  association list with distinct programs, in some order of iteration; no result depends on
  that order.  The resolution of a program to an absolute path is a parameter.
\<close>

section \<open>Decisions\<close>

datatype decision = Allow | Prompt | Forbidden

fun decision_rank :: "decision \<Rightarrow> nat" where
  "decision_rank Allow = 0" | "decision_rank Prompt = 1" | "decision_rank Forbidden = 2"

text \<open>The derived order: the order of the constructors.\<close>

instantiation decision :: linorder
begin

definition less_eq_decision :: "decision \<Rightarrow> decision \<Rightarrow> bool" where
  "less_eq_decision a b \<longleftrightarrow> decision_rank a \<le> decision_rank b"

definition less_decision :: "decision \<Rightarrow> decision \<Rightarrow> bool" where
  "less_decision a b \<longleftrightarrow> decision_rank a < decision_rank b"

instance
proof
  fix x y z :: decision
  show "x < y \<longleftrightarrow> x \<le> y \<and> \<not> y \<le> x"
    by (auto simp: less_eq_decision_def less_decision_def)
  show "x \<le> x" by (simp add: less_eq_decision_def)
  show "x \<le> y \<Longrightarrow> y \<le> z \<Longrightarrow> x \<le> z" by (simp add: less_eq_decision_def)
  show "x \<le> y \<Longrightarrow> y \<le> x \<Longrightarrow> x = y"
    by (cases x; cases y) (auto simp: less_eq_decision_def)
  show "x \<le> y \<or> y \<le> x" by (auto simp: less_eq_decision_def)
qed

end

datatype policy_error =
  InvalidDecision str
| InvalidPattern str
| InvalidExample str
| InvalidRule str
| ExampleDidNotMatch "str list" "str list"
| ExampleDidMatch str str

definition parse_decision :: "str \<Rightarrow> policy_error + decision" where
  "parse_decision raw =
     (if raw = lit ''allow'' then Ok Allow
      else if raw = lit ''prompt'' then Ok Prompt
      else if raw = lit ''forbidden'' then Ok Forbidden
      else Err (InvalidDecision raw))"

section \<open>Rules\<close>

datatype pattern_token = Single str | Alts "str list"

fun token_matches :: "pattern_token \<Rightarrow> str \<Rightarrow> bool" where
  "token_matches (Single expected) token \<longleftrightarrow> expected = token"
| "token_matches (Alts alternatives) token \<longleftrightarrow> list_ex (\<lambda>alt. alt = token) alternatives"

fun alternatives :: "pattern_token \<Rightarrow> str list" where
  "alternatives (Single expected) = [expected]"
| "alternatives (Alts alts) = alts"

record prefix_pattern =
  first_token :: str
  rest_tokens :: "pattern_token list"

definition matches_prefix :: "prefix_pattern \<Rightarrow> str list \<Rightarrow> str list option" where
  "matches_prefix pat cmd =
     (let pattern_length = length (rest_tokens pat) + 1 in
      if length cmd < pattern_length \<or> hd cmd \<noteq> first_token pat then None
      else if list_ex (\<lambda>(t, c). \<not> token_matches t c)
                (zip (rest_tokens pat) (drop 1 (take pattern_length cmd))) then None
      else Some (take pattern_length cmd))"

datatype rule_match =
  PrefixRuleMatch "str list" decision "str option" "str option"
| HeuristicsRuleMatch "str list" decision

fun match_decision :: "rule_match \<Rightarrow> decision" where
  "match_decision (PrefixRuleMatch _ d _ _) = d"
| "match_decision (HeuristicsRuleMatch _ d) = d"

fun with_resolved_program :: "str \<Rightarrow> rule_match \<Rightarrow> rule_match" where
  "with_resolved_program program (PrefixRuleMatch matched d _ why) =
     PrefixRuleMatch matched d (Some program) why"
| "with_resolved_program program m = m"

record prefix_rule =
  pattern :: prefix_pattern
  rule_decision :: decision
  justification :: "str option"

definition rule_program :: "prefix_rule \<Rightarrow> str" where
  "rule_program r = first_token (pattern r)"

definition rule_matches :: "prefix_rule \<Rightarrow> str list \<Rightarrow> rule_match option" where
  "rule_matches r cmd =
     map_option (\<lambda>matched. PrefixRuleMatch matched (rule_decision r) None (justification r))
       (matches_prefix (pattern r) cmd)"

section \<open>Network rules\<close>

datatype network_rule_protocol = Http | Https | Socks5Tcp | Socks5Udp

definition parse_protocol :: "str \<Rightarrow> policy_error + network_rule_protocol" where
  "parse_protocol raw =
     (if raw = lit ''http'' then Ok Http
      else if raw = lit ''https'' \<or> raw = lit ''https_connect'' \<or> raw = lit ''http-connect''
      then Ok Https
      else if raw = lit ''socks5_tcp'' then Ok Socks5Tcp
      else if raw = lit ''socks5_udp'' then Ok Socks5Udp
      else Err (InvalidRule
        (lit ''network_rule protocol must be one of http, https, socks5_tcp, socks5_udp (got '' @
         raw @ lit '')'')))"

fun as_policy_string :: "network_rule_protocol \<Rightarrow> str" where
  "as_policy_string Http = lit ''http''"
| "as_policy_string Https = lit ''https''"
| "as_policy_string Socks5Tcp = lit ''socks5_tcp''"
| "as_policy_string Socks5Udp = lit ''socks5_udp''"

record network_rule =
  net_host :: str
  net_protocol :: network_rule_protocol
  net_decision :: decision
  net_justification :: "str option"

definition is_port :: "str \<Rightarrow> bool" where
  "is_port port \<longleftrightarrow> port \<noteq> [] \<and> list_all is_ascii_digit port"

definition host_empty :: policy_error where
  "host_empty = InvalidRule (lit ''network_rule host cannot be empty'')"

text \<open>The host without brackets and port.\<close>

definition strip_host_port :: "str \<Rightarrow> str \<Rightarrow> policy_error + str" where
  "strip_host_port raw host =
     (case strip_prefix host (lit ''['') of
        Some stripped \<Rightarrow>
          (case split_once 93 stripped of
             None \<Rightarrow> Err (InvalidRule
               (lit ''network_rule host has an invalid bracketed IPv6 literal''))
           | Some (inside, rest) \<Rightarrow>
               (let port_ok =
                  (case strip_prefix rest (lit '':'') of Some port \<Rightarrow> is_port port | None \<Rightarrow> False) in
                if rest \<noteq> [] \<and> \<not> port_ok
                then Err (InvalidRule
                  (lit ''network_rule host contains an unsupported suffix: '' @ raw))
                else Ok inside))
      | None \<Rightarrow>
          if count_list host 58 = 1 then
            (case rsplit_once 58 host of
               Some (candidate, port) \<Rightarrow>
                 if candidate \<noteq> [] \<and> is_port port then Ok candidate else Ok host
             | None \<Rightarrow> Ok host)
          else Ok host)"

definition normalize_network_rule_host :: "str \<Rightarrow> policy_error + str" where
  "normalize_network_rule_host raw =
     (let host = trim raw in
      if host = [] then Err host_empty
      else if contains_str host (lit ''://'') \<or> 47 \<in> set host \<or> 63 \<in> set host \<or> 35 \<in> set host
      then Err (InvalidRule
        (lit ''network_rule host must be a hostname or IP literal (without scheme or path)''))
      else
        (case strip_host_port raw host of
           Err e \<Rightarrow> Err e
         | Ok host \<Rightarrow>
             (let normalized = to_ascii_lowercase (trim (trim_end_matches (\<lambda>c. c = 46) host)) in
              if normalized = [] then Err host_empty
              else if 42 \<in> set normalized
              then Err (InvalidRule
                (lit ''network_rule host must be a specific host; wildcards are not allowed''))
              else if list_ex is_whitespace normalized
              then Err (InvalidRule (lit ''network_rule host cannot contain whitespace''))
              else Ok normalized)))"

section \<open>Policies\<close>

record match_options =
  resolve_host_executables :: bool

definition default_options :: match_options where
  "default_options = \<lparr> resolve_host_executables = False \<rparr>"

type_synonym 'v multimap = "(str \<times> 'v list) list"

fun multimap_insert :: "str \<Rightarrow> 'v \<Rightarrow> 'v multimap \<Rightarrow> 'v multimap" where
  "multimap_insert k v [] = [(k, [v])]"
| "multimap_insert k v ((k', vs) # m) =
     (if k' = k then (k', vs @ [v]) # m else (k', vs) # multimap_insert k v m)"

record policy =
  rules_by_program :: "prefix_rule multimap"
  network_rules :: "network_rule list"
  host_executables_by_name :: "str \<Rightarrow> str list option"

definition empty_policy :: policy where
  "empty_policy =
     \<lparr> rules_by_program = [], network_rules = [], host_executables_by_name = Map.empty \<rparr>"

fun render_pattern_token :: "pattern_token \<Rightarrow> str" where
  "render_pattern_token (Single v) = v"
| "render_pattern_token (Alts alts) = lit ''['' @ join_str (lit ''|'') alts @ lit '']''"

text \<open>\<open>sort\<close> and then \<open>dedup\<close>, which removes repeated neighbours.\<close>

definition get_allowed_prefixes :: "policy \<Rightarrow> str list list" where
  "get_allowed_prefixes p =
     (let prefixes =
        concat (map (\<lambda>(program, rules).
          map (\<lambda>r. first_token (pattern r) # map render_pattern_token (rest_tokens (pattern r)))
            (filter (\<lambda>r. rule_decision r = Allow) rules)) (rules_by_program p))
      in remdups_adj (sort prefixes))"

definition add_prefix_rule :: "policy \<Rightarrow> str list \<Rightarrow> decision \<Rightarrow> policy_error + policy" where
  "add_prefix_rule p tokens d =
     (case tokens of
        [] \<Rightarrow> Err (InvalidPattern (lit ''prefix cannot be empty''))
      | first # rest \<Rightarrow>
          Ok (p\<lparr> rules_by_program := multimap_insert first
                \<lparr> pattern = \<lparr> first_token = first, rest_tokens = map Single rest \<rparr>,
                  rule_decision = d, justification = None \<rparr> (rules_by_program p) \<rparr>))"

definition add_network_rule ::
    "policy \<Rightarrow> str \<Rightarrow> network_rule_protocol \<Rightarrow> decision \<Rightarrow> str option \<Rightarrow> policy_error + policy" where
  "add_network_rule p raw proto d why =
     (case normalize_network_rule_host raw of
        Err e \<Rightarrow> Err e
      | Ok host \<Rightarrow>
          if (case why of Some s \<Rightarrow> trim s = [] | None \<Rightarrow> False)
          then Err (InvalidRule (lit ''justification cannot be empty''))
          else Ok (p\<lparr> network_rules := network_rules p @
            [\<lparr> net_host = host, net_protocol = proto, net_decision = d, net_justification = why \<rparr>] \<rparr>))"

definition set_host_executable_paths :: "policy \<Rightarrow> str \<Rightarrow> str list \<Rightarrow> policy" where
  "set_host_executable_paths p name paths =
     p\<lparr> host_executables_by_name := (host_executables_by_name p)(name \<mapsto> paths) \<rparr>"

definition merge_overlay :: "policy \<Rightarrow> policy \<Rightarrow> policy" where
  "merge_overlay p overlay =
     \<lparr> rules_by_program =
         fold (\<lambda>(program, rules) m. fold (multimap_insert program) rules m)
           (rules_by_program overlay) (rules_by_program p),
       network_rules = network_rules p @ network_rules overlay,
       host_executables_by_name = host_executables_by_name p ++ host_executables_by_name overlay \<rparr>"

definition upsert_domain :: "str list \<Rightarrow> str \<Rightarrow> str list" where
  "upsert_domain entries host = filter (\<lambda>entry. entry \<noteq> host) entries @ [host]"

fun compile_network_rule :: "network_rule \<Rightarrow> str list \<times> str list \<Rightarrow> str list \<times> str list" where
  "compile_network_rule r (allowed, denied) =
     (case net_decision r of
        Allow \<Rightarrow>
          (upsert_domain allowed (net_host r), filter (\<lambda>entry. entry \<noteq> net_host r) denied)
      | Forbidden \<Rightarrow>
          (filter (\<lambda>entry. entry \<noteq> net_host r) allowed, upsert_domain denied (net_host r))
      | Prompt \<Rightarrow> (allowed, denied))"

definition compiled_network_domains :: "policy \<Rightarrow> str list \<times> str list" where
  "compiled_network_domains p = fold compile_network_rule (network_rules p) ([], [])"

section \<open>Matching commands\<close>

text \<open>
  \<open>windows\<close> is the compilation target, \<open>absolute\<close> the conversion of a program to an absolute
  path, \<open>file_name\<close> the last component of a path as text.
\<close>

record program_paths =
  windows :: bool
  absolute :: "str \<Rightarrow> str option"
  file_name :: "str \<Rightarrow> str option"

definition WINDOWS_EXECUTABLE_SUFFIXES :: "str list" where
  "WINDOWS_EXECUTABLE_SUFFIXES = [lit ''.exe'', lit ''.cmd'', lit ''.bat'', lit ''.com'']"

definition executable_lookup_key :: "bool \<Rightarrow> str \<Rightarrow> str" where
  "executable_lookup_key win raw =
     (if win then
        (let raw = to_ascii_lowercase raw in
         case List.find (ends_with raw) WINDOWS_EXECUTABLE_SUFFIXES of
           Some sfx \<Rightarrow> take (length raw - length sfx) raw
         | None \<Rightarrow> raw)
      else raw)"

definition executable_path_lookup_key :: "program_paths \<Rightarrow> str \<Rightarrow> str option" where
  "executable_path_lookup_key pp path =
     map_option (executable_lookup_key (windows pp)) (file_name pp path)"

definition match_exact_rules :: "policy \<Rightarrow> str list \<Rightarrow> rule_match list option" where
  "match_exact_rules p cmd =
     (case cmd of
        [] \<Rightarrow> None
      | first # _ \<Rightarrow>
          Some (case map_of (rules_by_program p) first of
                  Some rules \<Rightarrow> List.map_filter (\<lambda>r. rule_matches r cmd) rules
                | None \<Rightarrow> []))"

definition match_host_executable_rules ::
    "program_paths \<Rightarrow> policy \<Rightarrow> str list \<Rightarrow> rule_match list" where
  "match_host_executable_rules pp p cmd =
     (case cmd of
        [] \<Rightarrow> []
      | first # args \<Rightarrow>
          (case absolute pp first of
             None \<Rightarrow> []
           | Some program \<Rightarrow>
               (case executable_path_lookup_key pp program of
                  None \<Rightarrow> []
                | Some basename \<Rightarrow>
                    (case map_of (rules_by_program p) basename of
                       None \<Rightarrow> []
                     | Some rules \<Rightarrow>
                         if (case host_executables_by_name p basename of
                               Some paths \<Rightarrow> program \<notin> set paths
                             | None \<Rightarrow> False)
                         then []
                         else map (with_resolved_program program)
                           (List.map_filter (\<lambda>r. rule_matches r (basename # args)) rules)))))"

definition matches_for_command_with_options ::
    "program_paths \<Rightarrow> policy \<Rightarrow> str list \<Rightarrow> (str list \<Rightarrow> decision) option \<Rightarrow> match_options \<Rightarrow>
     rule_match list" where
  "matches_for_command_with_options pp p cmd fallback opts =
     (let exact = (case match_exact_rules p cmd of Some ms \<Rightarrow> ms | None \<Rightarrow> []);
          matched =
            (if exact \<noteq> [] then exact
             else if resolve_host_executables opts then match_host_executable_rules pp p cmd
             else [])
      in case fallback of
           Some f \<Rightarrow> if matched = [] then [HeuristicsRuleMatch cmd (f cmd)] else matched
         | None \<Rightarrow> matched)"

definition matches_for_command ::
    "program_paths \<Rightarrow> policy \<Rightarrow> str list \<Rightarrow> (str list \<Rightarrow> decision) option \<Rightarrow> rule_match list" where
  "matches_for_command pp p cmd fallback =
     matches_for_command_with_options pp p cmd fallback default_options"

record evaluation =
  eval_decision :: decision
  matched_rules :: "rule_match list"

definition is_match :: "evaluation \<Rightarrow> bool" where
  "is_match ev = list_ex (\<lambda>m. case m of HeuristicsRuleMatch _ _ \<Rightarrow> False | _ \<Rightarrow> True) (matched_rules ev)"

text \<open>The maximum of no decisions is a panic, \<open>None\<close>.\<close>

definition from_matches :: "rule_match list \<Rightarrow> evaluation option" where
  "from_matches ms =
     (case map match_decision ms of
        [] \<Rightarrow> None
      | d # ds \<Rightarrow> Some \<lparr> eval_decision = fold max ds d, matched_rules = ms \<rparr>)"

definition check_with_options ::
    "program_paths \<Rightarrow> policy \<Rightarrow> str list \<Rightarrow> (str list \<Rightarrow> decision) \<Rightarrow> match_options \<Rightarrow>
     evaluation option" where
  "check_with_options pp p cmd fallback opts =
     from_matches (matches_for_command_with_options pp p cmd (Some fallback) opts)"

definition check_command ::
    "program_paths \<Rightarrow> policy \<Rightarrow> str list \<Rightarrow> (str list \<Rightarrow> decision) \<Rightarrow> evaluation option" where
  "check_command pp p cmd fallback =
     from_matches (matches_for_command_with_options pp p cmd (Some fallback) default_options)"

definition check_multiple_with_options ::
    "program_paths \<Rightarrow> policy \<Rightarrow> str list list \<Rightarrow> (str list \<Rightarrow> decision) \<Rightarrow> match_options \<Rightarrow>
     evaluation option" where
  "check_multiple_with_options pp p cmds fallback opts =
     from_matches (concat (map (\<lambda>cmd.
       matches_for_command_with_options pp p cmd (Some fallback) opts) cmds))"

definition check_multiple ::
    "program_paths \<Rightarrow> policy \<Rightarrow> str list list \<Rightarrow> (str list \<Rightarrow> decision) \<Rightarrow> evaluation option" where
  "check_multiple pp p cmds fallback =
     check_multiple_with_options pp p cmds fallback default_options"

end
