(* ===== verification/Policy_Laws.thy ===== *)
theory Policy_Laws
  imports Exec_Policy
begin

text \<open>
  What the operations of \<open>Exec_Policy\<close> promise: which commands a prefix matches, that the
  strictest matching rule decides, that an overlay can only tighten what the base policy
  decides, what adding a rule changes, and what the compiled network domains and the
  normalised hosts are.
\<close>

section \<open>The multimap\<close>


definition rules_for :: "'v multimap \<Rightarrow> str \<Rightarrow> 'v list" where
  "rules_for m k = (case map_of m k of Some vs \<Rightarrow> vs | None \<Rightarrow> [])"

lemma rules_for_insert:
  "rules_for (multimap_insert k v m) k' = (if k' = k then rules_for m k @ [v] else rules_for m k')"
  by (induction k v m rule: multimap_insert.induct) (auto simp: rules_for_def)


definition policy_wf :: "policy \<Rightarrow> bool" where
  "policy_wf p \<longleftrightarrow> distinct (map fst (rules_by_program p))"

lemma keys_multimap_insert: "set (map fst (multimap_insert k v m)) = insert k (set (map fst m))"
  by (induction k v m rule: multimap_insert.induct) auto

lemma multimap_insert_distinct:
  "distinct (map fst m) \<Longrightarrow> distinct (map fst (multimap_insert k v m))"
proof (induction k v m rule: multimap_insert.induct)
  case (2 k v k' vs m)
  then show ?case using keys_multimap_insert [of k v m] by auto
qed simp

lemma fold_insert_distinct:
  "distinct (map fst m) \<Longrightarrow> distinct (map fst (fold (multimap_insert k) vs m))"
  by (induction vs arbitrary: m) (simp_all add: multimap_insert_distinct)

lemma policy_wf_add: "policy_wf p \<Longrightarrow> add_prefix_rule p tokens d = Ok p' \<Longrightarrow> policy_wf p'"
  by (auto simp: add_prefix_rule_def policy_wf_def multimap_insert_distinct split: list.splits)

lemma policy_wf_merge:
  assumes "policy_wf p" shows "policy_wf (merge_overlay p q)"
proof -
  have "distinct (map fst m) \<Longrightarrow>
      distinct (map fst (fold (\<lambda>(k, vs) m. fold (multimap_insert k) vs m) es m))"
    for m es :: "prefix_rule multimap"
    by (induction es arbitrary: m) (auto simp: fold_insert_distinct)
  with assms show ?thesis by (simp add: policy_wf_def merge_overlay_def)
qed

section \<open>Matching\<close>

lemma matches_prefix_Some:
  "matches_prefix pat cmd = Some matched \<longleftrightarrow>
   (\<exists>args. cmd = matched @ args \<and> length matched = Suc (length (rest_tokens pat)) \<and>
      hd matched = first_token pat \<and> list_all2 token_matches (rest_tokens pat) (tl matched))"
proof -
  let ?n = "Suc (length (rest_tokens pat))"
  have tl: "drop (Suc 0) xs = tl xs" for xs :: "str list" by (simp add: drop_Suc)
  have all2: "\<not> list_ex (\<lambda>(t, c). \<not> token_matches t c) (zip ts cs) \<longleftrightarrow> list_all2 token_matches ts cs"
    if "length ts = length cs" for ts cs
    using that by (induction ts cs rule: list_induct2) auto
  show ?thesis
  proof
    assume m: "matches_prefix pat cmd = Some matched"
    then have len: "?n \<le> length cmd" "hd cmd = first_token pat" "matched = take ?n cmd"
      by (auto simp: matches_prefix_def Let_def split: if_splits)
    with m have "list_all2 token_matches (rest_tokens pat) (tl matched)"
      using all2 [of "rest_tokens pat" "tl (take ?n cmd)"]
      by (simp add: matches_prefix_def tl split: if_splits)
    moreover have "cmd = matched @ drop ?n cmd" "hd matched = hd cmd" "length matched = ?n"
      using len by (simp_all add: hd_conv_nth [symmetric])
    ultimately show "\<exists>args. cmd = matched @ args \<and> length matched = ?n \<and>
        hd matched = first_token pat \<and> list_all2 token_matches (rest_tokens pat) (tl matched)"
      using len(2) by metis
  next
    assume "\<exists>args. cmd = matched @ args \<and> length matched = ?n \<and>
        hd matched = first_token pat \<and> list_all2 token_matches (rest_tokens pat) (tl matched)"
    then obtain args where a: "cmd = matched @ args" "length matched = ?n"
        "hd matched = first_token pat" "list_all2 token_matches (rest_tokens pat) (tl matched)"
      by blast
    then have "take ?n cmd = matched" "hd cmd = first_token pat" "?n \<le> length cmd"
      by (auto simp: hd_append)
    with a all2 [of "rest_tokens pat" "tl matched"] show "matches_prefix pat cmd = Some matched"
      by (simp add: matches_prefix_def tl)
  qed
qed

lemma match_exact_eq:
  "cmd \<noteq> [] \<Longrightarrow> match_exact_rules p cmd =
    Some (List.map_filter (\<lambda>r. rule_matches r cmd) (rules_for (rules_by_program p) (hd cmd)))"
  by (cases cmd) (simp_all add: match_exact_rules_def rules_for_def split: option.split)

lemma map_filter_append: "List.map_filter f (xs @ ys) = List.map_filter f xs @ List.map_filter f ys"
  by (simp add: List.map_filter_def)


section \<open>Decisions\<close>

lemma fold_max_Max: "fold max ds d = Max (set (d # ds))" for d :: decision
proof -
  have "fold max ds d = fold max ds (Max {d})" by simp
  then show ?thesis by (metis Max.set_eq_fold)
qed

lemma from_matches_Some:
  "ms \<noteq> [] \<Longrightarrow> from_matches ms =
    Some \<lparr> eval_decision = Max (match_decision ` set ms), matched_rules = ms \<rparr>"
  by (cases ms) (simp_all add: from_matches_def fold_max_Max del: fold_simps)

lemma matches_nonempty:
  "matches_for_command_with_options pp p cmd (Some f) opts \<noteq> []"
  by (simp add: matches_for_command_with_options_def Let_def)

lemma check_with_options_Some:
  "check_with_options pp p cmd f opts =
    Some \<lparr> eval_decision =
        Max (match_decision ` set (matches_for_command_with_options pp p cmd (Some f) opts)),
      matched_rules = matches_for_command_with_options pp p cmd (Some f) opts \<rparr>"
  by (simp add: check_with_options_def from_matches_Some matches_nonempty)

lemma rule_matches_not_heuristic: "rule_matches r cmd \<noteq> Some (HeuristicsRuleMatch c d)"
  by (auto simp: rule_matches_def split: option.splits)

lemma policy_matches_not_heuristic:
  assumes "m \<in> set (matches_for_command_with_options pp p cmd None opts)"
  shows "m \<noteq> HeuristicsRuleMatch c d"
proof -
  have exact: "m \<noteq> HeuristicsRuleMatch c d" if "match_exact_rules p cmd = Some ms" "m \<in> set ms" for ms
    using that by (auto simp: match_exact_rules_def List.map_filter_def rule_matches_not_heuristic
        split: list.splits option.splits)
  have resolved: "HeuristicsRuleMatch c d = with_resolved_program n t \<longleftrightarrow> t = HeuristicsRuleMatch c d"
    for n t by (cases t) auto
  have host: "m \<noteq> HeuristicsRuleMatch c d" if "m \<in> set (match_host_executable_rules pp p cmd)"
    using that by (auto simp: match_host_executable_rules_def List.map_filter_def resolved rule_matches_not_heuristic
        split: list.splits option.splits if_splits)
  show ?thesis
    using assms exact host
    by (auto simp: matches_for_command_with_options_def Let_def split: option.splits if_splits)
qed

lemma is_match_iff:
  "is_match \<lparr> eval_decision = d, matched_rules = matches_for_command_with_options pp p cmd (Some f) opts \<rparr>
    \<longleftrightarrow> matches_for_command_with_options pp p cmd None opts \<noteq> []"
proof -
  let ?ms = "matches_for_command_with_options pp p cmd None opts"
  have "matches_for_command_with_options pp p cmd (Some f) opts =
      (if ?ms = [] then [HeuristicsRuleMatch cmd (f cmd)] else ?ms)"
    by (auto simp: matches_for_command_with_options_def Let_def)
  moreover have "(case m of HeuristicsRuleMatch _ _ \<Rightarrow> False | _ \<Rightarrow> True)" if "m \<in> set ?ms" for m
    using policy_matches_not_heuristic [OF that] by (cases m) auto
  ultimately show ?thesis by (cases ?ms) (auto simp: is_match_def list_ex_iff)
qed

lemma matches_exact:
  "match_exact_rules p cmd = Some ms \<Longrightarrow> ms \<noteq> [] \<Longrightarrow>
   matches_for_command_with_options pp p cmd fb opts = ms"
  by (simp add: matches_for_command_with_options_def split: option.split)

section \<open>Adding a prefix rule\<close>

definition plain_rule :: "str list \<Rightarrow> decision \<Rightarrow> prefix_rule" where
  "plain_rule tokens d =
     \<lparr> pattern = \<lparr> first_token = hd tokens, rest_tokens = map Single (tl tokens) \<rparr>,
       rule_decision = d, justification = None \<rparr>"

lemma list_all2_Single: "list_all2 token_matches (map Single ts) cs \<longleftrightarrow> cs = ts"
  by (induction ts arbitrary: cs) (auto simp: list_all2_Cons1)

lemma plain_rule_matches:
  assumes "tokens \<noteq> []"
  shows "rule_matches (plain_rule tokens d) cmd =
    (if prefix tokens cmd then Some (PrefixRuleMatch tokens d None None) else None)"
proof -
  have "matches_prefix (pattern (plain_rule tokens d)) cmd = Some m \<longleftrightarrow>
      m = tokens \<and> prefix tokens cmd" for m
    using assms unfolding matches_prefix_Some
    by (cases tokens; cases m) (auto simp: plain_rule_def list_all2_Single prefix_def)
  then show ?thesis
    by (cases "matches_prefix (pattern (plain_rule tokens d)) cmd")
       (auto simp: rule_matches_def plain_rule_def split: option.splits)
qed

lemma add_prefix_rule_Ok:
  "add_prefix_rule p tokens d = Ok p' \<longleftrightarrow> tokens \<noteq> [] \<and>
    p' = p\<lparr> rules_by_program := multimap_insert (hd tokens) (plain_rule tokens d) (rules_by_program p) \<rparr>"
  by (cases tokens) (auto simp: add_prefix_rule_def plain_rule_def)

lemma match_exact_add:
  assumes "add_prefix_rule p tokens d = Ok p'" "cmd \<noteq> []"
  shows "match_exact_rules p' cmd = Some (the (match_exact_rules p cmd) @
    (if prefix tokens cmd then [PrefixRuleMatch tokens d None None] else []))"
proof -
  have t: "tokens \<noteq> []" "rules_by_program p' =
      multimap_insert (hd tokens) (plain_rule tokens d) (rules_by_program p)"
    using assms(1) by (auto simp: add_prefix_rule_Ok)
  have "hd cmd = hd tokens" if "prefix tokens cmd" using that t(1) by (auto simp: prefix_def)
  then show ?thesis
    using assms(2) t plain_rule_matches [OF t(1), of d cmd]
    by (auto simp: match_exact_eq rules_for_insert map_filter_append List.map_filter_simps)
qed

section \<open>Network domains\<close>

text \<open>The last rule for a host that allows or forbids it.\<close>

definition last_network_decision :: "network_rule list \<Rightarrow> str \<Rightarrow> decision option" where
  "last_network_decision rs h =
     map_option net_decision
       (List.find (\<lambda>r. net_host r = h \<and> net_decision r \<noteq> Prompt) (rev rs))"

lemma compile_domains:
  assumes "fold compile_network_rule rs ([], []) = (allowed, denied)"
  shows "distinct allowed \<and> distinct denied \<and> set allowed \<inter> set denied = {} \<and>
    (\<forall>h. (h \<in> set allowed \<longleftrightarrow> last_network_decision rs h = Some Allow) \<and>
         (h \<in> set denied \<longleftrightarrow> last_network_decision rs h = Some Forbidden))"
  using assms
proof (induction rs arbitrary: allowed denied rule: rev_induct)
  case Nil
  then show ?case by (simp add: last_network_decision_def)
next
  case (snoc r rs)
  obtain a d where ad: "fold compile_network_rule rs ([], []) = (a, d)" by fastforce
  note IH = snoc.IH [OF ad]
  have last: "last_network_decision (rs @ [r]) h =
      (if net_host r = h \<and> net_decision r \<noteq> Prompt then Some (net_decision r)
       else last_network_decision rs h)" for h
    by (simp add: last_network_decision_def)
  have step: "compile_network_rule r (a, d) = (allowed, denied)" using snoc.prems ad by simp
  show ?case
    using IH step by (cases "net_decision r") (auto simp: last upsert_domain_def)
qed

section \<open>Hosts\<close>

lemma normalize_Ok:
  assumes "normalize_network_rule_host raw = Ok h"
  obtains stripped where "strip_host_port raw (trim raw) = Ok stripped"
    "h = to_ascii_lowercase (trim (trim_end_matches (\<lambda>c. c = 46) stripped))"
    "h \<noteq> []" "42 \<notin> set h" "\<forall>c \<in> set h. \<not> is_whitespace c"
    "47 \<notin> set (trim raw)" "63 \<notin> set (trim raw)" "35 \<notin> set (trim raw)"
  using assms by (auto simp: normalize_network_rule_host_def Let_def list_ex_iff
      split: if_splits sum.splits)

lemma set_trim_end_matches: "set (trim_end_matches P s) \<subseteq> set s"
  by (auto simp: trim_end_matches_def dest: set_dropWhileD)

lemma set_strip_host_port: "strip_host_port raw host = Ok stripped \<Longrightarrow> set stripped \<subseteq> set host"
  by (auto simp: strip_host_port_def Let_def strip_prefix_Some split_once_Some rsplit_once_Some
      split: option.splits if_splits)

lemma ascii_lower_bounds: "\<not> (65 \<le> ascii_lower c \<and> ascii_lower c \<le> 90)"
  "ascii_lower c \<in> {47, 63, 35} \<Longrightarrow> ascii_lower c = c"
  by (auto simp: ascii_lower_def split: if_splits)

lemma normalized_host:
  assumes "normalize_network_rule_host raw = Ok h"
  shows "h \<noteq> [] \<and> (\<forall>c \<in> set h. \<not> is_whitespace c \<and> c \<notin> {42, 47, 63, 35} \<and> \<not> (65 \<le> c \<and> c \<le> 90))"
proof (rule normalize_Ok [OF assms])
  fix stripped
  assume s: "strip_host_port raw (trim raw) = Ok stripped"
    and h: "h = to_ascii_lowercase (trim (trim_end_matches (\<lambda>c. c = 46) stripped))"
    and ok: "h \<noteq> []" "42 \<notin> set h" "\<forall>c \<in> set h. \<not> is_whitespace c"
      "47 \<notin> set (trim raw)" "63 \<notin> set (trim raw)" "35 \<notin> set (trim raw)"
  have sub: "set (trim (trim_end_matches (\<lambda>c. c = 46) stripped)) \<subseteq> set (trim raw)"
    using set_trim set_trim_end_matches set_strip_host_port [OF s] by (meson order_trans)
  have "c \<notin> {47, 63, 35} \<and> \<not> (65 \<le> c \<and> c \<le> 90)" if c: "c \<in> set h" for c
  proof -
    obtain c' where c': "c' \<in> set (trim raw)" "c = ascii_lower c'"
      using c sub by (auto simp: h to_ascii_lowercase_def)
    have "c' \<notin> {47, 63, 35}" using c'(1) ok(4-6) by auto
    then show ?thesis using ascii_lower_bounds [of c'] c'(2) by auto
  qed
  with ok show ?thesis by auto
qed

section \<open>Allowed prefixes\<close>

definition rendered_prefix :: "prefix_rule \<Rightarrow> str list" where
  "rendered_prefix r =
     first_token (pattern r) # map render_pattern_token (rest_tokens (pattern r))"

lemma set_allowed_prefixes:
  "set (get_allowed_prefixes p) =
    {rendered_prefix r |r program rules. (program, rules) \<in> set (rules_by_program p) \<and>
       r \<in> set rules \<and> rule_decision r = Allow}"
  by (force simp: get_allowed_prefixes_def Let_def rendered_prefix_def)

lemma distinct_remdups_adj_sorted: "sorted xs \<Longrightarrow> distinct (remdups_adj xs)"
  for xs :: "'a::linorder list"
  by (induction xs rule: remdups_adj.induct) (auto simp: less_le_not_le dest: order_antisym)

lemma sorted_allowed_prefixes:
  "sorted (get_allowed_prefixes p) \<and> distinct (get_allowed_prefixes p)"
  by (simp add: get_allowed_prefixes_def Let_def distinct_remdups_adj_sorted sorted_remdups_adj)

section \<open>Several commands\<close>

lemma Max_concat:
  fixes f :: "'a \<Rightarrow> decision"
  assumes "xss \<noteq> []" "\<And>xs. xs \<in> set xss \<Longrightarrow> xs \<noteq> []"
  shows "Max (f ` set (concat xss)) = Max ((\<lambda>xs. Max (f ` set xs)) ` set xss)"
  using assms
proof (induction xss rule: list_nonempty_induct)
  case (cons xs xss)
  then obtain ys where ys: "ys \<in> set xss" "ys \<noteq> []" by (cases xss) auto
  then have ne: "f ` set (concat xss) \<noteq> {}" by auto
  have "Max (f ` set (concat (xs # xss))) = max (Max (f ` set xs)) (Max (f ` set (concat xss)))"
    using cons.prems ne by (simp add: image_Un Max_Un del: set_concat)
  with cons ys show ?case by simp
qed simp

lemma check_multiple_Some:
  assumes "cmds \<noteq> []"
  shows "check_multiple_with_options pp p cmds f opts = Some
    \<lparr> eval_decision =
        Max ((\<lambda>cmd. eval_decision (the (check_with_options pp p cmd f opts))) ` set cmds),
      matched_rules = concat (map (\<lambda>cmd. matches_for_command_with_options pp p cmd (Some f) opts) cmds) \<rparr>"
proof -
  let ?ms = "\<lambda>cmd. matches_for_command_with_options pp p cmd (Some f) opts"
  have ne: "xs \<noteq> []" if "xs \<in> set (map ?ms cmds)" for xs using that matches_nonempty by auto
  have "concat (map ?ms cmds) \<noteq> []" using assms matches_nonempty by (cases cmds) auto
  then show ?thesis
    using Max_concat [of "map ?ms cmds" match_decision, OF _ ne] assms
    by (simp add: check_multiple_with_options_def from_matches_Some check_with_options_Some image_image
        del: set_concat)
qed

section \<open>Properties\<close>

definition sample_policy :: policy where
  "sample_policy = empty_policy\<lparr> rules_by_program :=
     [(lit ''git'', [plain_rule [lit ''git''] Allow])] \<rparr>"

definition sample_overlay :: policy where
  "sample_overlay = empty_policy\<lparr> rules_by_program :=
     [(lit ''git'', [plain_rule [lit ''git'', lit ''push''] Prompt])] \<rparr>"

lemmas policy_eval = sample_policy_def sample_overlay_def empty_policy_def plain_rule_def
  policy_wf_def match_exact_rules_def matches_prefix_def rule_matches_def lit_def
  default_options_def List.map_filter_simps

text \<open>
  A prefix pattern matches a command exactly when the command starts with as many tokens
  as the pattern has, the first equal to the pattern's first token and each further one among
  the alternatives of its position; what it returns are those tokens, whatever follows them.
\<close>

theorem matches_prefix_characterised:
  "matches_prefix pat cmd = Some matched \<longleftrightarrow>
   (\<exists>args. cmd = matched @ args \<and> length matched = Suc (length (rest_tokens pat)) \<and>
      hd matched = first_token pat \<and> list_all2 token_matches (rest_tokens pat) (tl matched))"
  by (rule matches_prefix_Some)

text \<open>
  C21. Checking a command always gives an evaluation, with at least one match, and its decision
  is the strictest decision of the matches: one of them has it and none is stricter.
\<close>

theorem check_decision_is_strictest:
  "\<exists>ev. check_with_options pp p cmd f opts = Some ev \<and> matched_rules ev \<noteq> [] \<and>
     eval_decision ev \<in> match_decision ` set (matched_rules ev) \<and>
     (\<forall>m \<in> set (matched_rules ev). match_decision m \<le> eval_decision ev) \<and>
     (is_match ev \<longleftrightarrow> matches_for_command_with_options pp p cmd None opts \<noteq> [])"
proof -
  let ?ms = "matches_for_command_with_options pp p cmd (Some f) opts"
  have fin: "finite (match_decision ` set ?ms)" "match_decision ` set ?ms \<noteq> {}"
    using matches_nonempty by auto
  show ?thesis
    using Max_in [OF fin] Max_ge [OF fin(1)]
    by (simp add: check_with_options_Some matches_nonempty is_match_iff)
qed

theorem check_decision_is_strictest_witness:
  "\<exists>ev. check_with_options (\<lparr> windows = False, absolute = (\<lambda>_. None), file_name = (\<lambda>_. None) \<rparr>)
      sample_policy [lit ''ls''] (\<lambda>_. Prompt) default_options = Some ev \<and>
    match_decision (HeuristicsRuleMatch [lit ''ls''] Prompt) \<le> eval_decision ev"
  using check_decision_is_strictest [of "\<lparr> windows = False, absolute = (\<lambda>_. None), file_name = (\<lambda>_. None) \<rparr>"
      sample_policy "[lit ''ls'']" "\<lambda>_. Prompt" default_options]
  by (auto simp: check_with_options_Some matches_for_command_with_options_def policy_eval)



text \<open>
  Adding a prefix rule fails exactly for an empty prefix. Otherwise a command that starts
  with the tokens is decided by the rules that matched before and the new one, so at least as
  strictly as the new rule says, and the evaluation of any other command does not change.
\<close>

theorem add_prefix_rule_effect:
  "(add_prefix_rule p [] d = Err (InvalidPattern (lit ''prefix cannot be empty''))) \<and>
   (tokens \<noteq> [] \<longrightarrow>
     (\<exists>p'. add_prefix_rule p tokens d = Ok p' \<and>
        (policy_wf p \<longrightarrow> policy_wf p') \<and>
        (prefix tokens cmd \<longrightarrow>
           (\<exists>ev. check_command pp p' cmd f = Some ev \<and> d \<le> eval_decision ev \<and>
              matched_rules ev = the (match_exact_rules p cmd) @ [PrefixRuleMatch tokens d None None])) \<and>
        (\<not> prefix tokens cmd \<longrightarrow> check_command pp p' cmd f = check_command pp p cmd f)))"
proof (intro conjI impI)
  show "add_prefix_rule p [] d = Err (InvalidPattern (lit ''prefix cannot be empty''))"
    by (simp add: add_prefix_rule_def)
  assume t: "tokens \<noteq> []"
  then obtain p' where p': "add_prefix_rule p tokens d = Ok p'" by (auto simp: add_prefix_rule_Ok)
  have pos: "\<exists>ev. check_command pp p' cmd f = Some ev \<and> d \<le> eval_decision ev \<and>
      matched_rules ev = the (match_exact_rules p cmd) @ [PrefixRuleMatch tokens d None None]"
    if pre: "prefix tokens cmd"
  proof -
    have "cmd \<noteq> []" using pre t by auto
    then have m: "match_exact_rules p' cmd =
        Some (the (match_exact_rules p cmd) @ [PrefixRuleMatch tokens d None None])"
      using match_exact_add [OF p'] pre by simp
    then show ?thesis
      by (simp add: check_command_def matches_exact [OF m] from_matches_Some)
  qed
  have neg: "check_command pp p' cmd f = check_command pp p cmd f" if "\<not> prefix tokens cmd"
  proof -
    have "match_exact_rules p' cmd = match_exact_rules p cmd"
    proof (cases "cmd = []")
      case False
      then show ?thesis using match_exact_add [OF p'] that by (simp add: match_exact_eq)
    qed (simp add: match_exact_rules_def)
    then show ?thesis
      by (simp add: check_command_def matches_for_command_with_options_def default_options_def)
  qed
  show "\<exists>p'. add_prefix_rule p tokens d = Ok p' \<and> (policy_wf p \<longrightarrow> policy_wf p') \<and>
      (prefix tokens cmd \<longrightarrow> (\<exists>ev. check_command pp p' cmd f = Some ev \<and> d \<le> eval_decision ev \<and>
         matched_rules ev = the (match_exact_rules p cmd) @ [PrefixRuleMatch tokens d None None])) \<and>
      (\<not> prefix tokens cmd \<longrightarrow> check_command pp p' cmd f = check_command pp p cmd f)"
    using p' pos neg policy_wf_add by blast
qed

theorem add_prefix_rule_effect_witness:
  "\<exists>p' ev. add_prefix_rule sample_policy [lit ''git'', lit ''push''] Forbidden = Ok p' \<and>
     check_command (\<lparr> windows = False, absolute = (\<lambda>_. None), file_name = (\<lambda>_. None) \<rparr>) p'
       [lit ''git'', lit ''push'', lit ''-f''] (\<lambda>_. Allow) = Some ev \<and> Forbidden \<le> eval_decision ev"
proof -
  have "[lit ''git'', lit ''push''] \<noteq> []"
    "prefix [lit ''git'', lit ''push''] [lit ''git'', lit ''push'', lit ''-f'']" by simp_all
  with add_prefix_rule_effect [of sample_policy Forbidden "[lit ''git'', lit ''push'']"
      "[lit ''git'', lit ''push'', lit ''-f'']" "\<lparr> windows = False, absolute = (\<lambda>_. None),
      file_name = (\<lambda>_. None) \<rparr>" "\<lambda>_. Allow"]
  show ?thesis by blast
qed

text \<open>
  Checking several commands panics on an empty list. On any other it collects the matches
  of the commands in order and decides the strictest of the decisions each command gets alone.
\<close>

theorem check_multiple_strictest:
  "check_multiple_with_options pp p [] f opts = None \<and>
   (cmds \<noteq> [] \<longrightarrow>
     (\<exists>ev. check_multiple_with_options pp p cmds f opts = Some ev \<and>
        eval_decision ev =
          Max ((\<lambda>cmd. eval_decision (the (check_with_options pp p cmd f opts))) ` set cmds) \<and>
        matched_rules ev =
          concat (map (\<lambda>cmd. matched_rules (the (check_with_options pp p cmd f opts))) cmds)))"
  by (auto simp: check_multiple_Some check_with_options_Some)
     (simp add: check_multiple_with_options_def from_matches_def)

theorem check_multiple_strictest_witness:
  "\<exists>ev. check_multiple_with_options (\<lparr> windows = False, absolute = (\<lambda>_. None), file_name = (\<lambda>_. None) \<rparr>)
      sample_policy [[lit ''git''], [lit ''ls'']] (\<lambda>_. Prompt) default_options = Some ev \<and>
    eval_decision ev = Prompt"
proof -
  have "Max {Allow, Prompt} = Prompt" by (simp add: max_def less_eq_decision_def)
  then show ?thesis
    using check_multiple_strictest [of "\<lparr> windows = False, absolute = (\<lambda>_. None), file_name = (\<lambda>_. None) \<rparr>"
      sample_policy "\<lambda>_. Prompt" default_options "[[lit ''git''], [lit ''ls'']]"]
    by (auto simp: check_with_options_Some matches_for_command_with_options_def policy_eval)
qed

text \<open>
  The domains compiled from the network rules are two lists without repetitions and without
  a common host; a host is allowed exactly when the last rule that does not prompt for it
  allows it, and denied exactly when that rule forbids it.
\<close>

theorem compiled_domains_last_rule:
  "case compiled_network_domains p of (allowed, denied) \<Rightarrow>
     distinct allowed \<and> distinct denied \<and> set allowed \<inter> set denied = {} \<and>
     (h \<in> set allowed \<longleftrightarrow> last_network_decision (network_rules p) h = Some Allow) \<and>
     (h \<in> set denied \<longleftrightarrow> last_network_decision (network_rules p) h = Some Forbidden)"
  using compile_domains [of "network_rules p"]
  by (cases "compiled_network_domains p") (auto simp: compiled_network_domains_def)

text \<open>
  A network rule that is accepted is appended under its normalised host, with the given
  protocol and decision, and the prefix rules stay as they were. The host is not empty and has
  no whitespace, wildcard, slash, query or fragment character and no upper-case ASCII letter.
\<close>

theorem network_rule_host_normalised:
  assumes "add_network_rule p raw proto d why = Ok p'"
  shows "\<exists>r. network_rules p' = network_rules p @ [r] \<and>
    normalize_network_rule_host raw = Ok (net_host r) \<and> net_decision r = d \<and> net_protocol r = proto \<and>
    net_host r \<noteq> [] \<and>
    (\<forall>c \<in> set (net_host r). \<not> is_whitespace c \<and> c \<notin> {42, 47, 63, 35} \<and> \<not> (65 \<le> c \<and> c \<le> 90)) \<and>
    rules_by_program p' = rules_by_program p"
  using assms normalized_host
  by (fastforce simp: add_network_rule_def split: sum.splits if_splits)

theorem network_rule_host_normalised_witness:
  "\<exists>p' r. add_network_rule empty_policy (lit ''API.example.com:443'') Https Allow None = Ok p' \<and>
     network_rules p' = [r] \<and> net_host r = lit ''api.example.com''"
proof -
  have host: "normalize_network_rule_host (lit ''API.example.com:443'') = Ok (lit ''api.example.com'')"
    by (simp add: normalize_network_rule_host_def strip_host_port_def is_port_def is_ascii_digit_def
        is_whitespace_def ascii_lower_def str_defs lit_def)
  then obtain p' where
      add: "add_network_rule empty_policy (lit ''API.example.com:443'') Https Allow None = Ok p'"
    by (simp add: add_network_rule_def)
  show ?thesis using network_rule_host_normalised [OF add] add host by (auto simp: empty_policy_def)
qed

text \<open>
  The allowed prefixes are sorted, without repetitions, and exactly the rendered patterns
  of the rules that allow.
\<close>

theorem allowed_prefixes_exact:
  "sorted (get_allowed_prefixes p) \<and> distinct (get_allowed_prefixes p) \<and>
   (x \<in> set (get_allowed_prefixes p) \<longleftrightarrow>
     (\<exists>program rules r. (program, rules) \<in> set (rules_by_program p) \<and> r \<in> set rules \<and>
        rule_decision r = Allow \<and> x = rendered_prefix r))"
  using sorted_allowed_prefixes by (auto simp: set_allowed_prefixes)

end
