(* ===== verification/Machine.thy ===== *)
theory Machine
  imports Prelude
begin

text \<open>
  Machine integers and byte offsets.  A \<^verbatim>\<open>usize\<close> (and a \<^verbatim>\<open>u64\<close>, on a 64-bit target)
  is a natural number up to \<open>usize_max\<close>, an \<^verbatim>\<open>i64\<close> an integer between \<open>i64_min\<close> and
  \<open>i64_max\<close>; the saturating operations are written out, and a conversion followed by
  \<^verbatim>\<open>unwrap_or(MAX)\<close> is the minimum with the bound.  Slices of a string by byte offsets
  panic, \<open>None\<close>, inside a character or beyond the end.
\<close>

section \<open>Saturating arithmetic\<close>

named_theorems machine_defs \<open>definitions of the machine operations\<close>

definition usize_max :: nat where
  "usize_max = 18446744073709551615"

definition sat_add :: "nat \<Rightarrow> nat \<Rightarrow> nat" where
  [machine_defs]: "sat_add a b = min (a + b) usize_max"

definition sat_mul :: "nat \<Rightarrow> nat \<Rightarrow> nat" where
  [machine_defs]: "sat_mul a b = min (a * b) usize_max"

definition i64_max :: int where
  "i64_max = 9223372036854775807"

definition i64_min :: int where
  "i64_min = - 9223372036854775808"

definition is_i64 :: "int \<Rightarrow> bool" where
  "is_i64 x \<longleftrightarrow> i64_min \<le> x \<and> x \<le> i64_max"

definition i64_clamp :: "int \<Rightarrow> int" where
  [machine_defs]: "i64_clamp x = max i64_min (min i64_max x)"

definition i64_sat_add :: "int \<Rightarrow> int \<Rightarrow> int" where
  [machine_defs]: "i64_sat_add a b = i64_clamp (a + b)"

definition i64_sat_sub :: "int \<Rightarrow> int \<Rightarrow> int" where
  [machine_defs]: "i64_sat_sub a b = i64_clamp (a - b)"

definition i64_of_usize :: "nat \<Rightarrow> int" where
  [machine_defs]: "i64_of_usize n = min (int n) i64_max"

text \<open>Plain addition and subtraction panic on overflow in a debug build and wrap in a release build.\<close>

definition i64_wrap :: "int \<Rightarrow> int" where
  "i64_wrap x = (x + 9223372036854775808) mod 18446744073709551616 - 9223372036854775808"

definition i64_checked :: "bool \<Rightarrow> int \<Rightarrow> int option" where
  "i64_checked debug x =
     (if is_i64 x then Some x else if debug then None else Some (i64_wrap x))"

lemma i64_checked_is_i64: "i64_checked debug x = Some y \<Longrightarrow> is_i64 y"
  by (auto simp: i64_checked_def is_i64_def i64_wrap_def i64_max_def i64_min_def split: if_splits)

lemma sat_add_le [simp]: "sat_add a b \<le> usize_max"
  by (simp add: sat_add_def)

lemma sat_add_exact: "a + b \<le> usize_max \<Longrightarrow> sat_add a b = a + b"
  by (simp add: sat_add_def)

lemma sat_add_ge: "a \<le> usize_max \<Longrightarrow> a \<le> sat_add a b"
  by (simp add: sat_add_def)

lemma i64_clamp_is_i64 [simp]: "is_i64 (i64_clamp x)"
  by (simp add: is_i64_def i64_clamp_def i64_max_def i64_min_def)

lemma i64_clamp_id: "is_i64 x \<Longrightarrow> i64_clamp x = x"
  by (simp add: is_i64_def i64_clamp_def)

lemma i64_sat_add_is_i64 [simp]: "is_i64 (i64_sat_add a b)"
  by (simp add: i64_sat_add_def)

lemma i64_sat_sub_is_i64 [simp]: "is_i64 (i64_sat_sub a b)"
  by (simp add: i64_sat_sub_def)

lemma i64_of_usize_is_i64 [simp]: "is_i64 (i64_of_usize n)"
  by (simp add: is_i64_def i64_of_usize_def i64_max_def i64_min_def)

lemma i64_sat_add_nonneg: "0 \<le> a \<Longrightarrow> 0 \<le> b \<Longrightarrow> 0 \<le> i64_sat_add a b"
  by (simp add: i64_sat_add_def i64_clamp_def i64_max_def)

section \<open>Multiplication by 1.2 in double precision\<close>

text \<open>
  The source scales a budget by \<^verbatim>\<open>(n as f64 * 1.2).ceil() as usize\<close>.  A non-negative
  integer is rounded to 53 significant bits, to the nearest with ties to even; the double
  nearest to 1.2 is \<open>5404319552844595 / 2 ^ 52\<close>; the product is rounded in the same way
  and the final conversion saturates.
\<close>

fun bit_length :: "nat \<Rightarrow> nat" where
  "bit_length n = (if n = 0 then 0 else Suc (bit_length (n div 2)))"

declare bit_length.simps [simp del]

definition round_f64 :: "nat \<Rightarrow> nat" where
  "round_f64 n =
     (let e = bit_length n - 53;
          q = n div 2 ^ e; r = n mod 2 ^ e;
          up = (2 ^ e < 2 * r \<or> 2 ^ e = 2 * r \<and> odd q)
      in (if up then Suc q else q) * 2 ^ e)"

definition scale_1_2 :: "nat \<Rightarrow> nat" where
  "scale_1_2 n =
     min usize_max ((round_f64 (round_f64 n * 5404319552844595) + (2 ^ 52 - 1)) div 2 ^ 52)"

lemma bit_length_bound: "n < 2 ^ bit_length n"
proof (induction n rule: bit_length.induct)
  case (1 n)
  show ?case
  proof (cases "n = 0")
    case False
    with 1 have "n div 2 < 2 ^ bit_length (n div 2)" by simp
    then have "n < 2 * 2 ^ bit_length (n div 2)" by linarith
    with False show ?thesis by (subst bit_length.simps) simp
  qed (simp add: bit_length.simps)
qed

lemma bit_length_le: "n < 2 ^ k \<Longrightarrow> bit_length n \<le> k"
proof (induction k arbitrary: n)
  case (Suc k)
  then have "n div 2 < 2 ^ k" by (simp add: less_mult_imp_div_less mult.commute)
  with Suc.IH show ?case by (subst bit_length.simps) simp
qed (simp add: bit_length.simps)

lemma round_f64_exact: "n < 2 ^ 53 \<Longrightarrow> round_f64 n = n"
  using bit_length_le [of n 53] by (simp add: round_f64_def)

section \<open>Byte offsets\<close>

lemma len_utf8_pos [simp]: "0 < len_utf8 c"
  by (simp add: len_utf8_def)

lemma str_len_simps [simp]:
  "str_len [] = 0" "str_len (c # s) = len_utf8 c + str_len s"
  "str_len (s @ t) = str_len s + str_len t"
  by (simp_all add: str_len_def)

lemma length_le_str_len: "length s \<le> str_len s"
proof (induction s)
  case (Cons c s)
  then show ?case using len_utf8_pos [of c] by (simp only: list.size str_len_simps)
qed simp

lemma str_len_0 [simp]: "str_len s = 0 \<longleftrightarrow> s = []"
  by (cases s) auto

fun slice_to :: "str \<Rightarrow> nat \<Rightarrow> str option" where
  "slice_to [] n = (if n = 0 then Some [] else None)"
| "slice_to (c # s) n =
     (if n = 0 then Some []
      else if len_utf8 c \<le> n then map_option ((#) c) (slice_to s (n - len_utf8 c))
      else None)"

fun slice_from :: "str \<Rightarrow> nat \<Rightarrow> str option" where
  "slice_from [] n = (if n = 0 then Some [] else None)"
| "slice_from (c # s) n =
     (if n = 0 then Some (c # s)
      else if len_utf8 c \<le> n then slice_from s (n - len_utf8 c)
      else None)"

lemma slice_to_append [simp]: "slice_to (s @ t) (str_len s) = Some s"
proof (induction s)
  case Nil
  then show ?case by (cases t) auto
qed simp

lemma slice_from_append [simp]: "slice_from (s @ t) (str_len s) = Some t"
proof (induction s)
  case Nil
  then show ?case by (cases t) auto
qed simp

lemma slice_to_Some: "slice_to s n = Some a \<Longrightarrow> \<exists>b. s = a @ b \<and> str_len a = n"
proof (induction s n arbitrary: a rule: slice_to.induct)
  case (2 c s n)
  then show ?case by (fastforce split: if_splits)
qed (auto split: if_splits)

section \<open>Vectors\<close>

text \<open>\<^verbatim>\<open>Vec::insert\<close> panics beyond the end.\<close>

definition vec_insert :: "nat \<Rightarrow> 'a \<Rightarrow> 'a list \<Rightarrow> 'a list option" where
  "vec_insert i x xs = (if i \<le> length xs then Some (take i xs @ x # drop i xs) else None)"

fun remove_first_matching :: "('a \<Rightarrow> bool) \<Rightarrow> 'a list \<Rightarrow> 'a list" where
  "remove_first_matching p [] = []"
| "remove_first_matching p (x # xs) = (if p x then xs else x # remove_first_matching p xs)"

text \<open>\<^verbatim>\<open>Iterator::rposition\<close>.\<close>

fun rposition :: "('a \<Rightarrow> bool) \<Rightarrow> 'a list \<Rightarrow> nat option" where
  "rposition p [] = None"
| "rposition p (x # xs) =
     (case rposition p xs of
        Some i \<Rightarrow> Some (Suc i) | None \<Rightarrow> if p x then Some 0 else None)"

lemma set_remove_first_matching: "set (remove_first_matching p xs) \<subseteq> set xs"
  by (induction xs) auto

lemma remove_first_matching_keeps: "x \<in> set xs \<Longrightarrow> \<not> p x \<Longrightarrow> x \<in> set (remove_first_matching p xs)"
  by (induction xs) auto

end
