(* ===== verification/Head_Tail_Buffer.thy ===== *)
theory Head_Tail_Buffer
  imports Machine Utf8
begin

text \<open>
  The capped output buffer of \<^verbatim>\<open>core/src/unified_exec/head_tail_buffer.rs\<close>: a stable
  prefix and a sliding suffix of everything that was pushed.  The abstract buffer is the list
  of all bytes; the relation \<open>holds\<close> says what a concrete buffer keeps of it, and every
  operation is shown to keep that relation.
\<close>

section \<open>Definitions\<close>

definition UNIFIED_EXEC_OUTPUT_MAX_BYTES :: nat where
  "UNIFIED_EXEC_OUTPUT_MAX_BYTES = 1024 * 1024"

definition format_output_omission_marker :: "nat \<Rightarrow> str" where
  "format_output_omission_marker omitted = lit ''... '' @ show_nat omitted @ lit '' bytes omitted ...''"

record head_tail_buffer =
  max_bytes :: nat
  head_budget :: nat
  tail_budget :: nat
  head_bytes :: "byte list"
  tail_bytes :: "byte list"
  omitted_bytes :: nat

definition new_buffer :: "nat \<Rightarrow> head_tail_buffer" where
  "new_buffer n =
     (let hb = n div 2 in
      \<lparr> max_bytes = n, head_budget = hb, tail_budget = n - hb, head_bytes = [], tail_bytes = [],
        omitted_bytes = 0 \<rparr>)"

definition default_buffer :: head_tail_buffer where
  "default_buffer = new_buffer UNIFIED_EXEC_OUTPUT_MAX_BYTES"

definition retained_bytes :: "head_tail_buffer \<Rightarrow> nat" where
  "retained_bytes b = sat_add (length (head_bytes b)) (length (tail_bytes b))"

definition total_bytes :: "head_tail_buffer \<Rightarrow> nat" where
  "total_bytes b = sat_add (retained_bytes b) (omitted_bytes b)"

definition trim_tail_to_budget :: "head_tail_buffer \<Rightarrow> head_tail_buffer" where
  "trim_tail_to_budget b =
     (let excess = length (tail_bytes b) - tail_budget b in
      if 0 < excess
      then b\<lparr> tail_bytes := drop excess (tail_bytes b),
              omitted_bytes := sat_add (omitted_bytes b) excess \<rparr>
      else b)"

definition push_to_tail :: "head_tail_buffer \<Rightarrow> byte list \<Rightarrow> head_tail_buffer" where
  "push_to_tail b chunk =
     (if chunk = [] then b
      else if tail_budget b = 0
      then b\<lparr> omitted_bytes := sat_add (omitted_bytes b) (length chunk) \<rparr>
      else if tail_budget b \<le> length chunk
      then
        (let kept = drop (length chunk - tail_budget b) chunk;
             dropped = length chunk - length kept
         in b\<lparr> omitted_bytes :=
                 sat_add (sat_add (omitted_bytes b) (length (tail_bytes b))) dropped,
               tail_bytes := kept \<rparr>)
      else trim_tail_to_budget (b\<lparr> tail_bytes := tail_bytes b @ chunk \<rparr>))"

definition push_chunk :: "head_tail_buffer \<Rightarrow> byte list \<Rightarrow> head_tail_buffer" where
  "push_chunk b chunk =
     (if chunk = [] then b
      else if max_bytes b = 0
      then b\<lparr> omitted_bytes := sat_add (omitted_bytes b) (length chunk) \<rparr>
      else
        (let remaining_head = head_budget b - length (head_bytes b);
             head_len = min remaining_head (length chunk);
             b = (if 0 < head_len
                  then b\<lparr> head_bytes := head_bytes b @ take head_len chunk \<rparr> else b)
         in push_to_tail b (drop head_len chunk)))"

definition snapshot_chunks :: "head_tail_buffer \<Rightarrow> byte list list" where
  "snapshot_chunks b =
     (if head_bytes b = [] then [] else [head_bytes b]) @
     (if tail_bytes b = [] then [] else [tail_bytes b])"

definition to_bytes :: "head_tail_buffer \<Rightarrow> byte list" where
  "to_bytes b = head_bytes b @ tail_bytes b"

definition to_bytes_with_omission_marker :: "head_tail_buffer \<Rightarrow> byte list" where
  "to_bytes_with_omission_marker b =
     (if omitted_bytes b = 0 then to_bytes b
      else head_bytes b @ [10] @ utf8_encode (format_output_omission_marker (omitted_bytes b)) @
           [10] @ tail_bytes b)"

text \<open>The drained buffer, and what is left.\<close>

definition drain_buffer :: "head_tail_buffer \<Rightarrow> head_tail_buffer \<times> head_tail_buffer" where
  "drain_buffer b = (b, b\<lparr> head_bytes := [], tail_bytes := [], omitted_bytes := 0 \<rparr>)"

definition push_buffer :: "head_tail_buffer \<Rightarrow> head_tail_buffer \<Rightarrow> head_tail_buffer" where
  "push_buffer b other =
     (let b = push_chunk (push_chunk b (head_bytes other)) (tail_bytes other)
      in b\<lparr> omitted_bytes := sat_add (omitted_bytes b) (omitted_bytes other) \<rparr>)"

section \<open>What a buffer keeps\<close>

definition last_n :: "nat \<Rightarrow> 'a list \<Rightarrow> 'a list" where
  "last_n n xs = drop (length xs - n) xs"

lemma length_last_n [simp]: "length (last_n n xs) = min n (length xs)"
  by (simp add: last_n_def)

lemma last_n_append: "last_n n (last_n n xs @ ys) = last_n n (xs @ ys)"
  by (simp add: last_n_def) (cases "length ys \<le> n"; cases "length xs + length ys \<le> n"; simp)

lemma last_n_append_long: "n \<le> length ys \<Longrightarrow> last_n n (xs @ ys) = last_n n ys"
  by (simp add: last_n_def)

lemma last_n_short: "length xs \<le> n \<Longrightarrow> last_n n xs = xs"
  by (simp add: last_n_def)

lemma last_n_nil [simp]: "last_n n [] = []" "last_n 0 xs = []"
  by (simp_all add: last_n_def)

definition buffer_wf :: "head_tail_buffer \<Rightarrow> bool" where
  "buffer_wf b \<longleftrightarrow> head_budget b = max_bytes b div 2 \<and>
     tail_budget b = max_bytes b - max_bytes b div 2 \<and>
     length (head_bytes b) \<le> head_budget b \<and> length (tail_bytes b) \<le> tail_budget b"

definition holds :: "head_tail_buffer \<Rightarrow> byte list \<Rightarrow> bool" where
  "holds b all \<longleftrightarrow>
     head_bytes b = take (head_budget b) all \<and>
     tail_bytes b = last_n (tail_budget b) (drop (head_budget b) all) \<and>
     omitted_bytes b = length all - length (head_bytes b) - length (tail_bytes b)"

lemma push_to_tail_keeps:
  "max_bytes (push_to_tail b c) = max_bytes b" "head_budget (push_to_tail b c) = head_budget b"
  "tail_budget (push_to_tail b c) = tail_budget b" "head_bytes (push_to_tail b c) = head_bytes b"
  by (simp_all add: push_to_tail_def trim_tail_to_budget_def Let_def)

lemma push_to_tail_tail:
  assumes "length (tail_bytes b) \<le> tail_budget b"
  shows "tail_bytes (push_to_tail b c) = last_n (tail_budget b) (tail_bytes b @ c)"
proof (cases "tail_budget b \<le> length c")
  case True
  then show ?thesis
    using assms last_n_append_long [OF True, of "tail_bytes b"]
    by (auto simp: push_to_tail_def last_n_short) (simp add: last_n_def)
next
  case False
  then show ?thesis
    using assms by (auto simp: push_to_tail_def trim_tail_to_budget_def last_n_def Let_def)
qed

lemma push_to_tail_omitted:
  assumes "length (tail_bytes b) \<le> tail_budget b"
    "omitted_bytes b + length (tail_bytes b) + length c \<le> usize_max"
  shows "omitted_bytes (push_to_tail b c) + length (tail_bytes (push_to_tail b c)) =
    omitted_bytes b + length (tail_bytes b) + length c"
  using assms
  by (auto simp: push_to_tail_def trim_tail_to_budget_def sat_add_def Let_def)

lemma push_chunk_split:
  "max_bytes b \<noteq> 0 \<Longrightarrow> push_chunk b c =
    push_to_tail (b\<lparr> head_bytes := head_bytes b @ take (head_budget b - length (head_bytes b)) c \<rparr>)
      (drop (head_budget b - length (head_bytes b)) c)"
  by (cases "c = []")
     (auto simp: push_chunk_def push_to_tail_def Let_def min_def not_le intro: arg_cong2 [of _ _ _ _ push_to_tail])

lemma push_chunk_keeps:
  "max_bytes (push_chunk b c) = max_bytes b" "head_budget (push_chunk b c) = head_budget b"
  "tail_budget (push_chunk b c) = tail_budget b"
  by (simp_all add: push_chunk_def push_to_tail_keeps Let_def)

lemma push_chunk_head:
  assumes "buffer_wf b"
  shows "head_bytes (push_chunk b c) =
    head_bytes b @ take (head_budget b - length (head_bytes b)) c"
proof (cases "max_bytes b = 0")
  case True
  then show ?thesis using assms by (simp add: push_chunk_def buffer_wf_def)
qed (simp add: push_chunk_split push_to_tail_keeps)

lemma push_chunk_tail:
  assumes "buffer_wf b"
  shows "tail_bytes (push_chunk b c) =
    last_n (tail_budget b) (tail_bytes b @ drop (head_budget b - length (head_bytes b)) c)"
proof (cases "max_bytes b = 0")
  case True
  then show ?thesis using assms by (auto simp: push_chunk_def buffer_wf_def)
next
  case False
  then show ?thesis
    using assms push_to_tail_tail [of "b\<lparr> head_bytes := head_bytes b @
        take (head_budget b - length (head_bytes b)) c \<rparr>"]
    by (simp add: push_chunk_split buffer_wf_def)
qed

lemma push_chunk_wf:
  assumes "buffer_wf b" shows "buffer_wf (push_chunk b c)"
  using assms unfolding buffer_wf_def push_chunk_keeps push_chunk_head [OF assms] push_chunk_tail [OF assms]
  by (auto simp: min_def)

text \<open>No byte is lost from the count, as long as the count does not overflow.\<close>

definition accounted :: "head_tail_buffer \<Rightarrow> nat" where
  "accounted b = length (head_bytes b) + length (tail_bytes b) + omitted_bytes b"

lemma push_chunk_accounted:
  assumes "buffer_wf b" "accounted b + length c \<le> usize_max"
  shows "accounted (push_chunk b c) = accounted b + length c"
proof (cases "max_bytes b = 0")
  case True
  then show ?thesis
    using assms by (simp add: push_chunk_def buffer_wf_def accounted_def sat_add_def)
next
  case False
  let ?r = "head_budget b - length (head_bytes b)"
  let ?b = "b\<lparr> head_bytes := head_bytes b @ take ?r c \<rparr>"
  have "omitted_bytes (push_to_tail ?b (drop ?r c)) + length (tail_bytes (push_to_tail ?b (drop ?r c))) =
      omitted_bytes b + length (tail_bytes b) + length (drop ?r c)"
    using push_to_tail_omitted [of ?b "drop ?r c"] assms by (simp add: buffer_wf_def accounted_def)
  moreover have "length (take ?r c) + length (drop ?r c) = length c" by simp
  moreover have "length (head_bytes (push_chunk b c)) = length (head_bytes b) + length (take ?r c)"
    by (simp only: push_chunk_head [OF assms(1)] length_append)
  ultimately show ?thesis unfolding accounted_def push_chunk_split [OF False] by linarith
qed

lemma push_chunk_holds:
  assumes "buffer_wf b" "holds b all" "length all + length c \<le> usize_max"
  shows "holds (push_chunk b c) (all @ c)"
proof -
  let ?hb = "head_budget b" and ?tb = "tail_budget b"
  have room: "?hb - length (head_bytes b) = ?hb - length all"
    using assms(2) by (simp add: holds_def)
  have head: "head_bytes (push_chunk b c) = take ?hb (all @ c)"
    using assms(2) by (simp add: push_chunk_head [OF assms(1)] room) (simp add: holds_def)
  have tail: "tail_bytes (push_chunk b c) = last_n ?tb (drop ?hb (all @ c))"
    using assms(2)
    by (simp add: push_chunk_tail [OF assms(1)] room) (simp add: holds_def last_n_append)
  have acc: "accounted b = length all"
    using assms(2) by (auto simp: accounted_def holds_def)
  then have "accounted (push_chunk b c) = length all + length c"
    using push_chunk_accounted [OF assms(1), of c] assms(3) by simp
  then have "omitted_bytes (push_chunk b c) = length (all @ c) - length (head_bytes (push_chunk b c)) -
      length (tail_bytes (push_chunk b c))"
    unfolding accounted_def length_append by linarith
  with head tail show ?thesis unfolding holds_def push_chunk_keeps by blast
qed

section \<open>The contract of a sink\<close>

text \<open>
  A sink takes chunks; \<open>rep\<close> relates its state to everything it was given.
\<close>

locale byte_sink =
  fixes push :: "'s \<Rightarrow> byte list \<Rightarrow> 's"
    and rep :: "'s \<Rightarrow> byte list \<Rightarrow> bool"
  assumes push_rep: "rep s all \<Longrightarrow> rep (push s c) (all @ c)"
begin

lemma push_all_rep: "rep s all \<Longrightarrow> rep (foldl push s cs) (all @ concat cs)"
proof (induction cs arbitrary: s all)
  case (Cons c cs)
  from Cons.IH [OF push_rep [OF Cons.prems, of c]] show ?case by simp
qed simp

end

definition buffer_rep :: "head_tail_buffer \<Rightarrow> byte list \<Rightarrow> bool" where
  "buffer_rep b all \<longleftrightarrow> buffer_wf b \<and> (length all \<le> usize_max \<longrightarrow> holds b all)"

interpretation capped: byte_sink push_chunk buffer_rep
  by unfold_locales (auto simp: buffer_rep_def push_chunk_wf push_chunk_holds)

lemma new_buffer_rep: "buffer_rep (new_buffer n) []"
  by (simp add: buffer_rep_def buffer_wf_def holds_def new_buffer_def Let_def)

section \<open>Every reachable buffer\<close>

inductive buffer_reach :: "nat \<Rightarrow> head_tail_buffer \<Rightarrow> bool" for n where
  fresh: "buffer_reach n (new_buffer n)"
| chunk: "buffer_reach n b \<Longrightarrow> buffer_reach n (push_chunk b c)"
| merged: "buffer_reach n b \<Longrightarrow> buffer_reach n (push_buffer b other)"
| drained: "buffer_reach n b \<Longrightarrow> buffer_reach n (snd (drain_buffer b))"

lemma push_buffer_wf: "buffer_wf b \<Longrightarrow> buffer_wf (push_buffer b other)"
  using push_chunk_wf [OF push_chunk_wf, of b "head_bytes other" "tail_bytes other"]
  by (simp add: push_buffer_def buffer_wf_def Let_def)

lemma push_buffer_keeps: "max_bytes (push_buffer b other) = max_bytes b"
  by (simp add: push_buffer_def push_chunk_keeps Let_def)

lemma push_buffer_accounted:
  assumes "buffer_wf b" "accounted b + accounted other \<le> usize_max"
  shows "accounted (push_buffer b other) = accounted b + accounted other"
proof -
  let ?b1 = "push_chunk b (head_bytes other)"
  have "accounted ?b1 = accounted b + length (head_bytes other)"
    using push_chunk_accounted [OF assms(1)] assms(2) by (simp add: accounted_def)
  moreover have "accounted (push_chunk ?b1 (tail_bytes other)) =
      accounted ?b1 + length (tail_bytes other)"
    using push_chunk_accounted [OF push_chunk_wf [OF assms(1)]] assms(2) calculation
    by (simp add: accounted_def)
  ultimately show ?thesis
    using assms(2) by (simp add: push_buffer_def accounted_def Let_def sat_add_def)
qed

lemma buffer_reach_wf: "buffer_reach n b \<Longrightarrow> buffer_wf b \<and> max_bytes b = n"
proof (induction rule: buffer_reach.induct)
  case fresh
  then show ?case by (simp add: new_buffer_def buffer_wf_def Let_def)
next
  case (drained b)
  then show ?case by (simp add: drain_buffer_def buffer_wf_def)
qed (auto simp: push_chunk_wf push_chunk_keeps push_buffer_wf push_buffer_keeps)

section \<open>Properties\<close>

text \<open>
  C13. However the output arrives in chunks, a buffer of capacity \<open>n\<close> keeps exactly its first
  \<open>n div 2\<close> bytes and the last bytes of the rest, as many as the other half of the capacity
  allows, and counts exactly the bytes it omitted.
\<close>

theorem buffer_keeps_head_and_tail:
  assumes "length (concat cs) \<le> usize_max"
  shows "\<exists>b. b = foldl push_chunk (new_buffer n) cs \<and>
    to_bytes b = take (n div 2) (concat cs) @ last_n (n - n div 2) (drop (n div 2) (concat cs)) \<and>
    length (to_bytes b) = min n (length (concat cs)) \<and>
    omitted_bytes b = length (concat cs) - n \<and> total_bytes b = length (concat cs)"
proof -
  let ?b = "foldl push_chunk (new_buffer n) cs"
  have rep: "buffer_rep ?b (concat cs)"
    using capped.push_all_rep [OF new_buffer_rep, of n cs] by simp
  have keeps: "max_bytes ?b = n" "head_budget ?b = n div 2" "tail_budget ?b = n - n div 2"
  proof -
    have "max_bytes (foldl push_chunk b cs) = max_bytes b" for b
      by (induction cs arbitrary: b) (simp_all add: push_chunk_keeps)
    then show "max_bytes ?b = n" by (simp add: new_buffer_def Let_def)
    then show "head_budget ?b = n div 2" "tail_budget ?b = n - n div 2"
      using rep by (simp_all add: buffer_rep_def buffer_wf_def)
  qed
  have h: "holds ?b (concat cs)" using rep assms by (simp add: buffer_rep_def)
  have kept: "head_bytes ?b = take (n div 2) (concat cs)"
      "tail_bytes ?b = last_n (n - n div 2) (drop (n div 2) (concat cs))"
      "omitted_bytes ?b = length (concat cs) - length (head_bytes ?b) - length (tail_bytes ?b)"
    using h by (simp_all only: holds_def keeps)
  have sum: "min x h + min (n - h) (x - h) = min n x" if "h \<le> n" for h x :: nat
    using that by (simp add: min_def) linarith
  have len: "length (head_bytes ?b) + length (tail_bytes ?b) = min n (length (concat cs))"
    using sum [of "n div 2" "length (concat cs)"] by (simp add: kept(1,2) min.commute)
  have omitted: "omitted_bytes ?b = length (concat cs) - n"
    using kept(3) len unfolding diff_diff_left by simp
  have "accounted ?b = length (concat cs)"
    unfolding accounted_def using len omitted by (simp add: min_def)
  then have total: "total_bytes ?b = length (concat cs)"
    using assms by (simp add: total_bytes_def retained_bytes_def accounted_def sat_add_def)
  show ?thesis
    by (rule exI [of _ ?b]) (use kept(1,2) len omitted total in \<open>simp add: to_bytes_def\<close>)
qed

theorem buffer_keeps_head_and_tail_witness:
  "\<exists>b. b = foldl push_chunk (new_buffer 4) [[1, 2, 3], [4, 5, 6]] \<and> to_bytes b = [1, 2, 5, 6] \<and>
     omitted_bytes b = 2"
  using buffer_keeps_head_and_tail [of "[[1, 2, 3], [4, 5, 6]]" 4]
  by (simp add: usize_max_def last_n_def)

text \<open>
  No sequence of pushes, merges and drains makes a buffer keep more bytes than its capacity,
  and merging another buffer adds up what both have seen, omitted bytes included, unless the
  count overflows.
\<close>

theorem buffer_never_exceeds_capacity:
  assumes "buffer_reach n b"
  shows "length (to_bytes b) \<le> n \<and>
    length (head_bytes b) \<le> n div 2 \<and>
    (accounted b + accounted other \<le> usize_max \<longrightarrow>
       total_bytes (push_buffer b other) = total_bytes b + total_bytes other)"
proof (intro conjI impI)
  have wf: "buffer_wf b" "max_bytes b = n" using buffer_reach_wf [OF assms] by auto
  then show "length (to_bytes b) \<le> n" "length (head_bytes b) \<le> n div 2"
    by (auto simp: buffer_wf_def to_bytes_def)
  assume le: "accounted b + accounted other \<le> usize_max"
  have total: "total_bytes x = accounted x" if "accounted x \<le> usize_max" for x
    using that by (simp add: total_bytes_def retained_bytes_def accounted_def sat_add_def)
  show "total_bytes (push_buffer b other) = total_bytes b + total_bytes other"
    using push_buffer_accounted [OF wf(1) le] le by (simp add: total)
qed

theorem buffer_never_exceeds_capacity_witness:
  "length (to_bytes (push_chunk (new_buffer 2) [7, 8, 9])) \<le> 2"
  using buffer_never_exceeds_capacity [OF buffer_reach.chunk [OF buffer_reach.fresh, of 2 "[7, 8, 9]"]]
  by blast

end
