(* ===== verification/Response_Items.thy ===== *)
theory Response_Items
  imports Prelude
begin

text \<open>
  The items of a conversation, from \<^verbatim>\<open>protocol/src/models.rs\<close>.  The type parameter
  stands for values that the history only stores and copies: JSON values, statuses, actions,
  summaries and metadata.  An item id is its string.
\<close>

datatype image_detail = Auto | Low | High | Original

datatype content_item =
  InputText str
| InputImage str "image_detail option"
| OutputText str

datatype agent_message_input_content =
  AgentInputText str
| AgentEncryptedContent str

datatype function_call_output_content_item =
  FcoInputText str
| FcoInputImage str "image_detail option"
| FcoEncryptedContent str

datatype function_call_output_body =
  FcoText str
| FcoContentItems "function_call_output_content_item list"

record function_call_output_payload =
  body :: function_call_output_body
  success :: "bool option"

text \<open>The fields are in the order of the source.\<close>

datatype 'o response_item =
  AdditionalTools "str option" str "'o list"
| Message "str option" str "content_item list" "'o option" "'o option"
| AgentMessage "str option" str str "agent_message_input_content list" "'o option"
| Reasoning "str option" "'o list" "'o list option" "str option" "'o option"
| LocalShellCall "str option" "str option" 'o 'o "'o option"
| FunctionCall "str option" str "str option" str str "'o option"
| ToolSearchCall "str option" "str option" "str option" str 'o "'o option"
| FunctionCallOutput "str option" str function_call_output_payload "'o option"
| CustomToolCall "str option" "str option" str str "str option" str "'o option"
| CustomToolCallOutput "str option" str "str option" function_call_output_payload "'o option"
| ToolSearchOutput "str option" "str option" str str "'o list" "'o option"
| WebSearchCall "str option" "str option" "'o option" "'o option"
| ImageGenerationCall "str option" str "str option" str "'o option"
| Compaction "str option" str "'o option"
| CompactionTrigger
| ContextCompaction "str option" "str option" "'o option"
| Other

datatype input_modality = TextModality | ImageModality

definition payload_from_text :: "str \<Rightarrow> function_call_output_payload" where
  "payload_from_text content = \<lparr> body = FcoText content, success = None \<rparr>"

text \<open>Replacing the content items in place, where the output has them.\<close>

definition map_content_items ::
    "(function_call_output_content_item list \<Rightarrow> function_call_output_content_item list) \<Rightarrow>
     function_call_output_payload \<Rightarrow> function_call_output_payload" where
  "map_content_items f output =
     (case body output of
        FcoText _ \<Rightarrow> output
      | FcoContentItems items \<Rightarrow> output\<lparr> body := FcoContentItems (f items) \<rparr>)"

definition item_id_with_suffix :: "str \<Rightarrow> str \<Rightarrow> str" where
  "item_id_with_suffix p sfx = p @ lit ''_'' @ sfx"

fun function_call_output_content_items_to_text ::
    "function_call_output_content_item list \<Rightarrow> str option" where
  "function_call_output_content_items_to_text items =
     (let text_segments = List.map_filter (\<lambda>i. case i of
            FcoInputText t \<Rightarrow> if trim t = [] then None else Some t
          | _ \<Rightarrow> None) items
      in if text_segments = [] then None else Some (join_str [nl] text_segments))"

end
