(* ===== verification/History_Normalize.thy ===== *)
theory History_Normalize
  imports Machine Response_Items
begin

text \<open>
  Normalisation of the history before it is sent to the model:
  \<^verbatim>\<open>core/src/context_manager/normalize.rs\<close>.  \<^verbatim>\<open>error_or_panic\<close> panics, \<open>None\<close>, in a debug
  build and logs in a release build; the flag \<open>debug\<close> is the build.  The name-based UUID of a
  synthetic output is the parameter \<open>uuid\<close>.
\<close>

section \<open>Definitions\<close>

definition IMAGE_CONTENT_OMITTED_PLACEHOLDER :: str where
  "IMAGE_CONTENT_OMITTED_PLACEHOLDER =
     lit ''image content omitted because you do not support image input''"

definition synthetic_output_id :: "(str \<Rightarrow> str) \<Rightarrow> str \<Rightarrow> str option \<Rightarrow> str option" where
  "synthetic_output_id uuid p item_id =
     (case item_id of
        Some source_id \<Rightarrow>
          if source_id = [] then None
          else Some (item_id_with_suffix p (uuid (p @ lit '':'' @ source_id)))
      | None \<Rightarrow> None)"

fun function_output_id :: "'o response_item \<Rightarrow> str option" where
  "function_output_id (FunctionCallOutput _ call_id _ _) = Some call_id"
| "function_output_id _ = None"

fun tool_search_output_id :: "'o response_item \<Rightarrow> str option" where
  "tool_search_output_id (ToolSearchOutput _ call_id _ _ _ _) = call_id"
| "tool_search_output_id _ = None"

fun custom_tool_output_id :: "'o response_item \<Rightarrow> str option" where
  "custom_tool_output_id (CustomToolCallOutput _ call_id _ _ _) = Some call_id"
| "custom_tool_output_id _ = None"

definition aborted :: function_call_output_payload where
  "aborted = payload_from_text (lit ''aborted'')"

text \<open>The output a call is missing, and whether its absence is reported as an error.\<close>

fun missing_output ::
    "(str \<Rightarrow> str) \<Rightarrow> 'o response_item list \<Rightarrow> 'o response_item \<Rightarrow> ('o response_item \<times> bool) option" where
  "missing_output uuid items (FunctionCall iid _ _ _ call_id _) =
     (if call_id \<in> set (List.map_filter function_output_id items) then None
      else Some (FunctionCallOutput (synthetic_output_id uuid (lit ''fco'') iid) call_id aborted None,
                 False))"
| "missing_output uuid items (ToolSearchCall iid (Some call_id) _ _ _ _) =
     (if call_id \<in> set (List.map_filter tool_search_output_id items) then None
      else Some (ToolSearchOutput (synthetic_output_id uuid (lit ''tso'') iid) (Some call_id)
                   (lit ''completed'') (lit ''client'') [] None, False))"
| "missing_output uuid items (CustomToolCall iid _ call_id _ _ _ _) =
     (if call_id \<in> set (List.map_filter custom_tool_output_id items) then None
      else Some (CustomToolCallOutput (synthetic_output_id uuid (lit ''ctco'') iid) call_id None
                   aborted None, True))"
| "missing_output uuid items (LocalShellCall iid (Some call_id) _ _ _) =
     (if call_id \<in> set (List.map_filter function_output_id items) then None
      else Some (FunctionCallOutput (synthetic_output_id uuid (lit ''fco'') iid) call_id aborted None,
                 True))"
| "missing_output uuid items _ = None"

fun collect_missing ::
    "bool \<Rightarrow> ('o response_item \<Rightarrow> ('o response_item \<times> bool) option) \<Rightarrow> nat \<Rightarrow> 'o response_item list \<Rightarrow>
     (nat \<times> 'o response_item) list option" where
  "collect_missing debug missing idx [] = Some []"
| "collect_missing debug missing idx (item # items) =
     (case missing item of
        None \<Rightarrow> collect_missing debug missing (Suc idx) items
      | Some (out, is_error) \<Rightarrow>
          if debug \<and> is_error then None
          else map_option ((#) (idx, out)) (collect_missing debug missing (Suc idx) items))"

fun insert_outputs ::
    "(nat \<times> 'o response_item) list \<Rightarrow> 'o response_item list \<Rightarrow> 'o response_item list option" where
  "insert_outputs [] items = Some items"
| "insert_outputs ((idx, output_item) # outputs) items =
     Option.bind (vec_insert (idx + 1) output_item items) (insert_outputs outputs)"

definition ensure_call_outputs_present ::
    "bool \<Rightarrow> (str \<Rightarrow> str) \<Rightarrow> 'o response_item list \<Rightarrow> 'o response_item list option" where
  "ensure_call_outputs_present debug uuid items =
     Option.bind (collect_missing debug (missing_output uuid items) 0 items)
       (\<lambda>missing_outputs_to_insert. insert_outputs (rev missing_outputs_to_insert) items)"

fun function_call_id :: "'o response_item \<Rightarrow> str option" where
  "function_call_id (FunctionCall _ _ _ _ call_id _) = Some call_id"
| "function_call_id _ = None"

fun tool_search_call_id :: "'o response_item \<Rightarrow> str option" where
  "tool_search_call_id (ToolSearchCall _ call_id _ _ _ _) = call_id"
| "tool_search_call_id _ = None"

fun local_shell_call_id :: "'o response_item \<Rightarrow> str option" where
  "local_shell_call_id (LocalShellCall _ call_id _ _ _) = call_id"
| "local_shell_call_id _ = None"

fun custom_tool_call_id :: "'o response_item \<Rightarrow> str option" where
  "custom_tool_call_id (CustomToolCall _ _ call_id _ _ _ _) = Some call_id"
| "custom_tool_call_id _ = None"

text \<open>Whether an item is kept; every item that is not is reported as an error.\<close>

fun has_match :: "'o response_item list \<Rightarrow> 'o response_item \<Rightarrow> bool" where
  "has_match items (FunctionCallOutput _ call_id _ _) \<longleftrightarrow>
     call_id \<in> set (List.map_filter function_call_id items) \<or>
     call_id \<in> set (List.map_filter local_shell_call_id items)"
| "has_match items (CustomToolCallOutput _ call_id _ _ _) \<longleftrightarrow>
     call_id \<in> set (List.map_filter custom_tool_call_id items)"
| "has_match items (ToolSearchOutput _ call_id _ execution _ _) \<longleftrightarrow>
     (if execution = lit ''server'' then True
      else case call_id of
             Some call_id \<Rightarrow> call_id \<in> set (List.map_filter tool_search_call_id items)
           | None \<Rightarrow> True)"
| "has_match items _ \<longleftrightarrow> True"

definition remove_orphan_outputs ::
    "bool \<Rightarrow> 'o response_item list \<Rightarrow> 'o response_item list option" where
  "remove_orphan_outputs debug items =
     (if debug \<and> list_ex (\<lambda>item. \<not> has_match items item) items then None
      else Some (filter (has_match items) items))"

fun remove_corresponding_for ::
    "'o response_item list \<Rightarrow> 'o response_item \<Rightarrow> 'o response_item list" where
  "remove_corresponding_for items (FunctionCall _ _ _ _ call_id _) =
     remove_first_matching (\<lambda>i. function_output_id i = Some call_id) items"
| "remove_corresponding_for items (FunctionCallOutput _ call_id _ _) =
     (if list_ex (\<lambda>i. function_call_id i = Some call_id) items
      then remove_first_matching (\<lambda>i. function_call_id i = Some call_id) items
      else remove_first_matching (\<lambda>i. local_shell_call_id i = Some call_id) items)"
| "remove_corresponding_for items (ToolSearchCall _ (Some call_id) _ _ _ _) =
     remove_first_matching (\<lambda>i. tool_search_output_id i = Some call_id) items"
| "remove_corresponding_for items (ToolSearchOutput _ (Some call_id) _ _ _ _) =
     remove_first_matching (\<lambda>i. tool_search_call_id i = Some call_id) items"
| "remove_corresponding_for items (CustomToolCall _ _ call_id _ _ _ _) =
     remove_first_matching (\<lambda>i. custom_tool_output_id i = Some call_id) items"
| "remove_corresponding_for items (CustomToolCallOutput _ call_id _ _ _) =
     remove_first_matching (\<lambda>i. custom_tool_call_id i = Some call_id) items"
| "remove_corresponding_for items (LocalShellCall _ (Some call_id) _ _ _) =
     remove_first_matching (\<lambda>i. function_output_id i = Some call_id) items"
| "remove_corresponding_for items _ = items"

definition strip_content_image :: "content_item \<Rightarrow> content_item" where
  "strip_content_image c =
     (case c of InputImage _ _ \<Rightarrow> InputText IMAGE_CONTENT_OMITTED_PLACEHOLDER | _ \<Rightarrow> c)"

definition strip_output_image ::
    "function_call_output_content_item \<Rightarrow> function_call_output_content_item" where
  "strip_output_image c =
     (case c of FcoInputImage _ _ \<Rightarrow> FcoInputText IMAGE_CONTENT_OMITTED_PLACEHOLDER | _ \<Rightarrow> c)"

fun strip_item_images :: "'o response_item \<Rightarrow> 'o response_item" where
  "strip_item_images (Message iid role content phase m) =
     Message iid role (map strip_content_image content) phase m"
| "strip_item_images (FunctionCallOutput iid call_id output m) =
     FunctionCallOutput iid call_id (map_content_items (map strip_output_image) output) m"
| "strip_item_images (CustomToolCallOutput iid call_id name output m) =
     CustomToolCallOutput iid call_id name (map_content_items (map strip_output_image) output) m"
| "strip_item_images (ImageGenerationCall iid status revised_prompt result m) =
     ImageGenerationCall iid status revised_prompt [] m"
| "strip_item_images item = item"

definition strip_images_when_unsupported ::
    "input_modality list \<Rightarrow> 'o response_item list \<Rightarrow> 'o response_item list" where
  "strip_images_when_unsupported input_modalities items =
     (if ImageModality \<in> set input_modalities then items else map strip_item_images items)"

definition normalize_items ::
    "bool \<Rightarrow> (str \<Rightarrow> str) \<Rightarrow> input_modality list \<Rightarrow> 'o response_item list \<Rightarrow>
     'o response_item list option" where
  "normalize_items debug uuid input_modalities items =
     Option.bind (ensure_call_outputs_present debug uuid items) (\<lambda>items.
     Option.bind (remove_orphan_outputs debug items) (\<lambda>items.
     Some (strip_images_when_unsupported input_modalities items)))"

section \<open>Calls and their outputs\<close>

datatype call_kind = FunctionKind | CustomKind | SearchKind

fun call_key :: "'o response_item \<Rightarrow> (call_kind \<times> str) option" where
  "call_key (FunctionCall _ _ _ _ c _) = Some (FunctionKind, c)"
| "call_key (LocalShellCall _ (Some c) _ _ _) = Some (FunctionKind, c)"
| "call_key (CustomToolCall _ _ c _ _ _ _) = Some (CustomKind, c)"
| "call_key (ToolSearchCall _ (Some c) _ _ _ _) = Some (SearchKind, c)"
| "call_key _ = None"

fun output_key :: "'o response_item \<Rightarrow> (call_kind \<times> str) option" where
  "output_key (FunctionCallOutput _ c _ _) = Some (FunctionKind, c)"
| "output_key (CustomToolCallOutput _ c _ _ _) = Some (CustomKind, c)"
| "output_key (ToolSearchOutput _ (Some c) _ _ _ _) = Some (SearchKind, c)"
| "output_key _ = None"

fun server_output :: "'o response_item \<Rightarrow> bool" where
  "server_output (ToolSearchOutput _ _ _ execution _ _) \<longleftrightarrow> execution = lit ''server''"
| "server_output _ \<longleftrightarrow> False"

definition call_keys :: "'o response_item list \<Rightarrow> (call_kind \<times> str) set" where
  "call_keys items = {k. \<exists>i \<in> set items. call_key i = Some k}"

definition output_keys :: "'o response_item list \<Rightarrow> (call_kind \<times> str) set" where
  "output_keys items = {k. \<exists>i \<in> set items. output_key i = Some k}"

text \<open>The invariant the source states: every call has an output and every output a call.\<close>

definition paired :: "'o response_item list \<Rightarrow> bool" where
  "paired items \<longleftrightarrow> call_keys items \<subseteq> output_keys items \<and>
     (\<forall>i \<in> set items. \<forall>k. output_key i = Some k \<and> \<not> server_output i \<longrightarrow> k \<in> call_keys items)"

fun has_image :: "'o response_item \<Rightarrow> bool" where
  "has_image (Message _ _ content _ _) \<longleftrightarrow>
     list_ex (\<lambda>c. case c of InputImage _ _ \<Rightarrow> True | _ \<Rightarrow> False) content"
| "has_image (FunctionCallOutput _ _ output _) \<longleftrightarrow>
     (case body output of
        FcoContentItems cs \<Rightarrow> list_ex (\<lambda>c. case c of FcoInputImage _ _ \<Rightarrow> True | _ \<Rightarrow> False) cs
      | FcoText _ \<Rightarrow> False)"
| "has_image (CustomToolCallOutput _ _ _ output _) \<longleftrightarrow>
     (case body output of
        FcoContentItems cs \<Rightarrow> list_ex (\<lambda>c. case c of FcoInputImage _ _ \<Rightarrow> True | _ \<Rightarrow> False) cs
      | FcoText _ \<Rightarrow> False)"
| "has_image (ImageGenerationCall _ _ _ result _) \<longleftrightarrow> result \<noteq> []"
| "has_image _ \<longleftrightarrow> False"

lemma set_map_filter: "y \<in> set (List.map_filter f xs) \<longleftrightarrow> (\<exists>x \<in> set xs. f x = Some y)"
  by (force simp: List.map_filter_def)

lemma function_output_id_iff: "function_output_id i = Some c \<longleftrightarrow> output_key i = Some (FunctionKind, c)"
  by (cases i rule: output_key.cases) auto

lemma tool_search_output_id_iff:
  "tool_search_output_id i = Some c \<longleftrightarrow> output_key i = Some (SearchKind, c)"
  by (cases i rule: output_key.cases) auto

lemma custom_tool_output_id_iff:
  "custom_tool_output_id i = Some c \<longleftrightarrow> output_key i = Some (CustomKind, c)"
  by (cases i rule: output_key.cases) auto

lemma function_call_id_iff:
  "function_call_id i = Some c \<or> local_shell_call_id i = Some c \<longleftrightarrow> call_key i = Some (FunctionKind, c)"
  by (cases i rule: call_key.cases) auto

lemma tool_search_call_id_iff: "tool_search_call_id i = Some c \<longleftrightarrow> call_key i = Some (SearchKind, c)"
  by (cases i rule: call_key.cases) auto

lemma custom_tool_call_id_iff: "custom_tool_call_id i = Some c \<longleftrightarrow> call_key i = Some (CustomKind, c)"
  by (cases i rule: call_key.cases) auto

lemmas key_iffs = function_output_id_iff tool_search_output_id_iff custom_tool_output_id_iff
  tool_search_call_id_iff custom_tool_call_id_iff

lemma missing_output_cases:
  "missing_output uuid items i =
    (case call_key i of
       None \<Rightarrow> None
     | Some k \<Rightarrow> if k \<in> output_keys items then None else missing_output uuid [] i)"
  by (cases i rule: call_key.cases)
     (simp_all add: set_map_filter key_iffs output_keys_def)

lemma missing_output_key:
  "call_key i = Some k \<Longrightarrow>
   \<exists>out e. missing_output uuid [] i = Some (out, e) \<and> output_key out = Some k \<and>
     call_key out = None \<and> \<not> server_output out"
  by (cases i rule: call_key.cases) (auto simp: lit_def)

lemma has_match_iff:
  "has_match items i \<longleftrightarrow>
    (case output_key i of None \<Rightarrow> True | Some k \<Rightarrow> server_output i \<or> k \<in> call_keys items)"
proof -
  have "c \<in> set (List.map_filter function_call_id items) \<or>
      c \<in> set (List.map_filter local_shell_call_id items) \<longleftrightarrow> (FunctionKind, c) \<in> call_keys items" for c
    unfolding set_map_filter call_keys_def mem_Collect_eq function_call_id_iff [symmetric] by blast
  then show ?thesis
    by (cases i rule: output_key.cases)
       (simp_all add: set_map_filter key_iffs call_keys_def)
qed

lemma call_key_output_key: "call_key i = Some k \<Longrightarrow> output_key i = None"
  by (cases i rule: call_key.cases) auto

section \<open>Insertion\<close>

text \<open>What the insertion by indices comes to: each call directly followed by its output.\<close>

definition with_outputs ::
    "('o response_item \<Rightarrow> ('o response_item \<times> bool) option) \<Rightarrow> 'o response_item list \<Rightarrow>
     'o response_item list" where
  "with_outputs missing items =
     concat (map (\<lambda>i. i # (case missing i of None \<Rightarrow> [] | Some (out, _) \<Rightarrow> [out])) items)"

fun missing_at ::
    "('o response_item \<Rightarrow> ('o response_item \<times> bool) option) \<Rightarrow> nat \<Rightarrow> 'o response_item list \<Rightarrow>
     (nat \<times> 'o response_item) list" where
  "missing_at missing idx [] = []"
| "missing_at missing idx (i # items) =
     (case missing i of None \<Rightarrow> [] | Some (out, _) \<Rightarrow> [(idx, out)]) @
     missing_at missing (Suc idx) items"

lemma collect_missing_eq:
  "collect_missing debug missing idx items =
    (if debug \<and> (\<exists>i \<in> set items. \<exists>out. missing i = Some (out, True)) then None
     else Some (missing_at missing idx items))"
  by (induction items arbitrary: idx) (auto split: option.splits, blast+)

lemma missing_at_append:
  "missing_at missing idx (xs @ ys) = missing_at missing idx xs @ missing_at missing (idx + length xs) ys"
  by (induction xs arbitrary: idx) auto

lemma insert_outputs_append:
  "insert_outputs outs xs = Some ys \<Longrightarrow> insert_outputs outs (xs @ zs) = Some (ys @ zs)"
proof (induction outs arbitrary: xs ys)
  case (Cons a outs)
  obtain idx out where a: "a = (idx, out)" by fastforce
  let ?ins = "take (Suc idx) xs @ out # drop (Suc idx) xs"
  have "Suc idx \<le> length xs" "insert_outputs outs ?ins = Some ys"
    using Cons.prems by (auto simp: a vec_insert_def split: if_splits)
  then show ?case using Cons.IH [of ?ins ys] by (simp add: a vec_insert_def)
qed simp

lemma insert_outputs_missing:
  "insert_outputs (rev (missing_at missing 0 items)) items = Some (with_outputs missing items)"
proof (induction items rule: rev_induct)
  case Nil
  then show ?case by (simp add: with_outputs_def)
next
  case (snoc i items)
  show ?case
    using insert_outputs_append [OF snoc.IH]
    by (cases "missing i") (auto simp: missing_at_append vec_insert_def with_outputs_def)
qed

lemma ensure_call_outputs_eq:
  "ensure_call_outputs_present debug uuid items =
    (if debug \<and> (\<exists>i \<in> set items. \<exists>out. missing_output uuid items i = Some (out, True)) then None
     else Some (with_outputs (missing_output uuid items) items))"
  by (simp add: ensure_call_outputs_present_def collect_missing_eq insert_outputs_missing)

section \<open>Pairing\<close>

lemma set_with_outputs:
  "x \<in> set (with_outputs missing items) \<longleftrightarrow>
    x \<in> set items \<or> (\<exists>i \<in> set items. \<exists>e. missing i = Some (x, e))"
  unfolding with_outputs_def by (induction items) (auto split: option.splits, metis)

lemma with_outputs_keys:
  fixes items :: "'o response_item list" and uuid :: "str \<Rightarrow> str"
  defines "out \<equiv> with_outputs (missing_output uuid items) items"
  shows "call_keys out = call_keys items" "call_keys items \<subseteq> output_keys out"
proof -
  have missing: "\<exists>k. call_key i = Some k \<and> output_key x = Some k \<and> call_key x = None"
    if "missing_output uuid items i = Some (x, e)" for i x e
    using that missing_output_key [of i _ uuid]
    by (subst (asm) missing_output_cases) (auto split: option.splits if_splits)
  show "call_keys out = call_keys items"
    using missing by (fastforce simp: call_keys_def out_def set_with_outputs)
  show "call_keys items \<subseteq> output_keys out"
  proof
    fix k
    assume "k \<in> call_keys items"
    then obtain i where i: "i \<in> set items" "call_key i = Some k" by (auto simp: call_keys_def)
    show "k \<in> output_keys out"
    proof (cases "k \<in> output_keys items")
      case True
      then show ?thesis by (auto simp: output_keys_def out_def set_with_outputs)
    next
      case False
      then have "missing_output uuid items i = missing_output uuid [] i"
        using i(2) by (subst missing_output_cases) simp
      then obtain x e where "missing_output uuid items i = Some (x, e)" "output_key x = Some k"
        using missing_output_key [OF i(2), of uuid] by auto
      with i(1) have "x \<in> set out" by (auto simp: out_def set_with_outputs)
      with \<open>output_key x = Some k\<close> show ?thesis by (auto simp: output_keys_def)
    qed
  qed
qed

lemma filter_has_match_paired:
  assumes "call_keys items \<subseteq> output_keys items"
  shows "paired (filter (has_match items) items)" (is "paired ?out")
proof -
  have keep: "has_match items i" if "call_key i = Some k" for i k
    using call_key_output_key [OF that] by (simp add: has_match_iff)
  then have calls: "call_keys ?out = call_keys items" by (fastforce simp: call_keys_def)
  have "k \<in> output_keys ?out" if k: "k \<in> call_keys items" for k
  proof -
    obtain x where "x \<in> set items" "output_key x = Some k"
      using subsetD [OF assms k] by (auto simp: output_keys_def)
    with k show ?thesis by (auto simp: output_keys_def has_match_iff)
  qed
  then show ?thesis
    unfolding paired_def calls by (auto simp: has_match_iff)
qed

lemma strip_item_keys [simp]:
  "call_key (strip_item_images i) = call_key i" "output_key (strip_item_images i) = output_key i"
  "server_output (strip_item_images i) = server_output i"
  by (cases i rule: strip_item_images.cases; simp)+

lemma paired_map_strip [simp]: "paired (map strip_item_images items) = paired items"
  by (simp add: paired_def call_keys_def output_keys_def)

lemma strip_item_images_idem [simp]: "strip_item_images (strip_item_images i) = strip_item_images i"
proof -
  have "strip_content_image (strip_content_image c) = strip_content_image c" for c
    by (cases c) (simp_all add: strip_content_image_def)
  moreover have "strip_output_image (strip_output_image c) = strip_output_image c" for c
    by (cases c) (simp_all add: strip_output_image_def)
  ultimately show ?thesis
    by (cases i rule: strip_item_images.cases)
       (simp_all add: map_content_items_def comp_def split: function_call_output_body.split)
qed

lemma strip_item_has_no_image [simp]: "\<not> has_image (strip_item_images i)"
  by (cases i rule: strip_item_images.cases)
     (auto simp: list_ex_iff strip_content_image_def strip_output_image_def map_content_items_def
       split: content_item.splits function_call_output_content_item.splits
         function_call_output_body.splits)

lemma paired_with_outputs:
  assumes "paired items"
  shows "i \<in> set items \<Longrightarrow> missing_output uuid items i = None"
    "with_outputs (missing_output uuid items) items = items"
    "filter (has_match items) items = items" "\<forall>i \<in> set items. has_match items i"
proof -
  show none: "missing_output uuid items i = None" if "i \<in> set items" for i
    using assms that
    by (subst missing_output_cases) (auto simp: paired_def call_keys_def split: option.splits)
  have "with_outputs (missing_output uuid items) xs = xs" if "set xs \<subseteq> set items" for xs
    using that by (induction xs) (auto simp: with_outputs_def none)
  then show "with_outputs (missing_output uuid items) items = items" by simp
  show all: "\<forall>i \<in> set items. has_match items i"
    using assms by (auto simp: paired_def has_match_iff split: option.split)
  then show "filter (has_match items) items = items" by simp
qed

text \<open>A paired history is only stripped of images, in both builds.\<close>

lemma normalize_paired:
  assumes "paired items"
  shows "normalize_items debug uuid mods items = Some (strip_images_when_unsupported mods items)"
  using paired_with_outputs [OF assms]
  by (auto simp: normalize_items_def ensure_call_outputs_eq remove_orphan_outputs_def list_ex_iff)

definition normalized ::
    "(str \<Rightarrow> str) \<Rightarrow> input_modality list \<Rightarrow> 'o response_item list \<Rightarrow> 'o response_item list" where
  "normalized uuid mods items =
     (let all = with_outputs (missing_output uuid items) items
      in strip_images_when_unsupported mods (filter (has_match all) all))"

lemma normalize_items_release: "normalize_items False uuid mods items = Some (normalized uuid mods items)"
  by (simp add: normalize_items_def ensure_call_outputs_eq remove_orphan_outputs_def normalized_def
      Let_def)

lemma normalize_items_debug:
  "normalize_items debug uuid mods items = Some out \<Longrightarrow> out = normalized uuid mods items"
  by (auto simp: normalize_items_def ensure_call_outputs_eq remove_orphan_outputs_def normalized_def
      Let_def split: if_splits)

lemma paired_normalized: "paired (normalized uuid mods items)"
  using filter_has_match_paired [of "with_outputs (missing_output uuid items) items"]
    with_outputs_keys [where items = items and uuid = uuid]
  by (simp add: normalized_def strip_images_when_unsupported_def Let_def)

lemma strip_strip [simp]:
  "strip_images_when_unsupported mods (strip_images_when_unsupported mods items) =
   strip_images_when_unsupported mods items"
  by (simp add: strip_images_when_unsupported_def)

section \<open>Removal of the oldest item\<close>

text \<open>Ids are not reused: at most one call and one output for each.\<close>

definition ids_unique :: "'o response_item list \<Rightarrow> bool" where
  "ids_unique items \<longleftrightarrow> distinct (List.map_filter call_key items) \<and>
     distinct (List.map_filter output_key items)"

lemma map_filter_Cons: "List.map_filter f (x # xs) = (case f x of None \<Rightarrow> [] | Some y \<Rightarrow> [y]) @ List.map_filter f xs"
  by (simp split: option.split)

lemma remove_first_key:
  assumes "distinct (List.map_filter f xs)" "\<And>x. p x \<longleftrightarrow> f x = Some k"
  shows "x \<in> set (remove_first_matching p xs) \<longleftrightarrow> x \<in> set xs \<and> f x \<noteq> Some k"
  using assms(1)
proof (induction xs)
  case (Cons y ys)
  have "distinct (List.map_filter f ys)" using Cons.prems by (simp split: option.splits)
  moreover have "f z \<noteq> Some k" if "f y = Some k" "z \<in> set ys" for z
    using Cons.prems that set_map_filter [of k f ys] by auto
  ultimately show ?case using Cons.IH assms(2) by (auto split: if_splits)
qed simp

lemma remove_first_distinct:
  "distinct (List.map_filter f xs) \<Longrightarrow> distinct (List.map_filter f (remove_first_matching p xs))"
proof (induction xs)
  case (Cons y ys)
  have "set (List.map_filter f (remove_first_matching p ys)) \<subseteq> set (List.map_filter f ys)"
    using set_remove_first_matching [of p ys] unfolding subset_iff set_map_filter by blast
  with Cons show ?case by (auto split: option.splits)
qed simp

lemma remove_first_cong:
  assumes "distinct (List.map_filter f xs)" "\<And>x. p x \<Longrightarrow> f x = Some k" "x \<in> set xs" "p x"
  shows "remove_first_matching p xs = remove_first_matching (\<lambda>x. f x = Some k) xs"
  using assms(1,3)
proof (induction xs)
  case (Cons y ys)
  have "f y \<noteq> Some k" if "x \<in> set ys"
    using Cons.prems(1) that assms(2) [OF assms(4)] set_map_filter [of k f ys] by auto
  with Cons assms(2,4) show ?case by (auto split: option.splits)
qed simp

lemma remove_corresponding_eq:
  assumes "distinct (List.map_filter call_key items)"
  shows "remove_corresponding_for items i =
    (case call_key i of
       Some k \<Rightarrow> remove_first_matching (\<lambda>x. output_key x = Some k) items
     | None \<Rightarrow>
         (case output_key i of
            Some k \<Rightarrow> remove_first_matching (\<lambda>x. call_key x = Some k) items
          | None \<Rightarrow> items))"
proof -
  have fc: "(if list_ex (\<lambda>i. function_call_id i = Some c) items
      then remove_first_matching (\<lambda>i. function_call_id i = Some c) items
      else remove_first_matching (\<lambda>i. local_shell_call_id i = Some c) items) =
      remove_first_matching (\<lambda>x. call_key x = Some (FunctionKind, c)) items" for c
  proof (cases "list_ex (\<lambda>i. function_call_id i = Some c) items")
    case True
    then obtain x where "x \<in> set items" "function_call_id x = Some c" by (auto simp: list_ex_iff)
    with True show ?thesis
      using remove_first_cong [OF assms, of "\<lambda>i. function_call_id i = Some c" "(FunctionKind, c)" x]
        function_call_id_iff by auto
  next
    case False
    have "remove_first_matching (\<lambda>i. local_shell_call_id i = Some c) xs =
        remove_first_matching (\<lambda>x. call_key x = Some (FunctionKind, c)) xs" if "set xs \<subseteq> set items" for xs
      using that False by (induction xs) (auto simp: list_ex_iff simp flip: function_call_id_iff)
    with False show ?thesis by simp
  qed
  show ?thesis
    by (cases "(items, i)" rule: remove_corresponding_for.cases)
       (simp_all add: fc key_iffs del: if_split)
qed

lemma output_key_call_key: "output_key i = Some k \<Longrightarrow> call_key i = None"
  using call_key_output_key [of i] by (cases "call_key i") auto

lemma paired_iff:
  "paired items \<longleftrightarrow>
    (\<forall>x k. x \<in> set items \<longrightarrow> call_key x = Some k \<longrightarrow> (\<exists>y \<in> set items. output_key y = Some k)) \<and>
    (\<forall>x k. x \<in> set items \<longrightarrow> output_key x = Some k \<longrightarrow> \<not> server_output x \<longrightarrow>
       (\<exists>y \<in> set items. call_key y = Some k))"
  unfolding paired_def call_keys_def output_keys_def by blast

lemma remove_corresponding_paired:
  assumes "paired (i # items)" "ids_unique (i # items)"
  shows "paired (remove_corresponding_for items i) \<and> ids_unique (remove_corresponding_for items i)"
proof
  have dist: "distinct (List.map_filter call_key items)" "distinct (List.map_filter output_key items)"
    using assms(2) by (auto simp: ids_unique_def split: option.splits)
  have fresh: "call_key i = Some k \<Longrightarrow> x \<in> set items \<Longrightarrow> call_key x \<noteq> Some k"
      "output_key i = Some k \<Longrightarrow> x \<in> set items \<Longrightarrow> output_key x \<noteq> Some k" for x k
    using assms(2) set_map_filter [of k call_key items] set_map_filter [of k output_key items]
    by (auto simp: ids_unique_def split: option.splits)
  have has_output: "\<exists>y \<in> set (i # items). output_key y = Some k"
    if "x \<in> set (i # items)" "call_key x = Some k" for x k
    using assms(1) that unfolding paired_iff by blast
  have has_call: "\<exists>y \<in> set (i # items). call_key y = Some k"
    if "x \<in> set (i # items)" "output_key x = Some k" "\<not> server_output x" for x k
    using assms(1) that unfolding paired_iff by blast
  let ?out = "remove_corresponding_for items i"
  show "ids_unique ?out"
    unfolding remove_corresponding_eq [OF dist(1)] ids_unique_def
    using dist by (auto simp: remove_first_distinct split: option.split)
  consider (call) k where "call_key i = Some k" | (out) k where "output_key i = Some k"
    | (neither) "call_key i = None" "output_key i = None" by fastforce
  then show "paired ?out"
  proof cases
    case call
    have mem: "x \<in> set ?out \<longleftrightarrow> x \<in> set items \<and> output_key x \<noteq> Some k" for x
      using remove_first_key [OF dist(2)] call by (simp add: remove_corresponding_eq [OF dist(1)])
    show ?thesis
      unfolding paired_iff
    proof (intro conjI allI impI)
      fix x k'
      assume x: "x \<in> set ?out" "call_key x = Some k'"
      from x(1) mem have "x \<in> set (i # items)" by simp
      from has_output [OF this x(2)] obtain y where "y \<in> set (i # items)" "output_key y = Some k'" ..
      with x fresh(1) [OF call] call_key_output_key [OF call] mem
      show "\<exists>y \<in> set ?out. output_key y = Some k'"
        by (intro bexI [of _ y]) auto
    next
      fix x k'
      assume x: "x \<in> set ?out" "output_key x = Some k'" "\<not> server_output x"
      from x(1) mem have "x \<in> set (i # items)" by simp
      from has_call [OF this x(2,3)] obtain y where "y \<in> set (i # items)" "call_key y = Some k'" ..
      with x call call_key_output_key [OF \<open>call_key y = Some k'\<close>] mem
      show "\<exists>y \<in> set ?out. call_key y = Some k'"
        by (intro bexI [of _ y]) auto
    qed
  next
    case out
    then have none: "call_key i = None" by (rule output_key_call_key)
    have mem: "x \<in> set ?out \<longleftrightarrow> x \<in> set items \<and> call_key x \<noteq> Some k" for x
      using remove_first_key [OF dist(1)] out none by (simp add: remove_corresponding_eq [OF dist(1)])
    show ?thesis
      unfolding paired_iff
    proof (intro conjI allI impI)
      fix x k'
      assume x: "x \<in> set ?out" "call_key x = Some k'"
      from x(1) mem have "x \<in> set (i # items)" by simp
      from has_output [OF this x(2)] obtain y where "y \<in> set (i # items)" "output_key y = Some k'" ..
      with x out output_key_call_key [OF \<open>output_key y = Some k'\<close>] mem
      show "\<exists>y \<in> set ?out. output_key y = Some k'"
        by (intro bexI [of _ y]) auto
    next
      fix x k'
      assume x: "x \<in> set ?out" "output_key x = Some k'" "\<not> server_output x"
      from x(1) mem have "x \<in> set (i # items)" by simp
      from has_call [OF this x(2,3)] obtain y where "y \<in> set (i # items)" "call_key y = Some k'" ..
      with x fresh(2) [OF out] none mem
      show "\<exists>y \<in> set ?out. call_key y = Some k'"
        by (intro bexI [of _ y]) auto
    qed
  next
    case neither
    then have "?out = items" by (simp add: remove_corresponding_eq [OF dist(1)])
    with neither assms(1) show ?thesis
      by (simp add: paired_def call_keys_def output_keys_def)
  qed
qed

end
