(* ===== verification/Truncate.thy ===== *)
theory Truncate
  imports Machine Response_Items
begin

text \<open>
  Truncation of long texts: \<^verbatim>\<open>utils/string/src/truncate.rs\<close>,
  \<^verbatim>\<open>utils/output-truncation/src/lib.rs\<close> and the policy type of
  \<^verbatim>\<open>protocol/src/protocol.rs\<close>.  Lengths and offsets are counted in bytes of the UTF-8
  encoding; the two slices of \<open>split_string\<close> are panics when an offset is not a character
  boundary, and the lemmas show that this cannot happen.
\<close>

section \<open>Tokens and bytes\<close>

definition APPROX_BYTES_PER_TOKEN :: nat where
  "APPROX_BYTES_PER_TOKEN = 4"

definition approx_tokens_from_byte_count :: "nat \<Rightarrow> nat" where
  "approx_tokens_from_byte_count bytes =
     sat_add bytes (APPROX_BYTES_PER_TOKEN - 1) div APPROX_BYTES_PER_TOKEN"

definition approx_token_count :: "str \<Rightarrow> nat" where
  "approx_token_count s =
     sat_add (str_len s) (APPROX_BYTES_PER_TOKEN - 1) div APPROX_BYTES_PER_TOKEN"

definition approx_bytes_for_tokens :: "nat \<Rightarrow> nat" where
  "approx_bytes_for_tokens tokens = sat_mul tokens APPROX_BYTES_PER_TOKEN"

definition approx_tokens_from_byte_count_i64 :: "int \<Rightarrow> int" where
  "approx_tokens_from_byte_count_i64 bytes =
     (if bytes \<le> 0 then 0 else i64_of_usize (approx_tokens_from_byte_count (nat bytes)))"

section \<open>Truncation in the middle\<close>

text \<open>
  The loop of \<open>split_string\<close> over the characters and their offsets; the state is the end
  of the prefix, the start of the suffix, the number of removed characters, and whether the
  suffix has started.
\<close>

fun split_scan ::
    "nat \<Rightarrow> nat \<Rightarrow> nat \<Rightarrow> nat \<times> nat \<times> nat \<times> bool \<Rightarrow> str \<Rightarrow> nat \<times> nat \<times> nat \<times> bool" where
  "split_scan beginning target idx st [] = st"
| "split_scan beginning target idx (prefix_end, suffix_start, removed, started) (c # s) =
     (let char_end = idx + len_utf8 c in
      if char_end \<le> beginning
      then split_scan beginning target char_end (char_end, suffix_start, removed, started) s
      else if target \<le> idx
      then split_scan beginning target char_end
        (prefix_end, if started then suffix_start else idx, removed, True) s
      else split_scan beginning target char_end
        (prefix_end, suffix_start, sat_add removed 1, started) s)"

definition split_string :: "str \<Rightarrow> nat \<Rightarrow> nat \<Rightarrow> (nat \<times> str \<times> str) option" where
  "split_string s beginning_bytes end_bytes =
     (if s = [] then Some (0, [], [])
      else
        (case split_scan beginning_bytes (str_len s - end_bytes) 0 (0, str_len s, 0, False) s of
           (prefix_end, suffix_start, removed_chars, _) \<Rightarrow>
             (let suffix_start = (if suffix_start < prefix_end then prefix_end else suffix_start) in
              case (slice_to s prefix_end, slice_from s suffix_start) of
                (Some before, Some after) \<Rightarrow> Some (removed_chars, before, after)
              | _ \<Rightarrow> None)))"

definition split_budget :: "nat \<Rightarrow> nat \<times> nat" where
  "split_budget budget = (let left = budget div 2 in (left, budget - left))"

definition format_truncation_marker :: "bool \<Rightarrow> nat \<Rightarrow> str" where
  "format_truncation_marker use_tokens removed_count =
     [8230] @ show_nat removed_count @
     (if use_tokens then lit '' tokens truncated'' else lit '' chars truncated'') @ [8230]"

definition removed_units :: "bool \<Rightarrow> nat \<Rightarrow> nat \<Rightarrow> nat" where
  "removed_units use_tokens removed_bytes removed_chars =
     (if use_tokens then approx_tokens_from_byte_count removed_bytes else removed_chars)"

definition assemble_truncated_output :: "str \<Rightarrow> str \<Rightarrow> str \<Rightarrow> str" where
  "assemble_truncated_output before after marker = before @ marker @ after"

definition truncate_with_byte_estimate :: "str \<Rightarrow> nat \<Rightarrow> bool \<Rightarrow> str option" where
  "truncate_with_byte_estimate s max_bytes use_tokens =
     (if s = [] then Some []
      else if max_bytes = 0
      then Some (format_truncation_marker use_tokens
             (removed_units use_tokens (str_len s) (length s)))
      else if str_len s \<le> max_bytes then Some s
      else
        (case split_budget max_bytes of (left_budget, right_budget) \<Rightarrow>
           map_option (\<lambda>(removed_chars, left, right).
             assemble_truncated_output left right
               (format_truncation_marker use_tokens
                 (removed_units use_tokens (str_len s - max_bytes) removed_chars)))
             (split_string s left_budget right_budget)))"

definition truncate_middle_chars :: "str \<Rightarrow> nat \<Rightarrow> str option" where
  "truncate_middle_chars s max_bytes = truncate_with_byte_estimate s max_bytes False"

definition truncate_middle_with_token_budget :: "str \<Rightarrow> nat \<Rightarrow> (str \<times> nat option) option" where
  "truncate_middle_with_token_budget s max_tokens =
     (if s = [] then Some ([], None)
      else if 0 < max_tokens \<and> str_len s \<le> approx_bytes_for_tokens max_tokens then Some (s, None)
      else map_option (\<lambda>truncated.
             if truncated = s then (truncated, None)
             else (truncated, Some (approx_token_count s)))
           (truncate_with_byte_estimate s (approx_bytes_for_tokens max_tokens) True))"

section \<open>Policies\<close>

datatype truncation_policy = Bytes nat | Tokens nat

fun token_budget :: "truncation_policy \<Rightarrow> nat" where
  "token_budget (Bytes bytes) = approx_tokens_from_byte_count bytes"
| "token_budget (Tokens tokens) = tokens"

fun byte_budget :: "truncation_policy \<Rightarrow> nat" where
  "byte_budget (Bytes bytes) = bytes"
| "byte_budget (Tokens tokens) = approx_bytes_for_tokens tokens"

fun scale_policy :: "truncation_policy \<Rightarrow> truncation_policy" where
  "scale_policy (Bytes bytes) = Bytes (scale_1_2 bytes)"
| "scale_policy (Tokens tokens) = Tokens (scale_1_2 tokens)"

fun truncate_text :: "str \<Rightarrow> truncation_policy \<Rightarrow> str option" where
  "truncate_text content (Bytes bytes) = truncate_middle_chars content bytes"
| "truncate_text content (Tokens tokens) =
     map_option fst (truncate_middle_with_token_budget content tokens)"

definition formatted_truncate_text :: "str \<Rightarrow> truncation_policy \<Rightarrow> str option" where
  "formatted_truncate_text content p =
     (if str_len content \<le> byte_budget p then Some content
      else map_option (\<lambda>result.
             lit ''Warning: truncated output (original token count: '' @
             show_nat (approx_token_count content) @ lit '')'' @ [nl] @
             lit ''Total output lines: '' @ show_nat (length (str_lines content)) @ [nl, nl] @ result)
           (truncate_text content p))"

definition item_text :: "function_call_output_content_item \<Rightarrow> str option" where
  "item_text item = (case item of FcoInputText t \<Rightarrow> Some t | _ \<Rightarrow> None)"

definition combine_text :: "str \<Rightarrow> str \<Rightarrow> str" where
  "combine_text t combined = (if combined = [] then combined else combined @ [nl]) @ t"

definition formatted_truncate_text_content_items_with_policy ::
    "function_call_output_content_item list \<Rightarrow> truncation_policy \<Rightarrow>
     (function_call_output_content_item list \<times> nat option) option" where
  "formatted_truncate_text_content_items_with_policy items p =
     (let text_segments = List.map_filter item_text items in
      if text_segments = [] then Some (items, None)
      else
        (let combined = fold combine_text text_segments [] in
         if str_len combined \<le> byte_budget p then Some (items, None)
         else map_option (\<lambda>t.
                (FcoInputText t # filter (\<lambda>i. item_text i = None) items,
                 Some (approx_token_count combined)))
              (formatted_truncate_text combined p)))"

fun snippet_policy :: "truncation_policy \<Rightarrow> nat \<Rightarrow> truncation_policy" where
  "snippet_policy (Bytes _) n = Bytes n"
| "snippet_policy (Tokens _) n = Tokens n"

fun item_cost :: "truncation_policy \<Rightarrow> str \<Rightarrow> nat" where
  "item_cost (Bytes _) t = str_len t"
| "item_cost (Tokens _) t = approx_token_count t"

fun truncate_items_loop ::
    "truncation_policy \<Rightarrow> function_call_output_content_item list \<Rightarrow> nat \<Rightarrow> nat \<Rightarrow>
     (function_call_output_content_item list \<times> nat) option" where
  "truncate_items_loop p [] remaining omitted = Some ([], omitted)"
| "truncate_items_loop p (FcoInputText t # items) remaining omitted =
     (if remaining = 0 then truncate_items_loop p items remaining (Suc omitted)
      else if item_cost p t \<le> remaining
      then map_option (apfst ((#) (FcoInputText t)))
             (truncate_items_loop p items (remaining - item_cost p t) omitted)
      else
        (case truncate_text t (snippet_policy p remaining) of
           None \<Rightarrow> None
         | Some snippet \<Rightarrow>
             if snippet = [] then truncate_items_loop p items 0 (Suc omitted)
             else map_option (apfst ((#) (FcoInputText snippet)))
                    (truncate_items_loop p items 0 omitted)))"
| "truncate_items_loop p (item # items) remaining omitted =
     map_option (apfst ((#) item)) (truncate_items_loop p items remaining omitted)"

definition truncate_function_output_items_with_policy ::
    "function_call_output_content_item list \<Rightarrow> truncation_policy \<Rightarrow>
     function_call_output_content_item list option" where
  "truncate_function_output_items_with_policy items p =
     map_option (\<lambda>(out, omitted_text_items).
       if 0 < omitted_text_items
       then out @ [FcoInputText
              (lit ''[omitted '' @ show_nat omitted_text_items @ lit '' text items ...]'')]
       else out)
     (truncate_items_loop p items
       (case p of Bytes _ \<Rightarrow> byte_budget p | Tokens _ \<Rightarrow> token_budget p) 0)"

section \<open>The scan\<close>

lemma split_scan_prefix:
  "idx + str_len u \<le> beginning \<Longrightarrow>
   split_scan beginning target idx (pe, ss, rm, st) (u @ s) =
     split_scan beginning target (idx + str_len u)
       (if u = [] then pe else idx + str_len u, ss, rm, st) s"
  by (induction u arbitrary: idx pe) (auto simp: Let_def add.assoc)

lemma split_scan_suffix:
  "s = [] \<or> beginning < idx + len_utf8 (hd s) \<Longrightarrow> target \<le> idx \<Longrightarrow>
   split_scan beginning target idx (pe, ss, rm, True) s = (pe, ss, rm, True)"
proof (induction s arbitrary: idx)
  case (Cons c s)
  have "s = [] \<or> beginning < idx + len_utf8 c + len_utf8 (hd s)" using Cons.prems(1) by auto
  with Cons show ?case by (auto simp: Let_def)
qed simp

text \<open>From the first character that does not fit the prefix, the rest splits at the target.\<close>

lemma split_scan_middle:
  assumes "s = [] \<or> beginning < idx + len_utf8 (hd s)" "rm + length s \<le> usize_max"
    "ss = idx + str_len s"
  shows "\<exists>mid right. s = mid @ right \<and>
    (\<exists>st. split_scan beginning target idx (pe, ss, rm, False) s =
       (pe, idx + str_len mid, rm + length mid, st)) \<and>
    (right \<noteq> [] \<longrightarrow> target \<le> idx + str_len mid) \<and>
    (mid \<noteq> [] \<longrightarrow> idx + str_len (butlast mid) < target)"
  using assms
proof (induction s arbitrary: idx rm)
  case Nil
  then show ?case by auto
next
  case (Cons c s)
  have past: "s = [] \<or> beginning < idx + len_utf8 c + len_utf8 (hd s)" using Cons.prems(1) by auto
  show ?case
  proof (cases "target \<le> idx")
    case True
    have "split_scan beginning target idx (pe, ss, rm, False) (c # s) = (pe, idx, rm, True)"
      using Cons.prems(1) True split_scan_suffix [OF past, of target pe idx rm]
      by (auto simp: Let_def)
    with True show ?thesis by (intro exI [of _ "[]"] exI [of _ "c # s"]) auto
  next
    case False
    have rm: "sat_add rm (Suc 0) = Suc rm" using Cons.prems(2) by (simp add: sat_add_def)
    obtain mid right st where IH: "s = mid @ right"
        "split_scan beginning target (idx + len_utf8 c) (pe, ss, Suc rm, False) s =
          (pe, idx + len_utf8 c + str_len mid, Suc rm + length mid, st)"
        "right \<noteq> [] \<longrightarrow> target \<le> idx + len_utf8 c + str_len mid"
        "mid \<noteq> [] \<longrightarrow> idx + len_utf8 c + str_len (butlast mid) < target"
    proof -
      have "Suc rm + length s \<le> usize_max" "ss = idx + len_utf8 c + str_len s"
        using Cons.prems(2,3) by simp_all
      with Cons.IH [OF past, of "Suc rm"] that show thesis by metis
    qed
    have "split_scan beginning target idx (pe, ss, rm, False) (c # s) =
        (pe, idx + str_len (c # mid), rm + length (c # mid), st)"
      using Cons.prems(1) False IH(2) rm by (simp add: Let_def)
    with IH False show ?thesis
      by (intro exI [of _ "c # mid"] exI [of _ right]) (auto simp: add.assoc)
  qed
qed

lemma fitting_prefix:
  "\<exists>u v. s = u @ v \<and> str_len u \<le> n \<and> (v \<noteq> [] \<longrightarrow> n < str_len u + len_utf8 (hd v))"
proof (induction s arbitrary: n)
  case (Cons c s)
  show ?case
  proof (cases "len_utf8 c \<le> n")
    case True
    obtain u v where "s = u @ v" "str_len u \<le> n - len_utf8 c"
        "v \<noteq> [] \<longrightarrow> n - len_utf8 c < str_len u + len_utf8 (hd v)"
      using Cons.IH by blast
    with True show ?thesis by (intro exI [of _ "c # u"] exI [of _ v]) auto
  next
    case False
    then show ?thesis by (intro exI [of _ "[]"] exI [of _ "c # s"]) auto
  qed
qed simp

text \<open>
  With budgets that do not cover the text, it splits into the longest prefix and the longest
  suffix within their budgets and a middle that is not empty and is counted exactly.
\<close>

lemma split_string_parts:
  assumes "str_len s \<le> usize_max" "b + e < str_len s"
  shows "\<exists>left mid right. s = left @ mid @ right \<and> mid \<noteq> [] \<and>
    split_string s b e = Some (length mid, left, right) \<and>
    str_len left \<le> b \<and> b < str_len left + len_utf8 (hd mid) \<and>
    str_len right \<le> e \<and> e < len_utf8 (last mid) + str_len right"
proof -
  let ?target = "str_len s - e"
  obtain left v where l: "s = left @ v" "str_len left \<le> b"
      "v \<noteq> [] \<longrightarrow> b < str_len left + len_utf8 (hd v)"
    using fitting_prefix by blast
  have v: "v \<noteq> []" using l assms(2) by auto
  have bound: "0 + length v \<le> usize_max"
    using length_le_str_len [of v] assms(1) l(1) by simp
  obtain mid right st where m: "v = mid @ right"
      "split_scan b ?target (str_len left) (str_len left, str_len s, 0, False) v =
        (str_len left, str_len left + str_len mid, 0 + length mid, st)"
      "right \<noteq> [] \<longrightarrow> ?target \<le> str_len left + str_len mid"
      "mid \<noteq> [] \<longrightarrow> str_len left + str_len (butlast mid) < ?target"
  proof -
    have "v = [] \<or> b < str_len left + len_utf8 (hd v)" "str_len s = str_len left + str_len v"
      using l by auto
    from split_scan_middle [OF this(1) bound this(2)] that show thesis by metis
  qed
  have mid: "mid \<noteq> []" using m l assms(2) v by auto
  have "split_scan b ?target 0 (0, str_len s, 0, False) s =
      (str_len left, str_len left + str_len mid, length mid, st)"
    using split_scan_prefix [of 0 left b ?target 0 "str_len s" 0 False v] l(1,2) m(2)
    by (cases "left = []") simp_all
  then have split: "split_string s b e = Some (length mid, left, right)"
    using v l(1) m(1) slice_from_append [of "left @ mid" right]
    by (simp add: split_string_def)
  have "mid = butlast mid @ [last mid]" using mid by simp
  then have "str_len mid = str_len (butlast mid) + len_utf8 (last mid)"
    by (metis str_len_simps(1,2,3) add_0_right)
  then have "str_len right \<le> e" "e < len_utf8 (last mid) + str_len right"
    using m(3,4) mid l(1) m(1) assms(2) by (cases "right = []"; force)+
  with l m(1) mid split show ?thesis by (intro exI [of _ left] exI [of _ mid] exI [of _ right]) auto
qed

section \<open>Truncated texts\<close>

lemma len_utf8_le_4: "len_utf8 c \<le> 4"
  by (simp add: len_utf8_def)

lemma truncate_estimate_cut:
  assumes "str_len s \<le> usize_max" "0 < n" "n < str_len s"
  shows "\<exists>left mid right. s = left @ mid @ right \<and> mid \<noteq> [] \<and>
    truncate_with_byte_estimate s n use_tokens =
      Some (left @ format_truncation_marker use_tokens
        (removed_units use_tokens (str_len s - n) (length mid)) @ right) \<and>
    str_len left \<le> n div 2 \<and> str_len right \<le> n - n div 2 \<and>
    n < str_len left + str_len right + 8"
proof -
  have le: "n div 2 + (n - n div 2) = n" by simp
  obtain left mid right where p: "s = left @ mid @ right" "mid \<noteq> []"
      "split_string s (n div 2) (n - n div 2) = Some (length mid, left, right)"
      "str_len left \<le> n div 2" "n div 2 < str_len left + len_utf8 (hd mid)"
      "str_len right \<le> n - n div 2" "n - n div 2 < len_utf8 (last mid) + str_len right"
    using split_string_parts [OF assms(1), of "n div 2" "n - n div 2"] assms(3) unfolding le by blast
  have "n < str_len left + str_len right + 8"
    using p(5,7) le len_utf8_le_4 [of "hd mid"] len_utf8_le_4 [of "last mid"] by linarith
  moreover have "truncate_with_byte_estimate s n use_tokens =
      Some (left @ format_truncation_marker use_tokens
        (removed_units use_tokens (str_len s - n) (length mid)) @ right)"
    using assms p(1,2,3)
    by (auto simp: truncate_with_byte_estimate_def split_budget_def assemble_truncated_output_def
        Let_def)
  ultimately show ?thesis using p by blast
qed

definition by_tokens :: "truncation_policy \<Rightarrow> bool" where
  "by_tokens p = (case p of Tokens _ \<Rightarrow> True | Bytes _ \<Rightarrow> False)"

lemma truncate_text_estimate:
  "truncate_text s p =
    (if s = [] then Some [] else truncate_with_byte_estimate s (byte_budget p) (by_tokens p))"
proof (cases p)
  case (Tokens n)
  have zero: "approx_bytes_for_tokens n = 0 \<longleftrightarrow> n = 0"
    by (simp add: approx_bytes_for_tokens_def APPROX_BYTES_PER_TOKEN_def sat_mul_def usize_max_def
        min_def)
  have fst_if: "map_option (\<lambda>t. fst (if t = s then (t, None) else (t, Some k))) x = x" for k x
    by (cases x) auto
  show ?thesis
    using zero Tokens
    by (auto simp: truncate_middle_with_token_budget_def truncate_with_byte_estimate_def
        by_tokens_def option.map_comp comp_def fst_if)
qed (simp add: truncate_middle_chars_def truncate_with_byte_estimate_def by_tokens_def)

lemma truncate_text_total:
  assumes "str_len s \<le> usize_max"
  shows "\<exists>t. truncate_text s p = Some t"
proof (cases "s = [] \<or> byte_budget p = 0 \<or> str_len s \<le> byte_budget p")
  case True
  then show ?thesis by (auto simp: truncate_text_estimate truncate_with_byte_estimate_def)
next
  case False
  then show ?thesis
    using truncate_estimate_cut [OF assms, of "byte_budget p" "by_tokens p"]
    by (auto simp: truncate_text_estimate)
qed

section \<open>Truncated items\<close>

abbreviation texts :: "function_call_output_content_item list \<Rightarrow> str list" where
  "texts items \<equiv> List.map_filter item_text items"

lemma item_text_simps [simp]:
  "item_text (FcoInputText t) = Some t" "item_text (FcoInputImage u d) = None"
  "item_text (FcoEncryptedContent e) = None"
  by (simp_all add: item_text_def)

lemma truncate_items_loop_exhausted:
  "\<exists>out. truncate_items_loop p items 0 omitted = Some (out, omitted + length (texts items)) \<and>
     texts out = [] \<and> out = filter (\<lambda>i. item_text i = None) items"
proof (induction items arbitrary: omitted)
  case (Cons i items)
  then show ?case
    by (cases i) (fastforce simp: List.map_filter_simps, (auto simp: List.map_filter_simps) [2])
qed (simp add: List.map_filter_simps)

lemma truncate_items_loop_spec:
  assumes "\<And>t. t \<in> set (texts items) \<Longrightarrow> str_len t \<le> usize_max"
  shows "\<exists>out omitted' kept rest extra.
    truncate_items_loop p items remaining omitted = Some (out, omitted') \<and>
    filter (\<lambda>i. item_text i = None) out = filter (\<lambda>i. item_text i = None) items \<and>
    texts items = kept @ rest \<and> sum_list (map (item_cost p) kept) \<le> remaining \<and>
    texts out = kept @ extra \<and> length extra \<le> 1 \<and>
    (rest = [] \<longrightarrow> extra = [] \<and> omitted' = omitted)"
  using assms
proof (induction items arbitrary: remaining omitted)
  case Nil
  then show ?case by (auto simp: List.map_filter_simps)
next
  case (Cons i items)
  then have prems: "\<And>t. t \<in> set (texts items) \<Longrightarrow> str_len t \<le> usize_max"
    by (auto simp: List.map_filter_simps split: option.splits)
  show ?case
  proof (cases "item_text i")
    case None
    then have loop: "truncate_items_loop p (i # items) remaining omitted =
        map_option (apfst ((#) i)) (truncate_items_loop p items remaining omitted)"
      by (cases i) auto
    obtain out omitted' kept rest extra where
        "truncate_items_loop p items remaining omitted = Some (out, omitted')"
        "filter (\<lambda>i. item_text i = None) out = filter (\<lambda>i. item_text i = None) items"
        "texts items = kept @ rest" "sum_list (map (item_cost p) kept) \<le> remaining"
        "texts out = kept @ extra" "length extra \<le> 1"
        "rest = [] \<longrightarrow> extra = [] \<and> omitted' = omitted"
      using Cons.IH [OF prems] by blast
    with loop None show ?thesis
      by - (rule exI [of _ "i # out"], rule exI [of _ omitted'], rule exI [of _ kept],
          rule exI [of _ rest], rule exI [of _ extra], simp)
  next
    case (Some t)
    then have i: "i = FcoInputText t" by (cases i) auto
    have t: "str_len t \<le> usize_max" using Cons.prems i by simp
    show ?thesis
    proof (cases "item_cost p t \<le> remaining \<and> remaining \<noteq> 0")
      case True
      obtain out omitted' kept rest extra where
          "truncate_items_loop p items (remaining - item_cost p t) omitted = Some (out, omitted')"
          "filter (\<lambda>i. item_text i = None) out = filter (\<lambda>i. item_text i = None) items"
          "texts items = kept @ rest" "sum_list (map (item_cost p) kept) \<le> remaining - item_cost p t"
          "texts out = kept @ extra" "length extra \<le> 1"
          "rest = [] \<longrightarrow> extra = [] \<and> omitted' = omitted"
        using Cons.IH [OF prems] by blast
      with True i show ?thesis
        by - (rule exI [of _ "i # out"], rule exI [of _ omitted'], rule exI [of _ "t # kept"],
            rule exI [of _ rest], rule exI [of _ extra], auto)
    next
      case False
      obtain snippet where snip: "truncate_text t (snippet_policy p remaining) = Some snippet"
        using truncate_text_total [OF t] by blast
      show ?thesis
      proof -
        let ?rest = "texts (i # items)"
        consider out where "truncate_items_loop p (i # items) remaining omitted =
              Some (out, Suc omitted + length (texts items))" "texts out = []"
            "out = filter (\<lambda>i. item_text i = None) items"
          | out where "truncate_items_loop p (i # items) remaining omitted =
              Some (FcoInputText snippet # out, omitted + length (texts items))" "texts out = []"
            "out = filter (\<lambda>i. item_text i = None) items"
          using truncate_items_loop_exhausted [of p items "Suc omitted"]
            truncate_items_loop_exhausted [of p items omitted] False i snip
          by (cases "remaining = 0 \<or> snippet = []") auto
        then show ?thesis
        proof cases
          case 1
          then show ?thesis
            by - (rule exI [of _ out], rule exI, rule exI [of _ "[]"],
                rule exI [of _ ?rest], rule exI [of _ "[]"], simp add: i)
        next
          case 2
          then show ?thesis
            by - (rule exI [of _ "FcoInputText snippet # out"], rule exI, rule exI [of _ "[]"],
                rule exI [of _ ?rest], rule exI [of _ "[snippet]"], simp add: i)
        qed
      qed
    qed
  qed
qed

section \<open>Properties\<close>

text \<open>
  C36. Truncating a text never panics.  A text within its budget stays as it is, an empty budget
  leaves only the marker, and otherwise a prefix and a suffix remain around a marker that
  states how much was removed: both on character boundaries, within the two halves of the
  budget, with fewer than eight bytes of it unused.
\<close>

theorem truncate_text_budget:
  assumes "str_len s \<le> usize_max"
  shows "\<exists>t. truncate_text s p = Some t \<and>
    (s = [] \<or> 0 < byte_budget p \<and> str_len s \<le> byte_budget p \<longrightarrow> t = s) \<and>
    (s \<noteq> [] \<and> byte_budget p = 0 \<longrightarrow> t = format_truncation_marker (by_tokens p)
       (removed_units (by_tokens p) (str_len s) (length s))) \<and>
    (0 < byte_budget p \<and> byte_budget p < str_len s \<longrightarrow>
      (\<exists>left mid right. s = left @ mid @ right \<and> mid \<noteq> [] \<and>
         t = left @ format_truncation_marker (by_tokens p)
               (removed_units (by_tokens p) (str_len s - byte_budget p) (length mid)) @ right \<and>
         str_len left \<le> byte_budget p div 2 \<and>
         str_len right \<le> byte_budget p - byte_budget p div 2 \<and>
         byte_budget p < str_len left + str_len right + 8))"
proof (cases "0 < byte_budget p \<and> byte_budget p < str_len s")
  case True
  then have "s \<noteq> []" by auto
  with True truncate_estimate_cut [OF assms, of "byte_budget p" "by_tokens p"] show ?thesis
    by (simp add: truncate_text_estimate) blast
next
  case False
  then show ?thesis by (auto simp: truncate_text_estimate truncate_with_byte_estimate_def)
qed

theorem truncate_text_budget_witness:
  "\<exists>t left mid right. truncate_text (lit ''abcdef'') (Bytes 4) = Some t \<and>
     lit ''abcdef'' = left @ mid @ right \<and>
     t = left @ format_truncation_marker False (length mid) @ right \<and> str_len left \<le> 2"
proof -
  have "str_len (lit ''abcdef'') = 6" by (simp add: lit_def len_utf8_def)
  then show ?thesis
    using truncate_text_budget [of "lit ''abcdef''" "Bytes 4"]
    by (auto simp: usize_max_def by_tokens_def removed_units_def)
qed

text \<open>
  Truncating the items of a tool output never panics and keeps every image and encrypted
  item in order.  Of the texts a first part is kept verbatim whose cost is within the budget;
  after it come at most two texts, a cut one and a note on the omitted ones, and none when
  every text was kept.
\<close>

theorem truncate_items_budget:
  assumes "\<And>t. t \<in> set (texts items) \<Longrightarrow> str_len t \<le> usize_max"
  shows "\<exists>out kept rest extra.
    truncate_function_output_items_with_policy items p = Some out \<and>
    filter (\<lambda>i. item_text i = None) out = filter (\<lambda>i. item_text i = None) items \<and>
    texts items = kept @ rest \<and> texts out = kept @ extra \<and>
    sum_list (map (item_cost p) kept) \<le> (case p of Bytes n \<Rightarrow> n | Tokens n \<Rightarrow> n) \<and>
    length extra \<le> 2 \<and> (rest = [] \<longrightarrow> extra = [])"
proof -
  let ?budget = "case p of Bytes n \<Rightarrow> n | Tokens n \<Rightarrow> n"
  have budget: "(case p of Bytes _ \<Rightarrow> byte_budget p | Tokens _ \<Rightarrow> token_budget p) = ?budget"
    by (cases p) auto
  obtain out omitted' kept rest extra where l:
      "truncate_items_loop p items ?budget 0 = Some (out, omitted')"
      "filter (\<lambda>i. item_text i = None) out = filter (\<lambda>i. item_text i = None) items"
      "texts items = kept @ rest" "sum_list (map (item_cost p) kept) \<le> ?budget"
      "texts out = kept @ extra" "length extra \<le> 1" "rest = [] \<longrightarrow> extra = [] \<and> omitted' = 0"
    using truncate_items_loop_spec [OF assms, where remaining = ?budget and omitted = 0 and p = p]
    by blast
  have append: "texts (xs @ ys) = texts xs @ texts ys" for xs ys by (simp add: List.map_filter_def)
  show ?thesis
  proof (cases "0 < omitted'")
    case True
    let ?note = "lit ''[omitted '' @ show_nat omitted' @ lit '' text items ...]''"
    show ?thesis
      by (rule exI [of _ "out @ [FcoInputText ?note]"], rule exI [of _ kept], rule exI [of _ rest],
          rule exI [of _ "extra @ [?note]"])
         (use True l in \<open>simp add: truncate_function_output_items_with_policy_def budget append\<close>)
  next
    case False
    show ?thesis
      by (rule exI [of _ out], rule exI [of _ kept], rule exI [of _ rest], rule exI [of _ extra])
         (use False l in \<open>simp add: truncate_function_output_items_with_policy_def budget\<close>)
  qed
qed

theorem truncate_items_budget_witness:
  "\<exists>out. truncate_function_output_items_with_policy
       [FcoInputText (lit ''abc''), FcoInputImage (lit ''u'') None, FcoInputText (lit ''d'')] (Bytes 3) =
       Some out \<and>
     filter (\<lambda>i. item_text i = None) out = [FcoInputImage (lit ''u'') None]"
proof -
  let ?items = "[FcoInputText (lit ''abc''), FcoInputImage (lit ''u'') None, FcoInputText (lit ''d'')]"
  have "str_len t \<le> usize_max" if "t \<in> set (texts ?items)" for t
    using that by (auto simp: lit_def len_utf8_def usize_max_def)
  from truncate_items_budget [of ?items "Bytes 3", OF this] show ?thesis by auto
qed

end
