(* ===== verification/Context_Fragments.thy ===== *)
theory Context_Fragments
  imports Truncate
begin

text \<open>
  Fragments of context that the program injects into the conversation as messages, and the
  recognition of such messages later: \<^verbatim>\<open>context-fragments/src/fragment.rs\<close> and
  \<^verbatim>\<open>additional_context.rs\<close>, the registered fragments of \<^verbatim>\<open>core/src/context\<close> and
  the predicates of \<^verbatim>\<open>core/src/event_mapping.rs\<close>.  The XML reader behind hook prompts is a
  parameter \<open>hook\<close>, true of the texts it reads.
\<close>

section \<open>Recognition\<close>

definition starts_with_ignore_case :: "str \<Rightarrow> str \<Rightarrow> bool" where
  "starts_with_ignore_case s marker =
     (case slice_to s (str_len marker) of
        Some candidate \<Rightarrow> eq_ignore_ascii_case candidate marker | None \<Rightarrow> False)"

definition ends_with_ignore_case :: "str \<Rightarrow> str \<Rightarrow> bool" where
  "ends_with_ignore_case s marker =
     (case slice_from s (str_len s - str_len marker) of
        Some candidate \<Rightarrow> eq_ignore_ascii_case candidate marker | None \<Rightarrow> False)"

definition matches_marked_text :: "str \<Rightarrow> str \<Rightarrow> str \<Rightarrow> bool" where
  "matches_marked_text start_marker end_marker s =
     (if start_marker = [] \<or> end_marker = [] then False
      else
        (let trimmed = trim_start s in
         starts_with_ignore_case trimmed start_marker \<and>
         ends_with_ignore_case (trim_end trimmed) end_marker))"

text \<open>\<^verbatim>\<open>str::split_once\<close> with a string.\<close>

definition split_once_str :: "str \<Rightarrow> str \<Rightarrow> (str \<times> str) option" where
  "split_once_str s p = map_option (\<lambda>i. (take i s, drop (i + length p) s)) (find_str s p)"

definition ADDITIONAL_CONTEXT_START_MARKER_PREFIX :: str where
  "ADDITIONAL_CONTEXT_START_MARKER_PREFIX = lit ''<external_''"

definition ADDITIONAL_CONTEXT_END_MARKER_SUFFIX :: str where
  "ADDITIONAL_CONTEXT_END_MARKER_SUFFIX = lit ''>''"

definition additional_context_matches :: "str \<Rightarrow> bool" where
  "additional_context_matches s =
     (case strip_prefix (trim s) ADDITIONAL_CONTEXT_START_MARKER_PREFIX of
        None \<Rightarrow> False
      | Some rest \<Rightarrow>
          (case split_once_str rest ADDITIONAL_CONTEXT_END_MARKER_SUFFIX of
             None \<Rightarrow> False
           | Some (key, value_and_close) \<Rightarrow>
               ends_with value_and_close (lit ''</external_'' @ key @ lit ''>'')))"

definition CONTEXT_START_MARKER :: str where
  "CONTEXT_START_MARKER = lit ''<codex_internal_context''"

definition CONTEXT_END_MARKER :: str where
  "CONTEXT_END_MARKER = lit ''</codex_internal_context>''"

definition SOURCE_ATTR_START :: str where
  "SOURCE_ATTR_START = lit '' source='' @ [34]"

definition SOURCE_ATTR_END :: str where
  "SOURCE_ATTR_END = [34] @ lit ''>''"

definition is_ascii_lowercase :: "uchar \<Rightarrow> bool" where
  "is_ascii_lowercase c \<longleftrightarrow> 97 \<le> c \<and> c \<le> 122"

definition is_valid_source :: "str \<Rightarrow> bool" where
  "is_valid_source source =
     (case source of
        [] \<Rightarrow> False
      | first # chars \<Rightarrow>
          is_ascii_lowercase first \<and>
          list_all (\<lambda>ch. is_ascii_lowercase ch \<or> is_ascii_digit ch \<or> ch = 95) chars)"

definition matches_legacy_goal_context :: "str \<Rightarrow> bool" where
  "matches_legacy_goal_context s \<longleftrightarrow>
     starts_with s (lit ''<goal_context>'') \<and> ends_with s (lit ''</goal_context>'')"

definition internal_context_matches :: "str \<Rightarrow> bool" where
  "internal_context_matches s =
     (let trimmed = trim s in
      if matches_legacy_goal_context trimmed then True
      else
        (case strip_prefix trimmed CONTEXT_START_MARKER of
           None \<Rightarrow> False
         | Some rest \<Rightarrow>
             (case strip_prefix rest SOURCE_ATTR_START of
                None \<Rightarrow> False
              | Some rest \<Rightarrow>
                  (case split_once_str rest SOURCE_ATTR_END of
                     None \<Rightarrow> False
                   | Some (source, body_and_close) \<Rightarrow>
                       is_valid_source source \<and> ends_with body_and_close CONTEXT_END_MARKER))))"

definition unified_exec_warning_matches :: "str \<Rightarrow> bool" where
  "unified_exec_warning_matches s =
     starts_with (trim s)
       (lit ''Warning: The maximum number of unified exec processes you can keep open is'')"

definition apply_patch_warning_matches :: "str \<Rightarrow> bool" where
  "apply_patch_warning_matches s \<longleftrightarrow>
     starts_with (trim s) (lit ''Warning: apply_patch was requested via '') \<and>
     ends_with (trim s) (lit ''Use the apply_patch tool instead of exec_command.'')"

definition model_mismatch_warning_matches :: "str \<Rightarrow> bool" where
  "model_mismatch_warning_matches s =
     starts_with (trim s)
       (lit ''Warning: Your account was flagged for potentially high-risk cyber activity'')"

definition user_instructions_markers :: "str \<times> str" where
  "user_instructions_markers = (lit ''# AGENTS.md instructions'', lit ''</INSTRUCTIONS>'')"

definition environment_context_markers :: "str \<times> str" where
  "environment_context_markers = (lit ''<environment_context>'', lit ''</environment_context>'')"

definition skill_markers :: "str \<times> str" where
  "skill_markers = (lit ''<skill>'', lit ''</skill>'')"

definition user_shell_command_markers :: "str \<times> str" where
  "user_shell_command_markers = (lit ''<user_shell_command>'', lit ''</user_shell_command>'')"

definition turn_aborted_markers :: "str \<times> str" where
  "turn_aborted_markers = (lit ''<turn_aborted>'', lit ''</turn_aborted>'')"

definition subagent_notification_markers :: "str \<times> str" where
  "subagent_notification_markers =
     (lit ''<subagent_notification>'', lit ''</subagent_notification>'')"

definition recommended_plugins_markers :: "str \<times> str" where
  "recommended_plugins_markers = (lit ''<recommended_plugins>'', lit ''</recommended_plugins>'')"

definition matches_markers :: "str \<times> str \<Rightarrow> str \<Rightarrow> bool" where
  "matches_markers m = matches_marked_text (fst m) (snd m)"

text \<open>The registered fragments, in the order of the table.\<close>

definition CONTEXTUAL_USER_FRAGMENTS :: "(str \<Rightarrow> bool) list" where
  "CONTEXTUAL_USER_FRAGMENTS =
     [matches_markers user_instructions_markers,
      matches_markers environment_context_markers,
      additional_context_matches,
      matches_markers skill_markers,
      matches_markers user_shell_command_markers,
      matches_markers turn_aborted_markers,
      matches_markers subagent_notification_markers,
      internal_context_matches,
      matches_markers recommended_plugins_markers,
      unified_exec_warning_matches,
      apply_patch_warning_matches,
      model_mismatch_warning_matches]"

definition is_standard_contextual_user_text :: "str \<Rightarrow> bool" where
  "is_standard_contextual_user_text s = list_ex (\<lambda>m. m s) CONTEXTUAL_USER_FRAGMENTS"

definition is_contextual_user_fragment :: "(str \<Rightarrow> bool) \<Rightarrow> content_item \<Rightarrow> bool" where
  "is_contextual_user_fragment hook item =
     (case item of
        InputText t \<Rightarrow> hook t \<or> is_standard_contextual_user_text t
      | _ \<Rightarrow> False)"

definition is_contextual_user_message_content :: "(str \<Rightarrow> bool) \<Rightarrow> content_item list \<Rightarrow> bool" where
  "is_contextual_user_message_content hook message = list_ex (is_contextual_user_fragment hook) message"

definition CONTEXTUAL_DEVELOPER_PREFIXES :: "str list" where
  "CONTEXTUAL_DEVELOPER_PREFIXES =
     [lit ''<permissions instructions>'', lit ''<model_switch>'', lit ''<apps_instructions>'',
      lit ''<collaboration_mode>'', lit ''<multi_agent_mode>'', lit ''<plugins_instructions>'',
      lit ''<realtime_conversation>'', lit ''<skills_instructions>'', lit ''<personality_spec>'',
      lit ''<token_budget>'', lit ''<context_window>'', lit ''<context_window_guidance>'',
      lit ''<rollout_budget>'']"

definition is_contextual_dev_fragment :: "content_item \<Rightarrow> bool" where
  "is_contextual_dev_fragment item =
     (case item of
        InputText t \<Rightarrow>
          list_ex (starts_with_ignore_case (trim_start t)) CONTEXTUAL_DEVELOPER_PREFIXES
      | _ \<Rightarrow> False)"

definition is_contextual_dev_message_content :: "content_item list \<Rightarrow> bool" where
  "is_contextual_dev_message_content message = list_ex is_contextual_dev_fragment message"

definition has_non_contextual_dev_message_content :: "content_item list \<Rightarrow> bool" where
  "has_non_contextual_dev_message_content message =
     list_ex (\<lambda>item. \<not> is_contextual_dev_fragment item) message"

section \<open>Rendering\<close>

definition render_fragment :: "str \<times> str \<Rightarrow> str \<Rightarrow> str" where
  "render_fragment markers b =
     (if fst markers = [] \<and> snd markers = [] then b else fst markers @ b @ snd markers)"

definition MAX_ADDITIONAL_CONTEXT_VALUE_TOKENS :: nat where
  "MAX_ADDITIONAL_CONTEXT_VALUE_TOKENS = 1000"

text \<open>\<open>None\<close> is a panic of the truncation.\<close>

definition additional_context_body :: "str \<Rightarrow> str \<Rightarrow> str option" where
  "additional_context_body key val =
     map_option (\<lambda>(v, _). key @ lit ''>'' @ v @ lit ''</external_'' @ key)
       (truncate_middle_with_token_budget val MAX_ADDITIONAL_CONTEXT_VALUE_TOKENS)"

definition user_instructions_body :: "str option \<Rightarrow> str \<Rightarrow> str" where
  "user_instructions_body directory t =
     (case directory of Some d \<Rightarrow> lit '' for '' @ d | None \<Rightarrow> []) @ [nl, nl] @
     lit ''<INSTRUCTIONS>'' @ [nl] @ t @ [nl]"

definition skill_instructions_body :: "str \<Rightarrow> str \<Rightarrow> str \<Rightarrow> str" where
  "skill_instructions_body name path contents =
     [nl] @ lit ''<name>'' @ name @ lit ''</name>'' @ [nl] @ lit ''<path>'' @ path @
     lit ''</path>'' @ [nl] @ contents @ [nl]"

definition turn_aborted_body :: "str \<Rightarrow> str" where
  "turn_aborted_body guidance = [nl] @ guidance @ [nl]"

definition internal_context_body :: "str \<Rightarrow> str \<Rightarrow> str" where
  "internal_context_body source b =
     lit '' source='' @ [34] @ source @ [34] @ lit ''>'' @ [nl] @ b @ [nl]"

datatype user_fragment =
  UserInstructions "str option" str
| AdditionalContextUserFragment str str
| SkillInstructions str str str
| TurnAborted str
| InternalModelContextFragment str str

fun fragment_markers :: "user_fragment \<Rightarrow> str \<times> str" where
  "fragment_markers (UserInstructions _ _) = user_instructions_markers"
| "fragment_markers (AdditionalContextUserFragment _ _) =
     (ADDITIONAL_CONTEXT_START_MARKER_PREFIX, ADDITIONAL_CONTEXT_END_MARKER_SUFFIX)"
| "fragment_markers (SkillInstructions _ _ _) = skill_markers"
| "fragment_markers (TurnAborted _) = turn_aborted_markers"
| "fragment_markers (InternalModelContextFragment _ _) = (CONTEXT_START_MARKER, CONTEXT_END_MARKER)"

fun fragment_body :: "user_fragment \<Rightarrow> str option" where
  "fragment_body (UserInstructions directory t) = Some (user_instructions_body directory t)"
| "fragment_body (AdditionalContextUserFragment key val) = additional_context_body key val"
| "fragment_body (SkillInstructions name path contents) =
     Some (skill_instructions_body name path contents)"
| "fragment_body (TurnAborted guidance) = Some (turn_aborted_body guidance)"
| "fragment_body (InternalModelContextFragment source b) = Some (internal_context_body source b)"

definition fragment_message :: "user_fragment \<Rightarrow> 'o response_item option" where
  "fragment_message f =
     map_option (\<lambda>b. Message None (lit ''user'') [InputText (render_fragment (fragment_markers f) b)]
       None None) (fragment_body f)"

section \<open>Rendered fragments are recognised\<close>

lemma starts_with_ignore_case_append [simp]: "starts_with_ignore_case (m @ s) m"
  by (simp add: starts_with_ignore_case_def eq_ignore_ascii_case_def)

lemma ends_with_ignore_case_append [simp]: "ends_with_ignore_case (s @ m) m"
  by (simp add: ends_with_ignore_case_def eq_ignore_ascii_case_def)

lemma trim_marked:
  assumes "m \<noteq> []" "e \<noteq> []" "\<not> is_whitespace (hd m)" "\<not> is_whitespace (last e)"
  shows "trim_start (m @ b @ e) = m @ b @ e" "trim_end (m @ b @ e) = m @ b @ e"
    "trim (m @ b @ e) = m @ b @ e"
  using assms trim_start_id [of "m @ b @ e"] trim_end_id [of "m @ b @ e"]
  by (simp_all add: trim_def)

lemma matches_markers_render:
  assumes "fst m \<noteq> []" "snd m \<noteq> []" "\<not> is_whitespace (hd (fst m))" "\<not> is_whitespace (last (snd m))"
  shows "matches_markers m (render_fragment m b)"
  using trim_marked [OF assms] assms(1,2) ends_with_ignore_case_append [of "fst m @ b" "snd m"]
  by (simp add: matches_markers_def matches_marked_text_def render_fragment_def)

lemma ends_with_append [simp]: "ends_with (s @ e) e"
  by (simp add: ends_with_def)

lemma split_once_str_first:
  assumes "p = a # p'" "a \<notin> set u"
  shows "split_once_str (u @ p @ v) p = Some (u, v)"
proof -
  have "find_str (u @ p @ v) p = Some (length u)"
    using assms(2)
  proof (induction u)
    case Nil
    then show ?case using assms(1) by (simp add: starts_with_def)
  qed (use assms(1) in \<open>auto simp: starts_with_def\<close>)
  then show ?thesis by (simp add: split_once_str_def)
qed

lemma additional_context_recognised:
  assumes "62 \<notin> set key"
  shows "additional_context_matches
    (lit ''<external_'' @ key @ lit ''>'' @ v @ lit ''</external_'' @ key @ lit ''>'')"
proof -
  let ?t = "lit ''<external_'' @ (key @ lit ''>'' @ v @ lit ''</external_'' @ key) @ lit ''>''"
  have "trim ?t = ?t" by (rule trim_marked) (simp_all add: lit_def is_whitespace_def)
  moreover have "split_once_str (key @ lit ''>'' @ v @ lit ''</external_'' @ key @ lit ''>'') (lit ''>'') =
      Some (key, v @ lit ''</external_'' @ key @ lit ''>'')"
    by (rule split_once_str_first [of _ 62 "[]"]) (use assms in \<open>simp_all add: lit_def\<close>)
  ultimately show ?thesis
    by (simp add: additional_context_matches_def ADDITIONAL_CONTEXT_START_MARKER_PREFIX_def
        ADDITIONAL_CONTEXT_END_MARKER_SUFFIX_def)
qed

lemma valid_source_no_quote: "is_valid_source src \<Longrightarrow> 34 \<notin> set src"
  by (cases src) (auto simp: is_valid_source_def is_ascii_lowercase_def is_ascii_digit_def list_all_iff)

lemma internal_context_recognised:
  assumes "is_valid_source src"
  shows "internal_context_matches
    (CONTEXT_START_MARKER @ SOURCE_ATTR_START @ src @ SOURCE_ATTR_END @ b @ CONTEXT_END_MARKER)"
proof -
  let ?t = "CONTEXT_START_MARKER @ (SOURCE_ATTR_START @ src @ SOURCE_ATTR_END @ b) @ CONTEXT_END_MARKER"
  have "trim ?t = ?t"
    by (rule trim_marked)
       (simp_all add: lit_def is_whitespace_def CONTEXT_START_MARKER_def CONTEXT_END_MARKER_def)
  moreover have "split_once_str (src @ SOURCE_ATTR_END @ b @ CONTEXT_END_MARKER) SOURCE_ATTR_END =
      Some (src, b @ CONTEXT_END_MARKER)"
    by (rule split_once_str_first [of _ 34 "lit ''>''"])
       (simp_all add: SOURCE_ATTR_END_def valid_source_no_quote [OF assms])
  ultimately show ?thesis using assms by (simp add: internal_context_matches_def Let_def)
qed

definition valid_fragment :: "user_fragment \<Rightarrow> bool" where
  "valid_fragment f =
     (case f of
        AdditionalContextUserFragment key val \<Rightarrow> 62 \<notin> set key \<and> str_len val \<le> usize_max
      | InternalModelContextFragment source _ \<Rightarrow> is_valid_source source
      | _ \<Rightarrow> True)"

lemmas marker_defs = user_instructions_markers_def skill_markers_def turn_aborted_markers_def
  ADDITIONAL_CONTEXT_START_MARKER_PREFIX_def ADDITIONAL_CONTEXT_END_MARKER_SUFFIX_def

lemma marked_fragment_recognised:
  assumes "m \<in> {user_instructions_markers, skill_markers, turn_aborted_markers}"
  shows "is_standard_contextual_user_text (render_fragment m b)"
proof -
  have "matches_markers m (render_fragment m b)"
    by (rule matches_markers_render)
       (use assms in \<open>auto simp: marker_defs lit_def is_whitespace_def\<close>)
  with assms show ?thesis
    by (auto simp: is_standard_contextual_user_text_def CONTEXTUAL_USER_FRAGMENTS_def)
qed

section \<open>Properties\<close>

text \<open>
  Every fragment the program injects as a user message is recognised as context when the
  history is read again, provided the key of an additional context has no closing bracket and
  the source of an internal context is valid; so injected context is never taken for a turn of
  the user.
\<close>

theorem rendered_fragments_recognised:
  assumes "valid_fragment f"
  shows "\<exists>t. fragment_message f = Some (Message None (lit ''user'') [InputText t] None None) \<and>
    is_contextual_user_message_content hook [InputText t]"
proof -
  have "\<exists>b. fragment_body f = Some b \<and>
      is_standard_contextual_user_text (render_fragment (fragment_markers f) b)"
  proof (cases f)
    case (AdditionalContextUserFragment key val)
    obtain v n where v: "truncate_middle_with_token_budget val MAX_ADDITIONAL_CONTEXT_VALUE_TOKENS =
        Some (v, n)"
      using truncate_text_total [of val "Tokens MAX_ADDITIONAL_CONTEXT_VALUE_TOKENS"] assms
        AdditionalContextUserFragment by (auto simp: valid_fragment_def)
    have "additional_context_matches
        (lit ''<external_'' @ key @ lit ''>'' @ v @ lit ''</external_'' @ key @ lit ''>'')"
      using assms AdditionalContextUserFragment
      by (intro additional_context_recognised) (simp add: valid_fragment_def)
    with AdditionalContextUserFragment v show ?thesis
      by (simp add: additional_context_body_def render_fragment_def marker_defs
          is_standard_contextual_user_text_def CONTEXTUAL_USER_FRAGMENTS_def) (simp add: lit_def)
  next
    case (InternalModelContextFragment src b)
    have "internal_context_matches
        (CONTEXT_START_MARKER @ SOURCE_ATTR_START @ src @ SOURCE_ATTR_END @ ([nl] @ b @ [nl]) @
         CONTEXT_END_MARKER)"
      using assms InternalModelContextFragment
      by (intro internal_context_recognised) (simp add: valid_fragment_def)
    with InternalModelContextFragment show ?thesis
      by (simp add: internal_context_body_def render_fragment_def SOURCE_ATTR_START_def
          SOURCE_ATTR_END_def is_standard_contextual_user_text_def CONTEXTUAL_USER_FRAGMENTS_def CONTEXT_START_MARKER_def)
         (simp add: lit_def)
  qed (auto simp: marked_fragment_recognised)
  then show ?thesis
    by (auto simp: fragment_message_def is_contextual_user_message_content_def
        is_contextual_user_fragment_def)
qed

theorem rendered_fragments_recognised_witness:
  "\<exists>t. (fragment_message (InternalModelContextFragment (lit ''goal'') (lit ''x'')) :: unit response_item option) =
      Some (Message None (lit ''user'') [InputText t] None None) \<and>
    is_contextual_user_message_content (\<lambda>_. False) [InputText t]"
  by (rule rendered_fragments_recognised)
     (simp add: valid_fragment_def is_valid_source_def is_ascii_lowercase_def lit_def)

end
