(* ===== verification/Context_Manager.thy ===== *)
theory Context_Manager
  imports History_Normalize Context_Fragments
begin

text \<open>
  The transcript of a thread: \<^verbatim>\<open>core/src/context_manager/history.rs\<close>, with the token usage
  of \<^verbatim>\<open>protocol/src/protocol.rs\<close>.  Parameters stand for what is not in the repository: the
  size of an item in JSON (\<open>json_len\<close>), the dimensions of an image decoded from base64
  (\<open>image_size\<close>), the XML of hook prompts (\<open>hook\<close>) and the JSON of an instruction between
  agents (\<open>agent_json\<close>).  The cache in front of the image estimate is left out: it returns what
  the estimate computes.  A result \<open>None\<close> is a panic.
\<close>

section \<open>Token usage\<close>

record token_usage =
  input_tokens :: int
  cached_input_tokens :: int
  output_tokens :: int
  reasoning_output_tokens :: int
  total_tokens :: int

definition default_usage :: token_usage where
  "default_usage = \<lparr> input_tokens = 0, cached_input_tokens = 0, output_tokens = 0,
     reasoning_output_tokens = 0, total_tokens = 0 \<rparr>"

record token_usage_info =
  total_token_usage :: token_usage
  last_token_usage :: token_usage
  model_context_window :: "int option"

definition usage_add_assign :: "bool \<Rightarrow> token_usage \<Rightarrow> token_usage \<Rightarrow> token_usage option" where
  "usage_add_assign debug u other =
     Option.bind (i64_checked debug (input_tokens u + input_tokens other)) (\<lambda>i.
     Option.bind (i64_checked debug (cached_input_tokens u + cached_input_tokens other)) (\<lambda>c.
     Option.bind (i64_checked debug (output_tokens u + output_tokens other)) (\<lambda>out.
     Option.bind (i64_checked debug (reasoning_output_tokens u + reasoning_output_tokens other)) (\<lambda>r.
     Option.bind (i64_checked debug (total_tokens u + total_tokens other)) (\<lambda>t.
     Some \<lparr> input_tokens = i, cached_input_tokens = c, output_tokens = out,
            reasoning_output_tokens = r, total_tokens = t \<rparr>)))))"

definition append_last_usage :: "bool \<Rightarrow> token_usage_info \<Rightarrow> token_usage \<Rightarrow> token_usage_info option" where
  "append_last_usage debug info usage =
     map_option (\<lambda>total. info\<lparr> total_token_usage := total, last_token_usage := usage \<rparr>)
       (usage_add_assign debug (total_token_usage info) usage)"

definition new_or_append ::
    "bool \<Rightarrow> token_usage_info option \<Rightarrow> token_usage option \<Rightarrow> int option \<Rightarrow>
     token_usage_info option option" where
  "new_or_append debug info usage window =
     (if info = None \<and> usage = None then Some None
      else
        (let start =
           (case info of
              Some info \<Rightarrow> info
            | None \<Rightarrow> \<lparr> total_token_usage = default_usage, last_token_usage = default_usage,
                         model_context_window = window \<rparr>) in
         map_option (\<lambda>info.
             Some (case window of
                     Some w \<Rightarrow> info\<lparr> model_context_window := Some w \<rparr> | None \<Rightarrow> info))
           (case usage of Some u \<Rightarrow> append_last_usage debug start u | None \<Rightarrow> Some start)))"

definition fill_to_context_window :: "bool \<Rightarrow> token_usage_info \<Rightarrow> int \<Rightarrow> token_usage_info option" where
  "fill_to_context_window debug info context_window =
     map_option (\<lambda>d.
         \<lparr> total_token_usage = default_usage\<lparr> total_tokens := context_window \<rparr>,
           last_token_usage = default_usage\<lparr> total_tokens := max d 0 \<rparr>,
           model_context_window = Some context_window \<rparr>)
       (i64_checked debug (context_window - total_tokens (total_token_usage info)))"

definition full_context_window :: "bool \<Rightarrow> int \<Rightarrow> token_usage_info option" where
  "full_context_window debug context_window =
     fill_to_context_window debug
       \<lparr> total_token_usage = default_usage, last_token_usage = default_usage,
         model_context_window = Some context_window \<rparr> context_window"

section \<open>Items\<close>

definition is_inter_agent_instruction_content :: "(str \<Rightarrow> bool) \<Rightarrow> content_item list \<Rightarrow> bool" where
  "is_inter_agent_instruction_content agent_json content =
     (case content of
        [InputText t] \<Rightarrow> agent_json t
      | [OutputText t] \<Rightarrow> agent_json t
      | _ \<Rightarrow> False)"

definition is_user_turn_boundary ::
    "(str \<Rightarrow> bool) \<Rightarrow> (str \<Rightarrow> bool) \<Rightarrow> 'o response_item \<Rightarrow> bool" where
  "is_user_turn_boundary hook agent_json item =
     (case item of
        AgentMessage _ _ _ _ _ \<Rightarrow> True
      | Message _ role content _ _ \<Rightarrow>
          role = lit ''user'' \<and> \<not> is_contextual_user_message_content hook content \<or>
          role = lit ''assistant'' \<and> is_inter_agent_instruction_content agent_json content
      | _ \<Rightarrow> False)"

fun user_message_positions :: "('o response_item \<Rightarrow> bool) \<Rightarrow> nat \<Rightarrow> 'o response_item list \<Rightarrow> nat list" where
  "user_message_positions boundary idx [] = []"
| "user_message_positions boundary idx (item # items) =
     (if boundary item then [idx] else []) @ user_message_positions boundary (Suc idx) items"

definition is_api_message :: "'o response_item \<Rightarrow> bool" where
  "is_api_message m =
     (case m of
        Message _ role _ _ _ \<Rightarrow> role \<noteq> lit ''system''
      | CompactionTrigger \<Rightarrow> False
      | Other \<Rightarrow> False
      | _ \<Rightarrow> True)"

definition is_model_generated_item :: "'o response_item \<Rightarrow> bool" where
  "is_model_generated_item m =
     (case m of
        Message _ role _ _ _ \<Rightarrow> role = lit ''assistant''
      | Reasoning _ _ _ _ _ \<Rightarrow> True
      | FunctionCall _ _ _ _ _ _ \<Rightarrow> True
      | ToolSearchCall _ _ _ _ _ _ \<Rightarrow> True
      | WebSearchCall _ _ _ _ \<Rightarrow> True
      | ImageGenerationCall _ _ _ _ _ \<Rightarrow> True
      | CustomToolCall _ _ _ _ _ _ _ \<Rightarrow> True
      | LocalShellCall _ _ _ _ _ \<Rightarrow> True
      | Compaction _ _ _ \<Rightarrow> True
      | ContextCompaction _ _ _ \<Rightarrow> True
      | _ \<Rightarrow> False)"

definition truncate_function_output_payload ::
    "function_call_output_payload \<Rightarrow> truncation_policy \<Rightarrow> function_call_output_payload option" where
  "truncate_function_output_payload output p =
     map_option (\<lambda>b. \<lparr> body = b, success = success output \<rparr>)
       (case body output of
          FcoText content \<Rightarrow> map_option FcoText (truncate_text content p)
        | FcoContentItems items \<Rightarrow>
            map_option FcoContentItems (truncate_function_output_items_with_policy items p))"

definition process_item :: "truncation_policy \<Rightarrow> 'o response_item \<Rightarrow> 'o response_item option" where
  "process_item p item =
     (let scaled = scale_policy p in
      case item of
        FunctionCallOutput iid call_id output m \<Rightarrow>
          map_option (\<lambda>out. FunctionCallOutput iid call_id out m)
            (truncate_function_output_payload output scaled)
      | CustomToolCallOutput iid call_id name output m \<Rightarrow>
          map_option (\<lambda>out. CustomToolCallOutput iid call_id name out m)
            (truncate_function_output_payload output scaled)
      | _ \<Rightarrow> Some item)"

section \<open>Estimates\<close>

definition estimate_reasoning_length :: "nat \<Rightarrow> nat" where
  "estimate_reasoning_length encoded_len = sat_mul encoded_len 3 div 4 - 650"

definition estimate_encrypted_function_output_length :: "nat \<Rightarrow> nat" where
  "estimate_encrypted_function_output_length encoded_len = (sat_mul encoded_len 9 + 15) div 16"

definition RESIZED_IMAGE_BYTES_ESTIMATE :: int where
  "RESIZED_IMAGE_BYTES_ESTIMATE = 7373"

definition ORIGINAL_IMAGE_PATCH_SIZE :: int where
  "ORIGINAL_IMAGE_PATCH_SIZE = 32"

definition ORIGINAL_IMAGE_MAX_PATCHES :: nat where
  "ORIGINAL_IMAGE_MAX_PATCHES = 10000"

definition parse_base64_image_data_url :: "str \<Rightarrow> str option" where
  "parse_base64_image_data_url url =
     (if \<not> starts_with_ignore_case url (lit ''data:'') then None
      else
        (case split_once 44 url of
           None \<Rightarrow> None
         | Some (metadata, payload) \<Rightarrow>
             (let parts = split_char 59 (drop 5 metadata);
                  mime_type = hd parts;
                  has_base64_marker = list_ex (\<lambda>part. eq_ignore_ascii_case part (lit ''base64'')) (tl parts) in
              if \<not> starts_with_ignore_case mime_type (lit ''image/'') then None
              else if \<not> has_base64_marker then None
              else Some payload)))"

definition estimate_original_image_bytes :: "(str \<Rightarrow> (nat \<times> nat) option) \<Rightarrow> str \<Rightarrow> int option" where
  "estimate_original_image_bytes image_size image_url =
     (case parse_base64_image_data_url image_url of
        None \<Rightarrow> None
      | Some payload \<Rightarrow>
          (case image_size payload of
             None \<Rightarrow> None
           | Some (width, height) \<Rightarrow>
               (let patch_size = ORIGINAL_IMAGE_PATCH_SIZE;
                    patches_wide = i64_sat_add (int width) (patch_size - 1) div patch_size;
                    patches_high = i64_sat_add (int height) (patch_size - 1) div patch_size;
                    patch_count = min (nat (i64_clamp (patches_wide * patches_high)))
                                      ORIGINAL_IMAGE_MAX_PATCHES
                in Some (i64_of_usize (approx_bytes_for_tokens patch_count)))))"

definition image_adjustment ::
    "(str \<Rightarrow> (nat \<times> nat) option) \<Rightarrow> (str \<times> image_detail option) list \<Rightarrow> int \<times> int" where
  "image_adjustment image_size images =
     fold (\<lambda>(image_url, detail) (payload_bytes, replacement_bytes).
       case parse_base64_image_data_url image_url of
         None \<Rightarrow> (payload_bytes, replacement_bytes)
       | Some payload \<Rightarrow>
           (i64_sat_add payload_bytes (i64_of_usize (str_len payload)),
            i64_sat_add replacement_bytes
              (if detail = Some Original
               then (case estimate_original_image_bytes image_size image_url of
                       Some n \<Rightarrow> n | None \<Rightarrow> RESIZED_IMAGE_BYTES_ESTIMATE)
               else RESIZED_IMAGE_BYTES_ESTIMATE))) images (0, 0)"

definition content_images :: "content_item list \<Rightarrow> (str \<times> image_detail option) list" where
  "content_images content =
     List.map_filter (\<lambda>c. case c of InputImage u d \<Rightarrow> Some (u, d) | _ \<Rightarrow> None) content"

definition output_images :: "function_call_output_payload \<Rightarrow> (str \<times> image_detail option) list" where
  "output_images output =
     (case body output of
        FcoContentItems items \<Rightarrow>
          List.map_filter (\<lambda>c. case c of FcoInputImage u d \<Rightarrow> Some (u, d) | _ \<Rightarrow> None) items
      | FcoText _ \<Rightarrow> [])"

definition image_data_url_estimate_adjustment ::
    "(str \<Rightarrow> (nat \<times> nat) option) \<Rightarrow> 'o response_item \<Rightarrow> int \<times> int" where
  "image_data_url_estimate_adjustment image_size item =
     image_adjustment image_size
       (case item of
          Message _ _ content _ _ \<Rightarrow> content_images content
        | FunctionCallOutput _ _ output _ \<Rightarrow> output_images output
        | CustomToolCallOutput _ _ _ output _ \<Rightarrow> output_images output
        | _ \<Rightarrow> [])"

definition encrypted_function_output_estimate_adjustment :: "'o response_item \<Rightarrow> int \<times> int" where
  "encrypted_function_output_estimate_adjustment item =
     (case item of
        FunctionCallOutput _ _ output _ \<Rightarrow>
          (case body output of
             FcoContentItems items \<Rightarrow>
               fold (\<lambda>c (payload_bytes, replacement_bytes).
                 case c of
                   FcoEncryptedContent e \<Rightarrow>
                     (i64_sat_add payload_bytes (i64_of_usize (str_len e)),
                      i64_sat_add replacement_bytes
                        (i64_of_usize (estimate_encrypted_function_output_length (str_len e))))
                 | _ \<Rightarrow> (payload_bytes, replacement_bytes)) items (0, 0)
           | FcoText _ \<Rightarrow> (0, 0))
      | _ \<Rightarrow> (0, 0))"

definition estimate_response_item_model_visible_bytes ::
    "('o response_item \<Rightarrow> nat option) \<Rightarrow> (str \<Rightarrow> (nat \<times> nat) option) \<Rightarrow> 'o response_item \<Rightarrow> int" where
  "estimate_response_item_model_visible_bytes json_len image_size item =
     (let plain =
        (let raw = (case json_len item of Some n \<Rightarrow> i64_of_usize n | None \<Rightarrow> 0);
             (image_payload, image_replacement) = image_data_url_estimate_adjustment image_size item;
             (encrypted_payload, encrypted_replacement) =
               encrypted_function_output_estimate_adjustment item;
             raw = i64_sat_add (i64_sat_sub raw image_payload) image_replacement
         in i64_sat_add (i64_sat_sub raw encrypted_payload) encrypted_replacement);
          encoded = (\<lambda>c. i64_of_usize (estimate_reasoning_length (str_len c)))
      in case item of
           Reasoning _ _ _ (Some content) _ \<Rightarrow> encoded content
         | Compaction _ content _ \<Rightarrow> encoded content
         | ContextCompaction _ (Some content) _ \<Rightarrow> encoded content
         | _ \<Rightarrow> plain)"

definition estimate_item_token_count ::
    "('o response_item \<Rightarrow> nat option) \<Rightarrow> (str \<Rightarrow> (nat \<times> nat) option) \<Rightarrow> 'o response_item \<Rightarrow> int" where
  "estimate_item_token_count json_len image_size item =
     approx_tokens_from_byte_count_i64
       (estimate_response_item_model_visible_bytes json_len image_size item)"

section \<open>The manager\<close>

record ('o, 'c, 'w) context_manager =
  items :: "'o response_item list"
  history_version :: nat
  token_info :: "token_usage_info option"
  reference_context_item :: "'c option"
  world_state_baseline :: "'w option"

definition new_manager :: "('o, 'c, 'w) context_manager" where
  "new_manager = \<lparr> items = [], history_version = 0, token_info = None,
     reference_context_item = None, world_state_baseline = None \<rparr>"

definition set_token_info ::
    "token_usage_info option \<Rightarrow> ('o, 'c, 'w) context_manager \<Rightarrow> ('o, 'c, 'w) context_manager" where
  "set_token_info info cm = cm\<lparr> token_info := info \<rparr>"

definition set_reference_context_item ::
    "'c option \<Rightarrow> ('o, 'c, 'w) context_manager \<Rightarrow> ('o, 'c, 'w) context_manager" where
  "set_reference_context_item item cm = cm\<lparr> reference_context_item := item \<rparr>"

definition set_world_state_baseline ::
    "'w \<Rightarrow> ('o, 'c, 'w) context_manager \<Rightarrow> ('o, 'c, 'w) context_manager" where
  "set_world_state_baseline snapshot cm = cm\<lparr> world_state_baseline := Some snapshot \<rparr>"

definition set_token_usage_full ::
    "bool \<Rightarrow> int \<Rightarrow> ('o, 'c, 'w) context_manager \<Rightarrow> ('o, 'c, 'w) context_manager option" where
  "set_token_usage_full debug context_window cm =
     map_option (\<lambda>info. cm\<lparr> token_info := Some info \<rparr>)
       (case token_info cm of
          Some info \<Rightarrow> fill_to_context_window debug info context_window
        | None \<Rightarrow> full_context_window debug context_window)"

definition update_token_info ::
    "bool \<Rightarrow> token_usage \<Rightarrow> int option \<Rightarrow> ('o, 'c, 'w) context_manager \<Rightarrow>
     ('o, 'c, 'w) context_manager option" where
  "update_token_info debug usage window cm =
     map_option (\<lambda>info. cm\<lparr> token_info := info \<rparr>)
       (new_or_append debug (token_info cm) (Some usage) window)"

fun record_items ::
    "truncation_policy \<Rightarrow> 'o response_item list \<Rightarrow> ('o, 'c, 'w) context_manager \<Rightarrow>
     ('o, 'c, 'w) context_manager option" where
  "record_items p [] cm = Some cm"
| "record_items p (item # rest) cm =
     (if \<not> is_api_message item then record_items p rest cm
      else Option.bind (process_item p item) (\<lambda>processed.
             record_items p rest (cm\<lparr> items := items cm @ [processed] \<rparr>)))"

definition normalize_history ::
    "bool \<Rightarrow> (str \<Rightarrow> str) \<Rightarrow> input_modality list \<Rightarrow> ('o, 'c, 'w) context_manager \<Rightarrow>
     ('o, 'c, 'w) context_manager option" where
  "normalize_history debug uuid input_modalities cm =
     map_option (\<lambda>is. cm\<lparr> items := is \<rparr>) (normalize_items debug uuid input_modalities (items cm))"

definition for_prompt ::
    "bool \<Rightarrow> (str \<Rightarrow> str) \<Rightarrow> input_modality list \<Rightarrow> ('o, 'c, 'w) context_manager \<Rightarrow>
     'o response_item list option" where
  "for_prompt debug uuid input_modalities cm =
     map_option items (normalize_history debug uuid input_modalities cm)"


definition replace_items ::
    "'o response_item list \<Rightarrow> ('o, 'c, 'w) context_manager \<Rightarrow> ('o, 'c, 'w) context_manager" where
  "replace_items is cm =
     cm\<lparr> items := is, history_version := sat_add (history_version cm) 1,
         world_state_baseline := None \<rparr>"

definition is_function_output :: "'o response_item \<Rightarrow> bool" where
  "is_function_output item = (case item of FunctionCallOutput _ _ _ _ \<Rightarrow> True | _ \<Rightarrow> False)"

definition placeholder_image ::
    "str \<Rightarrow> function_call_output_content_item \<Rightarrow> function_call_output_content_item" where
  "placeholder_image placeholder c =
     (case c of FcoInputImage _ _ \<Rightarrow> FcoInputText placeholder | _ \<Rightarrow> c)"

definition is_output_image :: "function_call_output_content_item \<Rightarrow> bool" where
  "is_output_image c = (case c of FcoInputImage _ _ \<Rightarrow> True | _ \<Rightarrow> False)"

definition replace_last_turn_images ::
    "('o response_item \<Rightarrow> bool) \<Rightarrow> str \<Rightarrow> ('o, 'c, 'w) context_manager \<Rightarrow>
     bool \<times> ('o, 'c, 'w) context_manager" where
  "replace_last_turn_images boundary placeholder cm =
     (case rposition (\<lambda>i. is_function_output i \<or> boundary i) (items cm) of
        None \<Rightarrow> (False, cm)
      | Some index \<Rightarrow>
          (case items cm ! index of
             FunctionCallOutput iid call_id output m \<Rightarrow>
               (case body output of
                  FcoText _ \<Rightarrow> (False, cm)
                | FcoContentItems content \<Rightarrow>
                    if list_ex is_output_image content
                    then (True,
                          cm\<lparr> items := (items cm)[index := FunctionCallOutput iid call_id
                                (output\<lparr> body := FcoContentItems
                                   (map (placeholder_image placeholder) content) \<rparr>) m],
                              history_version := sat_add (history_version cm) 1 \<rparr>)
                    else (False, cm))
           | _ \<Rightarrow> (False, cm)))"

text \<open>The walk back from the cut; the second result is the reference context.\<close>

fun trim_pre_turn_context_updates ::
    "(str \<Rightarrow> bool) \<Rightarrow> 'o response_item list \<Rightarrow> nat \<Rightarrow> nat \<Rightarrow> 'c option \<Rightarrow> nat \<times> 'c option" where
  "trim_pre_turn_context_updates hook snapshot first_idx 0 ctx = (0, ctx)"
| "trim_pre_turn_context_updates hook snapshot first_idx (Suc n) ctx =
     (if first_idx < Suc n then
        (case snapshot ! n of
           Message _ role content _ _ \<Rightarrow>
             if role = lit ''developer'' \<and> is_contextual_dev_message_content content
             then trim_pre_turn_context_updates hook snapshot first_idx n
                    (if has_non_contextual_dev_message_content content then None else ctx)
             else if role = lit ''user'' \<and> is_contextual_user_message_content hook content
             then trim_pre_turn_context_updates hook snapshot first_idx n ctx
             else (Suc n, ctx)
         | _ \<Rightarrow> (Suc n, ctx))
      else (Suc n, ctx))"

definition drop_last_n_user_turns ::
    "(str \<Rightarrow> bool) \<Rightarrow> (str \<Rightarrow> bool) \<Rightarrow> nat \<Rightarrow> ('o, 'c, 'w) context_manager \<Rightarrow>
     ('o, 'c, 'w) context_manager" where
  "drop_last_n_user_turns hook agent_json num_turns cm =
     (if num_turns = 0 then cm
      else
        (let snapshot = items cm;
             user_positions =
               user_message_positions (is_user_turn_boundary hook agent_json) 0 snapshot in
         case user_positions of
           [] \<Rightarrow> replace_items snapshot cm
         | first_idx # _ \<Rightarrow>
             (let cut_idx =
                (if length user_positions \<le> num_turns then first_idx
                 else user_positions ! (length user_positions - num_turns));
                  (cut_idx, ctx) =
                    trim_pre_turn_context_updates hook snapshot first_idx cut_idx
                      (reference_context_item cm)
              in replace_items (take cut_idx snapshot) (cm\<lparr> reference_context_item := ctx \<rparr>))))"

definition sum_tokens :: "('o response_item \<Rightarrow> int) \<Rightarrow> 'o response_item list \<Rightarrow> int" where
  "sum_tokens est is = fold (\<lambda>item total. i64_sat_add total (est item)) is 0"

definition estimate_token_count_with_base_instructions ::
    "('o response_item \<Rightarrow> int) \<Rightarrow> str \<Rightarrow> ('o, 'c, 'w) context_manager \<Rightarrow> int option" where
  "estimate_token_count_with_base_instructions est base_instructions cm =
     Some (i64_sat_add (i64_of_usize (approx_token_count base_instructions))
             (sum_tokens est (items cm)))"

definition is_encrypted_reasoning :: "'o response_item \<Rightarrow> bool" where
  "is_encrypted_reasoning item = (case item of Reasoning _ _ _ (Some _) _ \<Rightarrow> True | _ \<Rightarrow> False)"

definition get_non_last_reasoning_items_tokens ::
    "('o response_item \<Rightarrow> bool) \<Rightarrow> ('o response_item \<Rightarrow> int) \<Rightarrow> ('o, 'c, 'w) context_manager \<Rightarrow> int" where
  "get_non_last_reasoning_items_tokens boundary est cm =
     (case rposition boundary (items cm) of
        None \<Rightarrow> 0
      | Some last_user_index \<Rightarrow>
          sum_tokens est (filter is_encrypted_reasoning (take last_user_index (items cm))))"

definition items_after_last_model_generated_item ::
    "('o, 'c, 'w) context_manager \<Rightarrow> 'o response_item list" where
  "items_after_last_model_generated_item cm =
     (case rposition is_model_generated_item (items cm) of
        None \<Rightarrow> []
      | Some index \<Rightarrow> drop (Suc index) (items cm))"

definition estimated_tokens_after_last_model_generated_item ::
    "('o response_item \<Rightarrow> int) \<Rightarrow> ('o, 'c, 'w) context_manager \<Rightarrow> int" where
  "estimated_tokens_after_last_model_generated_item est cm =
     sum_tokens est (items_after_last_model_generated_item cm)"

definition get_total_token_usage ::
    "('o response_item \<Rightarrow> bool) \<Rightarrow> ('o response_item \<Rightarrow> int) \<Rightarrow> bool \<Rightarrow> ('o, 'c, 'w) context_manager \<Rightarrow>
     int" where
  "get_total_token_usage boundary est server_reasoning_included cm =
     (let last_tokens =
        (case token_info cm of Some info \<Rightarrow> total_tokens (last_token_usage info) | None \<Rightarrow> 0);
          after = estimated_tokens_after_last_model_generated_item est cm in
      if server_reasoning_included then i64_sat_add last_tokens after
      else i64_sat_add
             (i64_sat_add last_tokens (get_non_last_reasoning_items_tokens boundary est cm)) after)"

section \<open>The prompt\<close>

definition orphan :: "'o response_item list \<Rightarrow> 'o response_item \<Rightarrow> bool" where
  "orphan is i \<longleftrightarrow>
     (case output_key i of None \<Rightarrow> False | Some k \<Rightarrow> \<not> server_output i \<and> k \<notin> call_keys is)"

definition unanswered :: "'o response_item list \<Rightarrow> 'o response_item \<Rightarrow> bool" where
  "unanswered is i \<longleftrightarrow> (case call_key i of None \<Rightarrow> False | Some k \<Rightarrow> k \<notin> output_keys is)"

fun unanswered_reported :: "'o response_item \<Rightarrow> bool" where
  "unanswered_reported (CustomToolCall _ _ _ _ _ _ _) = True"
| "unanswered_reported (LocalShellCall _ _ _ _ _) = True"
| "unanswered_reported _ = False"

lemma has_match_orphan: "has_match is i \<longleftrightarrow> \<not> orphan is i"
  by (simp add: has_match_iff orphan_def split: option.split)

lemma missing_output_SomeD:
  assumes "missing_output uuid is i = Some (out, e)"
  shows "\<exists>k. call_key i = Some k \<and> k \<notin> output_keys is \<and> output_key out = Some k"
proof -
  obtain k where k: "call_key i = Some k" "k \<notin> output_keys is" "missing_output uuid [] i = Some (out, e)"
    using assms by (subst (asm) missing_output_cases) (auto split: option.splits if_splits)
  then show ?thesis using missing_output_key [OF k(1), of uuid] by auto
qed

lemma orphan_with_outputs:
  "orphan (with_outputs (missing_output uuid is) is) i = orphan is i"
  using with_outputs_keys [where items = "is" and uuid = uuid]
  by (simp add: orphan_def split: option.split)

lemma missing_output_not_orphan:
  assumes "missing_output uuid is i = Some (out, e)" "i \<in> set is"
  shows "\<not> orphan is out"
  using missing_output_SomeD [OF assms(1)] assms(2) by (auto simp: orphan_def call_keys_def)

lemma call_not_orphan: "missing_output uuid is i = Some (out, e) \<Longrightarrow> \<not> orphan is i"
  using missing_output_SomeD [of uuid "is" i out e] call_key_output_key [of i]
  by (auto simp: orphan_def)

lemma filter_with_outputs:
  assumes "\<And>i out e. i \<in> set is \<Longrightarrow> missing i = Some (out, e) \<Longrightarrow> P i \<and> P out"
  shows "filter P (with_outputs missing is) = with_outputs missing (filter P is)"
  using assms
proof (induction "is")
  case (Cons i "is")
  have "filter P (with_outputs missing is) = with_outputs missing (filter P is)"
    using Cons.prems by (intro Cons.IH) auto
  then show ?case
    using Cons.prems [of i] by (cases "missing i") (auto simp: with_outputs_def)
qed (simp add: with_outputs_def)

lemma normalized_eq:
  "normalized uuid mods is =
   strip_images_when_unsupported mods
     (with_outputs (missing_output uuid is) (filter (\<lambda>i. \<not> orphan is i) is))"
proof -
  have "has_match (with_outputs (missing_output uuid is) is) = (\<lambda>i. \<not> orphan is i)"
    by (simp add: fun_eq_iff has_match_orphan orphan_with_outputs)
  then show ?thesis
    by (simp add: normalized_def Let_def filter_with_outputs call_not_orphan missing_output_not_orphan)
qed

lemma for_prompt_release: "for_prompt False uuid mods cm = Some (normalized uuid mods (items cm))"
  by (simp add: for_prompt_def normalize_history_def normalize_items_release)

lemma filter_calls_with_outputs:
  "filter (\<lambda>i. output_key i = None) (with_outputs (missing_output uuid is) js) =
   filter (\<lambda>i. output_key i = None) js"
proof (induction js)
  case (Cons j js)
  then show ?case
    using missing_output_SomeD [of uuid "is" j]
    by (cases "missing_output uuid is j") (auto simp: with_outputs_def)
qed (simp add: with_outputs_def)

lemma normalized_keeps_non_outputs:
  "filter (\<lambda>i. output_key i = None) (normalized uuid mods is) =
   strip_images_when_unsupported mods (filter (\<lambda>i. output_key i = None) is)"
proof -
  have "\<not> orphan is i" if "output_key i = None" for i using that by (simp add: orphan_def)
  then have "filter (\<lambda>i. output_key i = None) (filter (\<lambda>i. \<not> orphan is i) is) =
      filter (\<lambda>i. output_key i = None) is"
    by (auto intro: filter_cong)
  then show ?thesis
    by (simp add: normalized_eq strip_images_when_unsupported_def filter_map o_def
        filter_calls_with_outputs)
qed

text \<open>
  C3. A release build always produces a prompt.  In it every call has an output and every output
  of a client call its call; no image is left when the model takes none; the items that are not
  outputs are all there in their order, and preparing the prompt again, in either build, changes
  nothing.
\<close>

theorem for_prompt_invariants:
  "\<exists>out. for_prompt False uuid mods cm = Some out \<and> paired out \<and>
     (ImageModality \<in> set mods \<or> \<not> list_ex has_image out) \<and>
     filter (\<lambda>i. output_key i = None) out =
       strip_images_when_unsupported mods (filter (\<lambda>i. output_key i = None) (items cm)) \<and>
     for_prompt debug uuid mods (cm\<lparr> items := out \<rparr>) = Some out"
proof (intro exI conjI)
  let ?out = "normalized uuid mods (items cm)"
  show "for_prompt False uuid mods cm = Some ?out" by (rule for_prompt_release)
  show "paired ?out" by (rule paired_normalized)
  show "ImageModality \<in> set mods \<or> \<not> list_ex has_image ?out"
    by (auto simp: normalized_def strip_images_when_unsupported_def Let_def list_ex_iff)
  show "for_prompt debug uuid mods (cm\<lparr> items := ?out \<rparr>) = Some ?out"
    by (simp add: for_prompt_def normalize_history_def normalize_paired [OF paired_normalized])
       (simp add: normalized_def Let_def)
qed (rule normalized_keeps_non_outputs)

theorem for_prompt_invariants_witness:
  "\<exists>out. for_prompt False (\<lambda>s. s) []
       (new_manager\<lparr> items := [FunctionCall None [] None [] (lit ''c'') None] \<rparr> ::
         (nat, nat, nat) context_manager) = Some out \<and> paired out \<and> \<not> list_ex has_image out"
  using for_prompt_invariants [of "\<lambda>s. s" "[]"
      "new_manager\<lparr> items := [FunctionCall None [] None [] (lit ''c'') None] \<rparr>" False]
  by auto

text \<open>
  C20. The insertion by indices and the two passes over the history come to one pass: an output
  without its call is dropped, a call without an output is followed directly by the synthetic
  one, and everything else is kept.
\<close>

theorem for_prompt_one_pass:
  "for_prompt False uuid mods cm =
     Some (strip_images_when_unsupported mods
       (concat (map (\<lambda>i. if orphan (items cm) i then []
                         else if unanswered (items cm) i
                         then [i, fst (the (missing_output uuid (items cm) i))]
                         else [i]) (items cm))))"
proof -
  let ?is = "items cm"
  have "(case missing_output uuid ?is i of None \<Rightarrow> [] | Some (out, _) \<Rightarrow> [out]) =
      (if unanswered ?is i then [fst (the (missing_output uuid ?is i))] else [])" for i
    using missing_output_key [of i _ uuid]
    by (subst (1) missing_output_cases, subst missing_output_cases)
       (auto simp: unanswered_def split: option.splits prod.splits)
  then have "with_outputs (missing_output uuid ?is) (filter (\<lambda>i. \<not> orphan ?is i) js) =
      concat (map (\<lambda>i. if orphan ?is i then [] else if unanswered ?is i
        then [i, fst (the (missing_output uuid ?is i))] else [i]) js)" for js
    by (induction js) (auto simp: with_outputs_def)
  then show ?thesis by (simp add: for_prompt_release normalized_eq)
qed

lemma missing_output_reported:
  "(\<exists>out. missing_output uuid is i = Some (out, True)) \<longleftrightarrow> unanswered is i \<and> unanswered_reported i"
  by (subst missing_output_cases, cases i rule: call_key.cases) (auto simp: unanswered_def)

text \<open>
  A debug build panics exactly when the history has an output without its call, or a custom
  or local shell call without an output; otherwise it prepares what a release build does.
\<close>

theorem for_prompt_debug_build:
  "for_prompt True uuid mods cm =
     (if list_ex (\<lambda>i. orphan (items cm) i \<or> unanswered (items cm) i \<and> unanswered_reported i) (items cm)
      then None else for_prompt False uuid mods cm)"
proof -
  let ?is = "items cm" and ?all = "with_outputs (missing_output uuid (items cm)) (items cm)"
  have "list_ex (\<lambda>i. \<not> has_match ?all i) ?all \<longleftrightarrow> list_ex (orphan ?is) ?is"
    using missing_output_not_orphan [of uuid ?is]
    by (auto simp: list_ex_iff set_with_outputs has_match_orphan orphan_with_outputs)
  then show ?thesis
    by (auto simp: for_prompt_def normalize_history_def normalize_items_def ensure_call_outputs_eq
        remove_orphan_outputs_def missing_output_reported list_ex_iff)
qed





section \<open>Rollback\<close>

definition trimmable :: "(str \<Rightarrow> bool) \<Rightarrow> 'o response_item \<Rightarrow> bool" where
  "trimmable hook i =
     (case i of
        Message _ role content _ _ \<Rightarrow>
          role = lit ''developer'' \<and> is_contextual_dev_message_content content \<or>
          role = lit ''user'' \<and> is_contextual_user_message_content hook content
      | _ \<Rightarrow> False)"

definition mixed_bundle :: "'o response_item \<Rightarrow> bool" where
  "mixed_bundle i =
     (case i of
        Message _ role content _ _ \<Rightarrow>
          role = lit ''developer'' \<and> is_contextual_dev_message_content content \<and>
          has_non_contextual_dev_message_content content
      | _ \<Rightarrow> False)"

lemma trimmable_not_boundary: "trimmable hook i \<Longrightarrow> \<not> is_user_turn_boundary hook agent_json i"
  by (auto simp: trimmable_def is_user_turn_boundary_def lit_def split: response_item.splits)

lemma trim_step:
  "trim_pre_turn_context_updates hook snapshot first_idx (Suc n) ctx =
    (if first_idx \<le> n \<and> trimmable hook (snapshot ! n)
     then trim_pre_turn_context_updates hook snapshot first_idx n
            (if mixed_bundle (snapshot ! n) then None else ctx)
     else (Suc n, ctx))"
  by (cases "snapshot ! n") (auto simp: trimmable_def mixed_bundle_def lit_def less_Suc_eq_le)

declare trim_pre_turn_context_updates.simps(2) [simp del]

lemma trim_spec:
  "n0 \<le> length snapshot \<Longrightarrow> first_idx \<le> n0 \<Longrightarrow>
   \<exists>c. trim_pre_turn_context_updates hook snapshot first_idx n0 ctx =
         (c, if list_ex mixed_bundle (drop c (take n0 snapshot)) then None else ctx) \<and>
       first_idx \<le> c \<and> c \<le> n0 \<and> list_all (trimmable hook) (drop c (take n0 snapshot)) \<and>
       (c = first_idx \<or> \<not> trimmable hook (snapshot ! (c - 1)))"
proof (induction n0 arbitrary: ctx)
  case (Suc n)
  show ?case
  proof (cases "first_idx \<le> n \<and> trimmable hook (snapshot ! n)")
    case True
    let ?ctx = "if mixed_bundle (snapshot ! n) then None else ctx"
    obtain c where c: "trim_pre_turn_context_updates hook snapshot first_idx n ?ctx =
         (c, if list_ex mixed_bundle (drop c (take n snapshot)) then None else ?ctx)"
       "first_idx \<le> c" "c \<le> n" "list_all (trimmable hook) (drop c (take n snapshot))"
       "c = first_idx \<or> \<not> trimmable hook (snapshot ! (c - 1))"
      using Suc.IH [of ?ctx] Suc.prems True by auto
    have "drop c (take (Suc n) snapshot) = drop c (take n snapshot) @ [snapshot ! n]"
      using Suc.prems c(3) by (simp add: take_Suc_conv_app_nth)
    then show ?thesis using True c by (intro exI [of _ c]) (simp add: trim_step)
  next
    case False
    then show ?thesis using Suc.prems
      by (intro exI [of _ "Suc n"]) (auto simp: trim_step not_le)
  qed
qed simp

lemma user_message_positions_nth:
  assumes "j < length (user_message_positions b idx is)"
  defines "pos \<equiv> user_message_positions b idx is ! j"
  shows "idx \<le> pos \<and> pos < idx + length is \<and> b (is ! (pos - idx)) \<and>
    length (filter b (take (pos - idx) is)) = j"
  using assms(1) unfolding pos_def
proof (induction "is" arbitrary: idx j)
  case (Cons i "is")
  show ?case
  proof (cases "b i \<and> j = 0")
    case False
    define j' where "j' = (if b i then j - 1 else j)"
    have eq: "user_message_positions b idx (i # is) ! j = user_message_positions b (Suc idx) is ! j'"
      and j': "j' < length (user_message_positions b (Suc idx) is)"
      using False Cons.prems by (auto simp: j'_def nth_Cons' split: if_splits)
    define p where "p = user_message_positions b (Suc idx) is ! j'"
    have p: "Suc idx \<le> p" "p < Suc idx + length is" "b (is ! (p - Suc idx))"
       "length (filter b (take (p - Suc idx) is)) = j'"
      using Cons.IH [OF j'] by (auto simp: p_def)
    have "p - idx = Suc (p - Suc idx)" using p(1) by simp
    then show ?thesis using p False unfolding eq p_def [symmetric] by (auto simp: j'_def)
  qed simp
qed simp

lemma length_user_message_positions [simp]:
  "length (user_message_positions b idx is) = length (filter b is)"
  by (induction "is" arbitrary: idx) auto

lemma takeWhile_position:
  assumes "f < length xs" "b (xs ! f)" "filter b (take f xs) = []"
  shows "takeWhile (\<lambda>x. \<not> b x) xs = take f xs"
proof -
  have "xs = take f xs @ xs ! f # drop (Suc f) xs" using assms(1) by (rule id_take_nth_drop)
  moreover have "\<not> b x" if "x \<in> set (take f xs)" for x
    using that assms(3) by (auto simp: filter_empty_conv)
  ultimately show ?thesis using assms(2) takeWhile_append2 [of "take f xs" "\<lambda>x. \<not> b x"]
    by (metis takeWhile_tail append_Nil2 takeWhile.simps(2))
qed

text \<open>The cut the rollback starts from, in front of the turn boundary \<open>n\<close> from the end.\<close>

lemma rollback_cut:
  fixes "is" :: "'o response_item list"
  assumes "0 < n" "list_ex b is"
  defines "ps \<equiv> user_message_positions b 0 is"
  defines "c \<equiv> ps ! (length (filter b is) - n)" and "f \<equiv> ps ! 0"
  shows "f \<le> c" "c < length is" "b (is ! c)" "b (is ! f)" "filter b (take f is) = []"
    "length (filter b (drop c is)) = min n (length (filter b is))"
    "c = f \<longleftrightarrow> length (filter b is) \<le> n"
proof -
  let ?t = "length (filter b is)"
  have t: "0 < ?t" using assms(2) by (auto simp: list_ex_iff filter_empty_conv)
  then have f: "f < length is" "b (is ! f)" "length (filter b (take f is)) = 0"
    using user_message_positions_nth [of 0 b 0 "is"] by (auto simp: f_def ps_def)
  have c: "c < length is" "b (is ! c)" "length (filter b (take c is)) = ?t - n"
    using user_message_positions_nth [of "?t - n" b 0 "is"] t assms(1) by (auto simp: c_def ps_def)
  show "filter b (take f is) = []" using f(3) by simp
  show "c < length is" "b (is ! c)" "b (is ! f)" using c f by auto
  have "filter b is = filter b (take c is) @ filter b (drop c is)"
    by (metis append_take_drop_id filter_append)
  then have "length (filter b (drop c is)) = ?t - (?t - n)" using c(3) by (metis add_diff_cancel_left' length_append)
  then show "length (filter b (drop c is)) = min n ?t" by simp
  show "f \<le> c"
  proof (rule ccontr)
    assume "\<not> f \<le> c"
    then have "is ! c \<in> set (take f is)" using c(1) by (auto simp: in_set_conv_nth intro!: exI [of _ c])
    then show False using f(3) c(2) by (auto simp: filter_empty_conv)
  qed
  show "c = f \<longleftrightarrow> ?t \<le> n"
    using c(3) f(3) by (auto simp: c_def f_def)
qed

text \<open>
  C18. A rollback of \<open>n\<close> turns removes the last \<open>n\<close> turn boundaries and what follows them (all of
  them when there are fewer), with the contextual messages directly in front of the cut; what was
  there before the first turn survives, and the reference context is cleared exactly when a mixed
  developer bundle was trimmed.
\<close>

theorem drop_last_n_user_turns_effect:
  fixes cm :: "('o, 'c, 'w) context_manager" and hook agent_json :: "str \<Rightarrow> bool"
  defines "b \<equiv> is_user_turn_boundary hook agent_json :: 'o response_item \<Rightarrow> bool"
  assumes "0 < n" "list_ex b (items cm)"
  shows "\<exists>kept ctxs rest. items cm = kept @ ctxs @ rest \<and>
    rest \<noteq> [] \<and> b (hd rest) \<and> length (filter b rest) = min n (length (filter b (items cm))) \<and>
    list_all (trimmable hook) ctxs \<and>
    (if length (filter b (items cm)) \<le> n then kept = takeWhile (\<lambda>i. \<not> b i) (items cm)
     else kept \<noteq> [] \<and> \<not> trimmable hook (last kept)) \<and>
    drop_last_n_user_turns hook agent_json n cm =
      cm\<lparr> items := kept, history_version := sat_add (history_version cm) 1,
          reference_context_item :=
            (if list_ex mixed_bundle ctxs then None else reference_context_item cm),
          world_state_baseline := None \<rparr>"
proof -
  let ?is = "items cm" and ?t = "length (filter b (items cm))"
  define ps where "ps = user_message_positions b 0 ?is"
  define c0 where "c0 = ps ! (?t - n)"
  define f where "f = ps ! 0"
  note cut = rollback_cut [OF assms(2,3), folded ps_def, folded c0_def f_def]
  obtain c where c: "trim_pre_turn_context_updates hook ?is f c0 (reference_context_item cm) =
        (c, if list_ex mixed_bundle (drop c (take c0 ?is)) then None else reference_context_item cm)"
      "f \<le> c" "c \<le> c0" "list_all (trimmable hook) (drop c (take c0 ?is))"
      "c = f \<or> \<not> trimmable hook (?is ! (c - 1))"
    using trim_spec [of c0 ?is f hook "reference_context_item cm"] cut(1,2) by auto
  have "?t \<noteq> 0" using assms(3) by (auto simp: list_ex_iff filter_empty_conv)
  then have "length ps \<noteq> 0" by (simp add: ps_def)
  then obtain ps' where ps: "ps = f # ps'" by (cases ps) (auto simp: f_def)
  have split: "?is = take c ?is @ drop c (take c0 ?is) @ drop c0 ?is"
    using c(3) by (metis append_assoc append_take_drop_id min.absorb1 take_take)
  have last: "c \<noteq> 0 \<and> \<not> trimmable hook (last (take c ?is))" if less: "n < ?t"
  proof -
    have "c \<noteq> f"
    proof
      assume "c = f"
      then have "?is ! f \<in> set (drop c (take c0 ?is))"
        using cut(1,2,7) less by (auto simp: in_set_conv_nth intro!: exI [of _ 0])
      then show False
        using c(4) cut(4) trimmable_not_boundary by (auto simp: list_all_iff b_def)
    qed
    then have "0 < c" "c \<le> length ?is" using c(2,3) cut(2) by auto
    then have "last (take c ?is) = ?is ! (c - 1)" by (subst last_conv_nth) auto
    then show ?thesis using c(5) \<open>c \<noteq> f\<close> \<open>0 < c\<close> by simp
  qed
  show ?thesis
  proof (rule exI [of _ "take c ?is"], rule exI [of _ "drop c (take c0 ?is)"],
      rule exI [of _ "drop c0 ?is"], intro conjI)
    show "if ?t \<le> n then take c ?is = takeWhile (\<lambda>i. \<not> b i) ?is
       else take c ?is \<noteq> [] \<and> \<not> trimmable hook (last (take c ?is))"
      using last cut c(2,3) takeWhile_position [of f ?is b] by auto
    show "drop_last_n_user_turns hook agent_json n cm =
      cm\<lparr> items := take c ?is, history_version := sat_add (history_version cm) 1,
          reference_context_item := (if list_ex mixed_bundle (drop c (take c0 ?is)) then None
            else reference_context_item cm), world_state_baseline := None \<rparr>"
      using assms(2) c(1) cut(7) ps length_user_message_positions [of b 0 ?is]
      by (auto simp: drop_last_n_user_turns_def Let_def replace_items_def c0_def
          b_def [symmetric] ps_def [symmetric])
  qed (use split cut c in \<open>auto simp: hd_drop_conv_nth\<close>)
qed

theorem drop_last_n_user_turns_effect_witness:
  "items (drop_last_n_user_turns (\<lambda>_. False) (\<lambda>_. False) 1
       (new_manager\<lparr> items := [Other, AgentMessage None [] [] [] None, Other] \<rparr> ::
         (nat, nat, nat) context_manager)) = [Other]"
  using drop_last_n_user_turns_effect [of 1 "\<lambda>_. False" "\<lambda>_. False"
      "new_manager\<lparr> items := [Other, AgentMessage None [] [] [] None, Other] \<rparr> ::
         (nat, nat, nat) context_manager"]
  by (auto simp: is_user_turn_boundary_def)

lemma drop_without_turns:
  "0 < n \<Longrightarrow> \<not> list_ex (is_user_turn_boundary hook agent_json) (items cm) \<Longrightarrow>
   drop_last_n_user_turns hook agent_json n cm = replace_items (items cm) cm"
  using length_user_message_positions [of "is_user_turn_boundary hook agent_json" 0 "items cm"]
  by (auto simp: drop_last_n_user_turns_def Let_def list_ex_iff filter_empty_conv split: list.split
      simp del: length_user_message_positions)


section \<open>Token counts\<close>

lemma estimate_item_token_count_nonneg: "0 \<le> estimate_item_token_count json_len image_size i"
  by (auto simp: estimate_item_token_count_def approx_tokens_from_byte_count_i64_def i64_of_usize_def
      i64_max_def Let_def)

lemma sum_tokens_exact:
  assumes "\<And>i. i \<in> set is \<Longrightarrow> 0 \<le> est i"
  shows "sum_tokens est is = min i64_max (sum_list (map est is))"
proof -
  have "fold (\<lambda>i total. i64_sat_add total (est i)) is t = min i64_max (t + sum_list (map est is))"
    if "0 \<le> t" "t \<le> i64_max" for t
    using that assms
  proof (induction "is" arbitrary: t)
    case (Cons i "is")
    have nonneg: "0 \<le> sum_list (map est is)" using Cons.prems(3) by (intro sum_list_nonneg) auto
    have "0 \<le> est i" using Cons.prems(3) by simp
    then have "i64_sat_add t (est i) = min i64_max (t + est i)"
      using Cons.prems(1) by (auto simp: i64_sat_add_def i64_clamp_def i64_min_def i64_max_def)
    then show ?case using Cons.IH [of "min i64_max (t + est i)"] Cons.prems nonneg
      by (auto simp: min_def i64_max_def)
  qed (auto simp: min_def)
  from this [of 0] show ?thesis by (simp add: sum_tokens_def i64_max_def)
qed

lemma i64_sat_add_min:
  assumes "0 \<le> a" "0 \<le> b"
  shows "i64_sat_add (min i64_max a) (min i64_max b) = min i64_max (a + b)"
  using assms by (auto simp: i64_sat_add_def i64_clamp_def i64_min_def i64_max_def min_def)

lemma rposition_append_Cons:
  "p x \<Longrightarrow> \<not> list_ex p ys \<Longrightarrow> rposition p (xs @ x # ys) = Some (length xs)"
proof (induction xs)
  case Nil
  then have "rposition p ys = None" by (induction ys) auto
  with Nil show ?case by simp
qed simp

lemma sum_estimates:
  fixes json_len :: "'o response_item \<Rightarrow> nat option" and image_size :: "str \<Rightarrow> (nat \<times> nat) option"
  defines "est \<equiv> estimate_item_token_count json_len image_size"
  shows "sum_tokens est is = min i64_max (sum_list (map est is))" "0 \<le> sum_list (map est is)"
  unfolding est_def
  by (rule sum_tokens_exact, rule estimate_item_token_count_nonneg)
     (auto intro!: sum_list_nonneg estimate_item_token_count_nonneg)

text \<open>
  C37. The total reported for the context is the usage of the last response plus the estimates of
  the items added since, and of the encrypted reasoning of the earlier turns where the server did
  not count it; the sum saturates at the largest \<open>i64\<close> and never wraps.
\<close>

theorem get_total_token_usage_exact:
  fixes cm :: "('o, 'c, 'w) context_manager"
    and json_len :: "'o response_item \<Rightarrow> nat option" and image_size :: "str \<Rightarrow> (nat \<times> nat) option"
  defines "est \<equiv> estimate_item_token_count json_len image_size"
  assumes "token_info cm = Some info" "total_tokens (last_token_usage info) = t" "0 \<le> t" "t \<le> i64_max"
    and "items cm = earlier @ turn # rest" "boundary turn" "\<not> list_ex boundary rest"
    and "items cm = answered @ emitted # added" "is_model_generated_item emitted"
      "\<not> list_ex is_model_generated_item added"
  shows "get_total_token_usage boundary est server_reasoning_included cm =
    min i64_max (t + (if server_reasoning_included then 0
       else sum_list (map est (filter is_encrypted_reasoning earlier))) + sum_list (map est added))"
proof -
  let ?r = "sum_list (map est (filter is_encrypted_reasoning earlier))"
  have "rposition boundary (items cm) = Some (length earlier)"
    "rposition is_model_generated_item (items cm) = Some (length answered)"
    using assms(6-11) rposition_append_Cons by metis+
  moreover have "take (length earlier) (items cm) = earlier" using assms(6) by simp
  moreover have "drop (Suc (length answered)) (items cm) = added" using assms(9) by simp
  ultimately have parts: "get_non_last_reasoning_items_tokens boundary est cm = min i64_max ?r"
      "estimated_tokens_after_last_model_generated_item est cm = min i64_max (sum_list (map est added))"
    using sum_estimates(1) [of json_len image_size]
    by (simp_all add: get_non_last_reasoning_items_tokens_def est_def
        estimated_tokens_after_last_model_generated_item_def items_after_last_model_generated_item_def)
  have nonneg: "0 \<le> ?r" "0 \<le> sum_list (map est added)"
    unfolding est_def by (rule sum_estimates(2))+
  have t: "t = min i64_max t" using assms(5) by simp
  show ?thesis
    using assms(2,3) parts i64_sat_add_min [OF assms(4) nonneg(1), folded t]
      i64_sat_add_min [OF assms(4) nonneg(2), folded t] i64_sat_add_min [of "t + ?r", OF _ nonneg(2)]
      nonneg assms(4)
    by (simp add: get_total_token_usage_def)
qed

section \<open>Recording\<close>

definition output_texts :: "'o response_item \<Rightarrow> str list" where
  "output_texts i =
     (let of_payload = (\<lambda>p. case body p of FcoText t \<Rightarrow> [t] | FcoContentItems cs \<Rightarrow> texts cs) in
      case i of
        FunctionCallOutput _ _ output _ \<Rightarrow> of_payload output
      | CustomToolCallOutput _ _ _ output _ \<Rightarrow> of_payload output
      | _ \<Rightarrow> [])"

fun is_tool_output :: "'o response_item \<Rightarrow> bool" where
  "is_tool_output (FunctionCallOutput _ _ _ _) = True"
| "is_tool_output (CustomToolCallOutput _ _ _ _ _) = True"
| "is_tool_output _ = False"

lemma truncate_items_total:
  assumes "\<And>t. t \<in> set (texts cs) \<Longrightarrow> str_len t \<le> usize_max"
  shows "\<exists>out. truncate_function_output_items_with_policy cs p = Some out"
proof -
  obtain out k where "truncate_items_loop p cs (case p of Bytes _ \<Rightarrow> byte_budget p | Tokens _ \<Rightarrow> token_budget p) 0 =
      Some (out, k)"
    using truncate_items_loop_spec [OF assms] by blast
  then show ?thesis by (simp add: truncate_function_output_items_with_policy_def)
qed

lemma truncate_payload_total:
  assumes "\<And>t. t \<in> set (case body output of FcoText t \<Rightarrow> [t] | FcoContentItems cs \<Rightarrow> texts cs) \<Longrightarrow>
    str_len t \<le> usize_max"
  shows "\<exists>out. truncate_function_output_payload output p = Some out"
proof (cases "body output")
  case (FcoText t)
  then show ?thesis using assms truncate_text_total [of t p]
    by (auto simp: truncate_function_output_payload_def)
next
  case (FcoContentItems cs)
  then show ?thesis using assms truncate_items_total [of cs p]
    by (auto simp: truncate_function_output_payload_def)
qed

text \<open>Only tool outputs change when they are recorded, and they keep their call id.\<close>

definition recorded_as :: "truncation_policy \<Rightarrow> 'o response_item \<Rightarrow> 'o response_item \<Rightarrow> bool" where
  "recorded_as p i q \<longleftrightarrow> process_item p i = Some q \<and> output_key q = output_key i \<and>
     (if is_tool_output i then is_tool_output q else q = i)"

lemma process_item_total:
  assumes "\<And>t. t \<in> set (output_texts i) \<Longrightarrow> str_len t \<le> usize_max"
  shows "\<exists>q. recorded_as p i q"
proof (cases "is_tool_output i")
  case True
  then show ?thesis
    using assms truncate_payload_total [of _ "scale_policy p"]
    by (cases i rule: is_tool_output.cases)
       (fastforce simp: recorded_as_def process_item_def output_texts_def)+
next
  case False
  then show ?thesis
    by (cases i rule: is_tool_output.cases) (simp_all add: recorded_as_def process_item_def)
qed

text \<open>
  C38. Recording never panics on texts that fit in memory: it appends the API messages in their
  order, truncates tool outputs only, and keeps the call id of each.
\<close>

theorem record_items_total:
  assumes "\<And>i t. i \<in> set new \<Longrightarrow> t \<in> set (output_texts i) \<Longrightarrow> str_len t \<le> usize_max"
  shows "\<exists>recorded. record_items p new cm = Some (cm\<lparr> items := items cm @ recorded \<rparr>) \<and>
    list_all2 (recorded_as p) (filter is_api_message new) recorded"
  using assms
proof (induction new arbitrary: cm)
  case (Cons i new)
  show ?case
  proof (cases "is_api_message i")
    case True
    obtain q where q: "recorded_as p i q" using process_item_total [of i p] Cons.prems by auto
    let ?cm = "cm\<lparr> items := items cm @ [q] \<rparr>"
    obtain recorded where "record_items p new ?cm = Some (?cm\<lparr> items := items ?cm @ recorded \<rparr>)"
        "list_all2 (recorded_as p) (filter is_api_message new) recorded"
      using Cons.IH [of ?cm] Cons.prems by auto
    moreover have "process_item p i = Some q" using q by (simp add: recorded_as_def)
    ultimately show ?thesis using q True by (intro exI [of _ "q # recorded"]) simp
  next
    case False
    then show ?thesis using Cons.IH [of cm] Cons.prems by auto
  qed
qed (auto intro: exI [of _ "[]"])

theorem record_items_total_witness:
  "\<exists>recorded. record_items (Bytes 4)
       [Other, FunctionCallOutput None (lit ''c'') (payload_from_text (lit ''done'')) (None :: nat option)]
       (new_manager :: (nat, nat, nat) context_manager) =
       Some (new_manager\<lparr> items := recorded \<rparr>) \<and> length recorded = 1"
proof -
  let ?new = "[Other, FunctionCallOutput None (lit ''c'') (payload_from_text (lit ''done'')) (None :: nat option)]"
  let ?cm = "new_manager :: (nat, nat, nat) context_manager"
  have "\<exists>recorded. record_items (Bytes 4) ?new ?cm = Some (?cm\<lparr> items := items ?cm @ recorded \<rparr>) \<and>
      list_all2 (recorded_as (Bytes 4)) (filter is_api_message ?new) recorded"
    by (rule record_items_total)
       (auto simp: output_texts_def payload_from_text_def lit_def len_utf8_def usize_max_def)
  moreover have "items ?cm = []" "length (filter is_api_message ?new) = 1"
    by (simp_all add: new_manager_def is_api_message_def)
  ultimately show ?thesis using list_all2_lengthD by (metis append_Nil)
qed

theorem get_total_token_usage_exact_witness:
  "get_total_token_usage (is_user_turn_boundary (\<lambda>_. False) (\<lambda>_. False))
     (estimate_item_token_count (\<lambda>_. Some 8) (\<lambda>_. None)) False
     \<lparr> items = [AgentMessage None [] [] [] None, LocalShellCall None None 0 0 None,
        FunctionCallOutput None [] aborted (None :: nat option)],
       history_version = 0,
       token_info = Some \<lparr> total_token_usage = default_usage,
         last_token_usage = default_usage\<lparr> total_tokens := 7 \<rparr>, model_context_window = None \<rparr>,
       reference_context_item = (None :: nat option), world_state_baseline = (None :: nat option) \<rparr> = 9"
  (is "get_total_token_usage ?b ?est False ?cm = 9")
proof -
  let ?call = "LocalShellCall None None 0 0 None :: nat response_item"
    and ?out = "FunctionCallOutput None [] aborted None :: nat response_item"
  have "image_data_url_estimate_adjustment (\<lambda>_. None) ?out = (0, 0)"
      "encrypted_function_output_estimate_adjustment ?out = (0, 0)"
    by (simp_all add: image_data_url_estimate_adjustment_def image_adjustment_def output_images_def
        encrypted_function_output_estimate_adjustment_def aborted_def payload_from_text_def)
  moreover have "i64_of_usize 8 = 8" "i64_sat_add 8 0 = 8" "i64_sat_sub 8 0 = 8"
      "approx_tokens_from_byte_count_i64 8 = 2"
    by (simp_all add: machine_defs i64_max_def i64_min_def usize_max_def APPROX_BYTES_PER_TOKEN_def
        approx_tokens_from_byte_count_i64_def approx_tokens_from_byte_count_def)
  ultimately have est: "?est ?out = 2"
    unfolding estimate_item_token_count_def estimate_response_item_model_visible_bytes_def Let_def
      response_item.case option.case by (simp only: prod.case)
  have "get_total_token_usage ?b ?est False ?cm =
      min i64_max (7 + (if False then 0 else sum_list (map ?est (filter is_encrypted_reasoning []))) +
        sum_list (map ?est [?out]))"
    by (rule get_total_token_usage_exact
          [where info = "the (token_info ?cm)" and turn = "AgentMessage None [] [] [] None" and rest = "[?call, ?out]"
            and answered = "[AgentMessage None [] [] [] None]" and emitted = ?call])
       (simp_all add: default_usage_def is_user_turn_boundary_def is_model_generated_item_def i64_max_def)
  then show ?thesis using est by (simp add: i64_max_def)
qed

end
