(* ===== verification/Union_Find.thy ===== *)
theory Union_Find
  imports Prelude "HOL-Library.Multiset"
begin

text \<open>
  The union-find of \<^verbatim>\<open>trajectory_extract/task_stitch.py\<close>, which \<^verbatim>\<open>atomic_segments\<close> and
  \<^verbatim>\<open>segment_history\<close> both build on a list of parents, with path halving; the loop over the edges
  and the grouping by roots that follow it.  \<open>None\<close> is a loop that does not end or an index out
  of range.
\<close>

section \<open>Definitions\<close>

partial_function (option) uf_find :: "nat list \<Rightarrow> nat \<Rightarrow> (nat \<times> nat list) option" where
  "uf_find uf x =
     (if length uf \<le> x then None
      else if uf ! x = x then Some (x, uf)
      else if length uf \<le> uf ! x then None
      else let uf = uf[x := uf ! (uf ! x)] in uf_find uf (uf ! x))"

declare uf_find.simps [code]

text \<open>An edge joins two classes where it is strong and the classes differ.\<close>

definition stitch_step :: "nat list \<Rightarrow> nat \<Rightarrow> nat \<Rightarrow> bool \<Rightarrow> nat list option" where
  "stitch_step uf parent child strong =
     Option.bind (uf_find uf parent) (\<lambda>(rp, uf).
     Option.bind (uf_find uf child) (\<lambda>(rc, uf).
       if rp \<noteq> rc \<and> strong
       then Option.bind (uf_find uf parent) (\<lambda>(rp, uf).
            Option.bind (uf_find uf child) (\<lambda>(rc, uf). Some (uf[rc := rp])))
       else Some uf))"

fun stitch_edges :: "nat list \<Rightarrow> (nat \<times> nat \<times> bool) list \<Rightarrow> nat list option" where
  "stitch_edges uf [] = Some uf"
| "stitch_edges uf ((parent, child, strong) # es) =
     Option.bind (stitch_step uf parent child strong) (\<lambda>uf. stitch_edges uf es)"

text \<open>A dictionary of lists in the order of insertion.\<close>

fun dict_extend :: "'k \<Rightarrow> 'a list \<Rightarrow> ('k \<times> 'a list) list \<Rightarrow> ('k \<times> 'a list) list" where
  "dict_extend k xs [] = [(k, xs)]"
| "dict_extend k xs ((k', ys) # d) =
     (if k' = k then (k', ys @ xs) # d else (k', ys) # dict_extend k xs d)"

fun group_by_root ::
    "nat list \<Rightarrow> nat \<Rightarrow> 'a list list \<Rightarrow> (nat \<times> 'a list) list \<Rightarrow> (nat \<times> 'a list) list option" where
  "group_by_root uf si [] merged = Some merged"
| "group_by_root uf si (rows # segs) merged =
     Option.bind (uf_find uf si) (\<lambda>(r, uf).
       group_by_root uf (Suc si) segs (dict_extend r rows merged))"

definition merge_segments :: "(nat \<times> nat \<times> bool) list \<Rightarrow> 'a list list \<Rightarrow> 'a list list option" where
  "merge_segments es segs =
     Option.bind (stitch_edges [0..<length segs] es) (\<lambda>uf.
       map_option (map snd) (group_by_root uf 0 segs []))"

section \<open>Representatives\<close>

definition uf_ok :: "nat list \<Rightarrow> bool" where
  "uf_ok uf \<longleftrightarrow> (\<forall>x < length uf. uf ! x < length uf) \<and>
     (\<exists>rank :: nat \<Rightarrow> nat. \<forall>x < length uf. uf ! x \<noteq> x \<longrightarrow> rank (uf ! x) < rank x)"

definition uf_rep :: "nat list \<Rightarrow> nat \<Rightarrow> nat" where
  "uf_rep uf x = (THE y. \<exists>n. ((\<lambda>i. uf ! i) ^^ n) x = y \<and> uf ! y = y)"

lemma fixpoint_unique:
  assumes "((\<lambda>i. uf ! i) ^^ n) x = y" "uf ! y = y" "((\<lambda>i. uf ! i) ^^ m) x = z" "uf ! z = z"
  shows "y = z"
proof -
  have fixed: "((\<lambda>i. uf ! i) ^^ k) w = w" if "uf ! w = w" for k w :: nat
    using that by (induction k) auto
  have "((\<lambda>i. uf ! i) ^^ (n + m)) x = z"
    using assms(3,4) fixed [of z n] by (simp add: funpow_add)
  moreover have "((\<lambda>i. uf ! i) ^^ (m + n)) x = y"
    using assms(1,2) fixed [of y m] by (simp add: funpow_add)
  ultimately show ?thesis by (simp add: add.commute)
qed

lemma uf_rep_eqI: "((\<lambda>i. uf ! i) ^^ n) x = y \<Longrightarrow> uf ! y = y \<Longrightarrow> uf_rep uf x = y"
  unfolding uf_rep_def by (rule the_equality) (use fixpoint_unique in blast)+

lemma uf_rep_fixed: "uf ! x = x \<Longrightarrow> uf_rep uf x = x"
  by (rule uf_rep_eqI [where n = 0]) auto

lemma uf_ok_reaches:
  assumes "uf_ok uf" "x < length uf"
  shows "\<exists>n y. ((\<lambda>i. uf ! i) ^^ n) x = y \<and> uf ! y = y \<and> y < length uf"
proof -
  obtain rank :: "nat \<Rightarrow> nat" where
    r: "\<And>x. x < length uf \<Longrightarrow> uf ! x \<noteq> x \<Longrightarrow> rank (uf ! x) < rank x"
    and b: "\<And>x. x < length uf \<Longrightarrow> uf ! x < length uf"
    using assms(1) unfolding uf_ok_def by blast
  show ?thesis using assms(2)
  proof (induction "rank x" arbitrary: x rule: less_induct)
    case less
    show ?case
    proof (cases "uf ! x = x")
      case True
      then show ?thesis using less.prems by - (rule exI [of _ 0], rule exI [of _ x], simp)
    next
      case False
      then obtain n y where "((\<lambda>i. uf ! i) ^^ n) (uf ! x) = y" "uf ! y = y" "y < length uf"
        using less.hyps r b less.prems by blast
      then show ?thesis by - (rule exI [of _ "Suc n"], rule exI [of _ y], simp add: funpow_swap1)
    qed
  qed
qed

lemma uf_rep_step:
  assumes "uf_ok uf" "x < length uf"
  shows "uf_rep uf (uf ! x) = uf_rep uf x"
proof -
  have "uf ! x < length uf" using assms by (auto simp: uf_ok_def)
  then obtain n y where ny: "((\<lambda>i. uf ! i) ^^ n) (uf ! x) = y" "uf ! y = y"
    using uf_ok_reaches [OF assms(1)] by blast
  then have "((\<lambda>i. uf ! i) ^^ Suc n) x = y" by (simp add: funpow_swap1)
  then show ?thesis using ny uf_rep_eqI by metis
qed

lemma uf_rep_root:
  assumes "uf_ok uf" "x < length uf"
  shows "uf_rep uf x < length uf" "uf ! uf_rep uf x = uf_rep uf x" "uf_rep uf (uf_rep uf x) = uf_rep uf x"
  using uf_ok_reaches [OF assms] uf_rep_eqI uf_rep_fixed by metis+

section \<open>Path halving\<close>

lemma uf_ok_halve:
  assumes "uf_ok uf" "x < length uf" "uf ! x \<noteq> x"
  defines "uf' \<equiv> uf[x := uf ! (uf ! x)]"
  shows "uf_ok uf'" "y < length uf \<Longrightarrow> uf_rep uf' y = uf_rep uf y"
proof -
  obtain rank :: "nat \<Rightarrow> nat" where
    r: "\<And>x. x < length uf \<Longrightarrow> uf ! x \<noteq> x \<Longrightarrow> rank (uf ! x) < rank x"
    and b: "\<And>x. x < length uf \<Longrightarrow> uf ! x < length uf"
    using assms(1) unfolding uf_ok_def by blast
  have less: "rank (uf ! (uf ! x)) < rank x"
    using r [OF assms(2,3)] r [OF b [OF assms(2)]] by (cases "uf ! (uf ! x) = uf ! x") auto
  have nth: "uf' ! y = (if y = x then uf ! (uf ! x) else uf ! y)" if "y < length uf" for y
    using that by (simp add: uf'_def nth_list_update)
  have len: "length uf' = length uf" by (simp add: uf'_def)
  have "rank (uf' ! y) < rank y" if "y < length uf'" "uf' ! y \<noteq> y" for y
    using that less r by (auto simp: nth len split: if_splits)
  moreover have "uf' ! y < length uf'" if "y < length uf'" for y
    using that b assms(2) by (simp add: nth len)
  ultimately show ok: "uf_ok uf'" unfolding uf_ok_def by blast
  show "uf_rep uf' y = uf_rep uf y" if "y < length uf"
    using that
  proof (induction "rank y" arbitrary: y rule: less_induct)
    case less': less
    have bound: "uf' ! y < length uf" using less'.prems b assms(2) by (simp add: nth)
    show ?case
    proof (cases "uf' ! y = y")
      case True
      moreover have "y \<noteq> x" using True less assms(2) by (auto simp: nth)
      ultimately show ?thesis using uf_rep_fixed [of uf' y] uf_rep_fixed [of uf y] less'.prems
        by (simp add: nth)
    next
      case False
      have "rank (uf' ! y) < rank y" using False less r less'.prems by (auto simp: nth)
      then have "uf_rep uf' (uf' ! y) = uf_rep uf (uf' ! y)" using less'.hyps bound by blast
      moreover have "uf_rep uf (uf' ! y) = uf_rep uf y"
        using uf_rep_step [OF assms(1)] less'.prems assms(2) b by (simp add: nth)
      moreover have "uf_rep uf' (uf' ! y) = uf_rep uf' y"
        using uf_rep_step [OF ok] less'.prems len by simp
      ultimately show ?thesis by simp
    qed
  qed
qed

lemma uf_find_rep:
  assumes "uf_ok uf" "x < length uf"
  shows "\<exists>uf'. uf_find uf x = Some (uf_rep uf x, uf') \<and> uf_ok uf' \<and> length uf' = length uf \<and>
    (\<forall>y < length uf. uf_rep uf' y = uf_rep uf y)"
proof -
  obtain rank :: "nat \<Rightarrow> nat" where
    "\<forall>x < length uf. uf ! x \<noteq> x \<longrightarrow> rank (uf ! x) < rank x"
    using assms(1) unfolding uf_ok_def by blast
  then show ?thesis using assms
  proof (induction "rank x" arbitrary: x uf rule: less_induct)
    case less
    have b: "uf ! x < length uf" using less.prems by (auto simp: uf_ok_def)
    show ?case
    proof (cases "uf ! x = x")
      case True
      then show ?thesis using less.prems uf_rep_fixed [OF True] by (subst uf_find.simps) auto
    next
      case False
      let ?uf = "uf[x := uf ! (uf ! x)]" and ?y = "uf ! (uf ! x)"
      have y: "?y < length ?uf" using less.prems(2) b by (auto simp: uf_ok_def)
      have "rank ?y < rank x"
        using less.prems(1,3) False b by (cases "?y = uf ! x") (auto intro: less_trans)
      moreover have "\<forall>z < length ?uf. ?uf ! z \<noteq> z \<longrightarrow> rank (?uf ! z) < rank z"
        using less.prems(1,3) \<open>rank ?y < rank x\<close> by (auto simp: nth_list_update)
      moreover note halve = uf_ok_halve [OF less.prems(2,3) False]
      ultimately obtain uf' where uf': "uf_find ?uf ?y = Some (uf_rep ?uf ?y, uf')" "uf_ok uf'"
          "length uf' = length uf" "\<forall>z < length uf. uf_rep uf' z = uf_rep ?uf z"
        using less.hyps [of ?y ?uf] y by auto
      have "uf_rep ?uf ?y = uf_rep uf x"
        using halve(2) [of ?y] y uf_rep_step [OF less.prems(2)] less.prems(3) b by simp
      then show ?thesis
        using uf' halve(2) False less.prems(3) b by (subst uf_find.simps) (simp add: Let_def)
    qed
  qed
qed

section \<open>Linking two roots\<close>

lemma uf_ok_link:
  assumes "uf_ok uf" "a < length uf" "b < length uf" "uf ! a = a" "uf ! b = b" "a \<noteq> b"
  defines "uf' \<equiv> uf[a := b]"
  shows "uf_ok uf'" "y < length uf \<Longrightarrow> uf_rep uf' y = (if uf_rep uf y = a then b else uf_rep uf y)"
proof -
  obtain rank :: "nat \<Rightarrow> nat" where
    r: "\<And>x. x < length uf \<Longrightarrow> uf ! x \<noteq> x \<Longrightarrow> rank (uf ! x) < rank x"
    and bd: "\<And>x. x < length uf \<Longrightarrow> uf ! x < length uf"
    using assms(1) unfolding uf_ok_def by blast
  define rank' where "rank' y = (if uf_rep uf y = a then rank y + rank b + 1 else rank y)" for y
  have nth: "uf' ! y = (if y = a then b else uf ! y)" if "y < length uf" for y
    using that by (simp add: uf'_def nth_list_update)
  have len: "length uf' = length uf" by (simp add: uf'_def)
  have reps: "uf_rep uf a = a" "uf_rep uf b = b" using assms(4,5) uf_rep_fixed by auto
  have dec: "rank' (uf' ! y) < rank' y" if "y < length uf" "uf' ! y \<noteq> y" for y
    using that r [of y] reps assms(6) uf_rep_step [OF assms(1), of y]
    by (auto simp: nth rank'_def split: if_splits)
  moreover have "uf' ! y < length uf" if "y < length uf" for y
    using that bd assms(3) by (simp add: nth)
  ultimately show ok: "uf_ok uf'" unfolding uf_ok_def len by blast
  show "uf_rep uf' y = (if uf_rep uf y = a then b else uf_rep uf y)" if "y < length uf"
    using that
  proof (induction "rank' y" arbitrary: y rule: less_induct)
    case less
    show ?case
    proof (cases "uf' ! y = y")
      case True
      then have "y \<noteq> a" using assms(2,6) by (auto simp: nth)
      then show ?thesis
        using True uf_rep_fixed [of uf' y] uf_rep_fixed [of uf y] less.prems by (simp add: nth)
    next
      case False
      have "uf' ! y < length uf" using less.prems bd assms(3) by (simp add: nth)
      then have "uf_rep uf' (uf' ! y) = (if uf_rep uf (uf' ! y) = a then b else uf_rep uf (uf' ! y))"
        using less.hyps dec False less.prems by blast
      then show ?thesis
        using uf_rep_step [OF ok, of y] uf_rep_step [OF assms(1), of y] less.prems reps assms(6)
        by (auto simp: nth len split: if_splits)
    qed
  qed
qed

section \<open>Connectivity\<close>

definition conn :: "(nat \<times> nat) set \<Rightarrow> (nat \<times> nat) set" where
  "conn E = (E \<union> E\<inverse>)\<^sup>*"

definition represents :: "nat \<Rightarrow> (nat \<Rightarrow> nat) \<Rightarrow> (nat \<times> nat) set \<Rightarrow> bool" where
  "represents n rep E \<longleftrightarrow> (\<forall>i < n. \<forall>j < n. rep i = rep j \<longleftrightarrow> (i, j) \<in> conn E)"

lemma conn_refl [simp]: "(i, i) \<in> conn E"
  by (simp add: conn_def)

lemma conn_sym: "(i, j) \<in> conn E \<Longrightarrow> (j, i) \<in> conn E"
  unfolding conn_def by (rule symD [OF sym_rtrancl]) (auto simp: sym_def)

lemma conn_trans: "(i, j) \<in> conn E \<Longrightarrow> (j, k) \<in> conn E \<Longrightarrow> (i, k) \<in> conn E"
  unfolding conn_def by (rule rtrancl_trans)

lemma conn_edge: "(i, j) \<in> E \<Longrightarrow> (i, j) \<in> conn E"
  by (auto simp: conn_def)

lemma conn_mono: "E \<subseteq> F \<Longrightarrow> conn E \<subseteq> conn F"
  unfolding conn_def by (rule rtrancl_mono) auto

lemma conn_empty [simp]: "(i, j) \<in> conn {} \<longleftrightarrow> i = j"
  by (simp add: conn_def)

lemma conn_insert:
  "(i, j) \<in> conn (insert (a, b) E) \<longleftrightarrow>
     (i, j) \<in> conn E \<or> (i, a) \<in> conn E \<and> (b, j) \<in> conn E \<or> (i, b) \<in> conn E \<and> (a, j) \<in> conn E"
    (is "_ \<longleftrightarrow> ?R i j")
proof
  assume "(i, j) \<in> conn (insert (a, b) E)"
  then have "(i, j) \<in> (insert (a, b) E \<union> (insert (a, b) E)\<inverse>)\<^sup>*" by (simp add: conn_def)
  then show "?R i j"
  proof (induction rule: rtrancl_induct)
    case (step y z)
    then consider "(y, z) \<in> conn E" | "y = a" "z = b" | "y = b" "z = a"
      using conn_edge conn_sym by fastforce
    then show ?case using step.IH conn_trans conn_sym conn_refl by cases metis+
  qed simp
next
  have sub: "conn E \<subseteq> conn (insert (a, b) E)" by (rule conn_mono) auto
  have ab: "(a, b) \<in> conn (insert (a, b) E)" by (rule conn_edge) simp
  assume "?R i j"
  then show "(i, j) \<in> conn (insert (a, b) E)"
    using sub ab conn_sym [OF ab] conn_trans by blast
qed

lemma conn_insert_absorb:
  assumes "(a, b) \<in> conn E"
  shows "conn (insert (a, b) E) = conn E"
proof -
  have "(i, j) \<in> conn (insert (a, b) E) \<longleftrightarrow> (i, j) \<in> conn E" for i j
    unfolding conn_insert using conn_trans assms conn_sym [OF assms] by metis
  then show ?thesis by (simp add: set_eq_iff split_paired_all)
qed

text \<open>What the loop over the edges relies on: finding a representative and linking two roots.\<close>

locale disjoint_sets =
  fixes ok :: "'u \<Rightarrow> bool" and size :: "'u \<Rightarrow> nat" and rep :: "'u \<Rightarrow> nat \<Rightarrow> nat"
    and find :: "'u \<Rightarrow> nat \<Rightarrow> (nat \<times> 'u) option" and link :: "'u \<Rightarrow> nat \<Rightarrow> nat \<Rightarrow> 'u"
  assumes find_rep: "ok u \<Longrightarrow> x < size u \<Longrightarrow>
      \<exists>u'. find u x = Some (rep u x, u') \<and> ok u' \<and> size u' = size u \<and> (\<forall>y < size u. rep u' y = rep u y)"
    and rep_root: "ok u \<Longrightarrow> x < size u \<Longrightarrow> rep u x < size u \<and> rep u (rep u x) = rep u x"
    and link_roots: "ok u \<Longrightarrow> a < size u \<Longrightarrow> b < size u \<Longrightarrow> rep u a = a \<Longrightarrow> rep u b = b \<Longrightarrow> a \<noteq> b \<Longrightarrow>
      ok (link u a b) \<and> size (link u a b) = size u \<and>
      (\<forall>y < size u. rep (link u a b) y = (if rep u y = a then b else rep u y))"
begin

lemma find_two:
  assumes "ok u" "x < size u" "y < size u"
  shows "\<exists>u'. (\<forall>g. Option.bind (find u x) (\<lambda>(rx, u). Option.bind (find u y) (\<lambda>(ry, u). g rx ry u)) =
      g (rep u x) (rep u y) u') \<and>
    ok u' \<and> size u' = size u \<and> (\<forall>z < size u. rep u' z = rep u z)"
proof -
  obtain u1 where u1: "find u x = Some (rep u x, u1)" "ok u1" "size u1 = size u"
      "\<forall>z < size u. rep u1 z = rep u z"
    using find_rep assms by blast
  obtain u2 where "find u1 y = Some (rep u1 y, u2)" "ok u2" "size u2 = size u1"
      "\<forall>z < size u1. rep u2 z = rep u1 z"
    using find_rep u1 assms(3) by metis
  then show ?thesis using u1 assms(3) by (intro exI [of _ u2]) simp
qed

lemma join_step:
  assumes "ok u" "p < size u" "c < size u" "represents (size u) (rep u) E"
  shows "\<exists>u'. Option.bind (find u p) (\<lambda>(rp, u). Option.bind (find u c) (\<lambda>(rc, u).
        if rp \<noteq> rc \<and> strong
        then Option.bind (find u p) (\<lambda>(rp, u). Option.bind (find u c) (\<lambda>(rc, u). Some (link u rc rp)))
        else Some u)) = Some u' \<and>
      ok u' \<and> size u' = size u \<and> represents (size u) (rep u') (if strong then insert (p, c) E else E)"
proof -
  obtain u1 where u1: "\<And>g :: nat \<Rightarrow> nat \<Rightarrow> 'u \<Rightarrow> 'u option. Option.bind (find u p) (\<lambda>(rp, u). Option.bind (find u c) (\<lambda>(rc, u). g rp rc u)) =
      g (rep u p) (rep u c) u1" "ok u1" "size u1 = size u" "\<forall>z < size u. rep u1 z = rep u z"
    using find_two [OF assms(1-3)] by blast
  have rep_E: "rep u i = rep u j \<longleftrightarrow> (i, j) \<in> conn E" if "i < size u" "j < size u" for i j
    using assms(4) that by (auto simp: represents_def)
  show ?thesis
  proof (cases "rep u p \<noteq> rep u c \<and> strong")
    case False
    have "conn (if strong then insert (p, c) E else E) = conn E"
      using False rep_E [OF assms(2,3)] conn_insert_absorb by auto
    then have "represents (size u) (rep u1) (if strong then insert (p, c) E else E)"
      using u1(4) rep_E by (simp add: represents_def)
    then show ?thesis unfolding u1(1) using u1(2,3) False by auto
  next
    case True
    obtain u2 where u2: "\<And>g :: nat \<Rightarrow> nat \<Rightarrow> 'u \<Rightarrow> 'u option. Option.bind (find u1 p) (\<lambda>(rp, u). Option.bind (find u c) (\<lambda>(rc, u). g rp rc u)) =
        g (rep u1 p) (rep u1 c) u2" "ok u2" "size u2 = size u1" "\<forall>z < size u1. rep u2 z = rep u1 z"
      using find_two [of u1 p c] u1 assms(2,3) by metis
    let ?u = "link u2 (rep u c) (rep u p)"
    have roots: "rep u p < size u" "rep u (rep u p) = rep u p" "rep u c < size u" "rep u (rep u c) = rep u c"
      using rep_root assms(1-3) by auto
    have link: "ok ?u" "size ?u = size u"
        "\<And>y. y < size u \<Longrightarrow> rep ?u y = (if rep u y = rep u c then rep u p else rep u y)"
      using link_roots [of u2 "rep u c" "rep u p"] u1 u2 roots True by auto
    have "rep ?u i = rep ?u j \<longleftrightarrow> (i, j) \<in> conn (insert (p, c) E)" if "i < size u" "j < size u" for i j
      using that assms(2,3) by (auto simp: conn_insert rep_E [symmetric] link(3))
    then have "represents (size u) (rep ?u) (insert (p, c) E)" by (simp add: represents_def)
    moreover have "rep u1 p = rep u p" "rep u1 c = rep u c" using u1(4) assms(2,3) by auto
    ultimately show ?thesis
      unfolding u1(1) u2(1) using True link(1,2) by simp
  qed
qed

end

interpretation halving: disjoint_sets uf_ok length uf_rep uf_find list_update
proof
  show "uf_rep u x < length u \<and> uf_rep u (uf_rep u x) = uf_rep u x"
    if "uf_ok u" "x < length u" for u x
    using uf_rep_root [OF that] by simp
  show "uf_ok (u[a := b]) \<and> length (u[a := b]) = length u \<and>
      (\<forall>y < length u. uf_rep (u[a := b]) y = (if uf_rep u y = a then b else uf_rep u y))"
    if "uf_ok u" "a < length u" "b < length u" "uf_rep u a = a" "uf_rep u b = b" "a \<noteq> b" for u a b
    using uf_ok_link [OF that(1-3)] uf_rep_root [OF that(1,2)] uf_rep_root [OF that(1,3)] that by simp
qed (rule uf_find_rep)

section \<open>The loop and the grouping\<close>

definition strong_edges :: "(nat \<times> nat \<times> bool) list \<Rightarrow> (nat \<times> nat) set" where
  "strong_edges es = {(p, c). (p, c, True) \<in> set es}"

lemma stitch_edges_conn:
  assumes "uf_ok uf" "represents (length uf) (uf_rep uf) E"
    "\<And>p c s. (p, c, s) \<in> set es \<Longrightarrow> p < length uf \<and> c < length uf"
  shows "\<exists>uf'. stitch_edges uf es = Some uf' \<and> uf_ok uf' \<and> length uf' = length uf \<and>
    represents (length uf) (uf_rep uf') (E \<union> strong_edges es)"
  using assms
proof (induction es arbitrary: uf E)
  case (Cons e es)
  obtain p c s where e: "e = (p, c, s)" by (cases e) auto
  obtain uf1 where uf1: "stitch_step uf p c s = Some uf1" "uf_ok uf1" "length uf1 = length uf"
      "represents (length uf) (uf_rep uf1) (if s then insert (p, c) E else E)"
    using halving.join_step [of uf p c E s] Cons.prems by (auto simp: e stitch_step_def)
  then obtain uf2 where "stitch_edges uf1 es = Some uf2" "uf_ok uf2" "length uf2 = length uf"
      "represents (length uf) (uf_rep uf2) ((if s then insert (p, c) E else E) \<union> strong_edges es)"
    using Cons.IH [of uf1 "if s then insert (p, c) E else E"] Cons.prems(3) by auto
  moreover have "(if s then insert (p, c) E else E) \<union> strong_edges es = E \<union> strong_edges (e # es)"
    by (auto simp: e strong_edges_def)
  ultimately show ?case using uf1(1) by (simp add: e)
qed (simp add: strong_edges_def)

lemma uf_ok_init: "uf_ok [0..<n]"
  by (simp add: uf_ok_def)

lemma represents_init: "represents n (uf_rep [0..<n]) {}"
  by (simp add: represents_def uf_rep_fixed)

fun uniq :: "'a list \<Rightarrow> 'a list" where
  "uniq [] = []"
| "uniq (x # xs) = x # filter (\<lambda>y. y \<noteq> x) (uniq xs)"

lemma set_uniq [simp]: "set (uniq xs) = set xs"
  by (induction xs) auto

lemma distinct_uniq [simp]: "distinct (uniq xs)"
  by (induction xs) auto

lemma uniq_snoc: "uniq (xs @ [x]) = uniq xs @ (if x \<in> set xs then [] else [x])"
  by (induction xs) auto

lemma dict_extend_map:
  "distinct ks \<Longrightarrow>
   dict_extend k xs (map (\<lambda>k. (k, f k)) ks) =
   (if k \<in> set ks then map (\<lambda>k'. (k', if k' = k then f k' @ xs else f k')) ks
    else map (\<lambda>k. (k, f k)) ks @ [(k, xs)])"
  by (induction ks) (auto intro: map_cong)

text \<open>The classes in the order of their first members, with their lists joined.\<close>

definition grouped :: "('k \<times> 'a list) list \<Rightarrow> ('k \<times> 'a list) list" where
  "grouped kvs = map (\<lambda>k. (k, concat (map snd (filter (\<lambda>kv. fst kv = k) kvs)))) (uniq (map fst kvs))"

lemma grouped_snoc: "grouped (kvs @ [(k, xs)]) = dict_extend k xs (grouped kvs)"
proof -
  have "filter (\<lambda>kv. fst kv = k) kvs = []" if "k \<notin> fst ` set kvs"
    using that by (auto simp: filter_empty_conv)
  then show ?thesis by (auto simp: grouped_def dict_extend_map uniq_snoc)
qed

lemma group_by_root_grouped:
  assumes "uf_ok uf" "si + length segs \<le> length uf"
  shows "group_by_root uf si segs (grouped kvs) =
    Some (grouped (kvs @ zip (map (uf_rep uf) [si..<si + length segs]) segs))"
  using assms
proof (induction segs arbitrary: uf si kvs)
  case (Cons rows segs)
  have "si < length uf" using Cons.prems(2) by simp
  then obtain uf' where uf': "uf_find uf si = Some (uf_rep uf si, uf')" "uf_ok uf'" "length uf' = length uf"
      "\<forall>y < length uf. uf_rep uf' y = uf_rep uf y"
    using uf_find_rep [OF Cons.prems(1)] by blast
  have same: "map (uf_rep uf') [Suc si..<Suc si + length segs] = map (uf_rep uf) [Suc si..<Suc si + length segs]"
    using uf'(4) Cons.prems(2) by (intro map_cong) auto
  have "[si..<si + length (rows # segs)] = si # [Suc si..<Suc si + length segs]"
    by (simp add: upt_conv_Cons del: upt_Suc)
  then show ?case
    using uf' Cons.IH [of uf' "Suc si" "kvs @ [(uf_rep uf si, rows)]", unfolded same] Cons.prems(2)
    by (simp add: grouped_snoc del: upt_Suc)
qed simp

text \<open>
  What the merging computes: for the first segment of each class, the rows of all segments that
  strong edges connect with it.
\<close>

definition class_leaders :: "(nat \<times> nat) set \<Rightarrow> nat \<Rightarrow> nat list" where
  "class_leaders E n = filter (\<lambda>i. \<forall>j < i. (j, i) \<notin> conn E) [0..<n]"

definition class_rows :: "(nat \<times> nat) set \<Rightarrow> 'a list list \<Rightarrow> nat \<Rightarrow> 'a list" where
  "class_rows E segs i = concat (map (\<lambda>j. segs ! j) (filter (\<lambda>j. (j, i) \<in> conn E) [0..<length segs]))"

lemma uniq_map_upt: "uniq (map f [0..<n]) = map f (filter (\<lambda>i. \<forall>j < i. f j \<noteq> f i) [0..<n])"
proof (induction n)
  case (Suc n)
  have "f n \<in> set (map f [0..<n]) \<longleftrightarrow> \<not> (\<forall>j < n. f j \<noteq> f n)" by (simp add: image_iff Bex_def, metis)
  then show ?case using Suc uniq_snoc [of "map f [0..<n]" "f n"] by auto
qed simp

lemma map_snd_grouped:
  assumes "represents (length segs) f E"
  shows "map snd (grouped (zip (map f [0..<length segs]) segs)) =
    map (class_rows E segs) (class_leaders E (length segs))"
proof -
  let ?n = "length segs"
  have f: "f i = f j \<longleftrightarrow> (i, j) \<in> conn E" if "i < ?n" "j < ?n" for i j
    using assms that by (simp add: represents_def)
  have zip: "zip (map f [0..<?n]) segs = map (\<lambda>j. (f j, segs ! j)) [0..<?n]"
    by (rule nth_equalityI) auto
  have fst: "map fst (map (\<lambda>j. (f j, segs ! j)) [0..<?n]) = map f [0..<?n]" by simp
  have leaders: "filter (\<lambda>i. \<forall>j < i. f j \<noteq> f i) [0..<?n] = class_leaders E ?n"
    unfolding class_leaders_def by (rule filter_cong) (auto simp: f)
  have rows: "concat (map snd (filter (\<lambda>kv. fst kv = f i) (map (\<lambda>j. (f j, segs ! j)) [0..<?n]))) =
      class_rows E segs i" if "i \<in> set (class_leaders E ?n)" for i
  proof -
    have "i < ?n" using that by (simp add: class_leaders_def)
    then have "filter (\<lambda>j. f j = f i) [0..<?n] = filter (\<lambda>j. (j, i) \<in> conn E) [0..<?n]"
      by (intro filter_cong) (auto simp: f)
    then show ?thesis by (simp add: filter_map o_def class_rows_def)
  qed
  show ?thesis
    unfolding grouped_def zip fst uniq_map_upt leaders using rows by (simp cong: map_cong)
qed

lemma mset_dict_extend:
  "mset (concat (map snd (dict_extend k xs d))) = mset xs + mset (concat (map snd d))"
  by (induction d) (auto simp: add_ac)

lemma mset_grouped: "mset (concat (map snd (grouped kvs))) = mset (concat (map snd kvs))"
proof (induction kvs rule: rev_induct)
  case (snoc kv kvs)
  then show ?case by (cases kv) (simp add: grouped_snoc mset_dict_extend add.commute)
qed (simp add: grouped_def)

lemma merge_segments_classes:
  assumes "\<And>p c s. (p, c, s) \<in> set es \<Longrightarrow> p < length segs \<and> c < length segs"
  shows "merge_segments es segs =
      Some (map (class_rows (strong_edges es) segs) (class_leaders (strong_edges es) (length segs)))"
    and "mset (concat (map (class_rows (strong_edges es) segs)
           (class_leaders (strong_edges es) (length segs)))) = mset (concat segs)"
proof -
  let ?n = "length segs" and ?E = "strong_edges es"
  obtain uf where uf: "stitch_edges [0..<?n] es = Some uf" "uf_ok uf" "length uf = ?n"
      "represents ?n (uf_rep uf) ?E"
    using stitch_edges_conn [OF uf_ok_init, of ?n "{}" es] represents_init [of ?n] assms by auto
  have "group_by_root uf 0 segs [] = Some (grouped (zip (map (uf_rep uf) [0..<?n]) segs))"
    using group_by_root_grouped [of uf 0 segs "[]"] uf(2,3) by (simp add: grouped_def)
  then show "merge_segments es segs = Some (map (class_rows ?E segs) (class_leaders ?E ?n))"
    using uf map_snd_grouped [OF uf(4)] by (simp add: merge_segments_def)
  show "mset (concat (map (class_rows ?E segs) (class_leaders ?E ?n))) = mset (concat segs)"
    using mset_grouped [of "zip (map (uf_rep uf) [0..<?n]) segs"]
    by (simp add: map_snd_grouped [OF uf(4)])
qed

end
