(* ===== verification/Event_Text.thy ===== *)
theory Event_Text
  imports Prelude Complex_Main "HOL-Library.Code_Target_Nat"
begin

text \<open>
  The text functions of \<^verbatim>\<open>trajectory_extract/task_stitch.py\<close>: stripping what the chat adds to a
  message, topics, noise, and the classes of user messages.  A regular expression of the source
  is the recursive function that finds its leftmost match.  Literals that are not ASCII are given
  by their code points.  The Unicode classes of word characters and decimal digits are the
  parameter \<open>uni\<close>.
\<close>

record unicode =
  is_word :: "uchar \<Rightarrow> bool"
  is_decimal :: "uchar \<Rightarrow> bool"

record 'r event =
  ev_ts :: rat
  ev_role :: str
  ev_name :: str
  ev_msg_id :: str
  ev_parent_id :: str
  ev_text :: str
  ev_rest :: 'r

text \<open>
  A timestamp is the value of the float.  The difference of two epoch times is exact in floating
  point, since they are within a factor of two of each other.
\<close>

section \<open>Python strings\<close>

definition py_isspace :: "uchar \<Rightarrow> bool" where
  "py_isspace c \<longleftrightarrow> 9 \<le> c \<and> c \<le> 13 \<or> 28 \<le> c \<and> c \<le> 32 \<or> c = 133 \<or> c = 160 \<or> c = 5760 \<or>
     8192 \<le> c \<and> c \<le> 8202 \<or> c = 8232 \<or> c = 8233 \<or> c = 8239 \<or> c = 8287 \<or> c = 12288"

definition py_lstrip :: "str \<Rightarrow> str" where
  "py_lstrip s = dropWhile py_isspace s"

definition py_strip :: "str \<Rightarrow> str" where
  "py_strip s = rev (py_lstrip (rev (py_lstrip s)))"

text \<open>
  \<^verbatim>\<open>str.lower\<close>, as far as the ASCII characters of the result are concerned: besides the letters,
  only the dotted capital I and the Kelvin sign have ASCII in their lower case.
\<close>

definition py_lower :: "str \<Rightarrow> str" where
  "py_lower s = concat (map (\<lambda>c.
     if 65 \<le> c \<and> c \<le> 90 then [c + 32] else if c = 304 then [105, 775]
     else if c = 8490 then [107] else [c]) s)"

definition py_contains :: "str \<Rightarrow> str \<Rightarrow> bool" where
  "py_contains s p \<longleftrightarrow> find_str s p \<noteq> None"

definition norm_text :: "str \<Rightarrow> str" where
  "norm_text s = filter (\<lambda>c. \<not> py_isspace c) s"

section \<open>What the chat adds\<close>

text \<open>The rest after a match of \<^verbatim>\<open><at\b[^>]*>.*?</at>\<close> at the start.\<close>

definition match_at :: "unicode \<Rightarrow> str \<Rightarrow> str option" where
  "match_at uni s =
     (case strip_prefix s (lit ''<at'') of
        None \<Rightarrow> None
      | Some r \<Rightarrow>
          if r = [] \<or> is_word uni (hd r) then None
          else
            (case dropWhile (\<lambda>c. c \<noteq> 62) r of
               [] \<Rightarrow> None
             | _ # r \<Rightarrow>
                 map_option (\<lambda>k. drop (k + 5) r)
                   (find_str (takeWhile (\<lambda>c. c \<noteq> nl) r) (lit ''</at>''))))"

lemma match_at_shorter: "match_at uni s = Some r \<Longrightarrow> length r < length s"
proof -
  assume "match_at uni s = Some r"
  then obtain u c v k where "strip_prefix s (lit ''<at'') = Some u" "dropWhile (\<lambda>c. c \<noteq> 62) u = c # v"
      "r = drop (k + 5) v"
    by (auto simp: match_at_def split: option.splits if_splits list.splits)
  moreover from this(2) have "length (c # v) \<le> length u" by (metis length_dropWhile_le)
  ultimately show ?thesis by (auto simp: strip_prefix_Some lit_def)
qed

function strip_at :: "unicode \<Rightarrow> str \<Rightarrow> str" where
  "strip_at uni [] = []"
| "strip_at uni (c # s) =
     (case match_at uni (c # s) of Some r \<Rightarrow> strip_at uni r | None \<Rightarrow> c # strip_at uni s)"
  by pat_completeness auto
termination by (relation "measure (\<lambda>(_, s). length s)") (auto dest: match_at_shorter)

text \<open>\<open>12308\<close> and \<open>12309\<close> are the brackets of a topic label.\<close>

definition strip_label :: "str \<Rightarrow> str" where
  "strip_label s =
     (case py_lstrip s of
        [] \<Rightarrow> s
      | c # r \<Rightarrow>
          if c \<noteq> 12308 then s
          else (case dropWhile (\<lambda>c. c \<noteq> 12309) r of [] \<Rightarrow> s | _ # r \<Rightarrow> py_lstrip r))"

definition is_mention_char :: "uchar \<Rightarrow> bool" where
  "is_mention_char c \<longleftrightarrow> \<not> py_isspace c \<and> c \<notin> {65292, 12290, 58, 65306}"

function strip_mentions :: "str \<Rightarrow> str" where
  "strip_mentions [] = []"
| "strip_mentions (c # s) =
     (if c = 64 \<and> s \<noteq> [] \<and> is_mention_char (hd s)
      then strip_mentions (py_lstrip (dropWhile is_mention_char s))
      else c # strip_mentions s)"
  by pat_completeness auto
termination
proof (relation "measure length")
  show "(py_lstrip (dropWhile is_mention_char s), c # s) \<in> measure length" for c and s :: str
    using length_dropWhile_le [of py_isspace "dropWhile is_mention_char s"]
      length_dropWhile_le [of is_mention_char s] by (simp add: py_lstrip_def)
qed auto

definition strip_feishu :: "unicode \<Rightarrow> str \<Rightarrow> str" where
  "strip_feishu uni t = py_strip (strip_mentions (strip_label (strip_at uni t)))"

definition topic_of :: "str \<Rightarrow> str" where
  "topic_of t =
     (case py_lstrip t of
        [] \<Rightarrow> []
      | c # r \<Rightarrow>
          (let tp = takeWhile (\<lambda>c. c \<noteq> 12309) r in
           if c = 12308 \<and> tp \<noteq> r \<and> 1 \<le> length tp \<and> length tp \<le> 12 \<and> tp \<noteq> [38386, 32842]
           then tp else []))"

definition is_noise :: "str \<Rightarrow> bool" where
  "is_noise t =
     (let t = py_strip t in
      t = [] \<or> list_ex (starts_with t)
        [[128064], [128465, 65039], lit ''https://''] \<or>
      py_contains (py_lower t) (lit ''this message was recalled'') \<or>
      list_ex (starts_with t)
        [[9888, 65039, 32, 26412, 32676, 20250, 35805, 19978, 19979, 25991],
         [129529, 32, 19978, 19979, 25991, 24050, 35302, 21457, 21387, 32553],
         [123, 34, 116, 105, 116, 108, 101, 34], [123, 34, 99, 111, 110, 102, 105, 103, 34],
         [123, 34, 101, 108, 101, 109, 101, 110, 116, 115, 34], [128202], [9989, 32, 24050]] \<or>
      list_ex (starts_with t)
        [[128338, 32, 24050, 20837, 38431], [9889, 32, 24050, 25226]])"

section \<open>User messages\<close>

definition CLOSURE :: "str list" where
  "CLOSURE =
      [[25630, 23450], [23436, 25104, 20102], [20570, 23436, 20102], [21487, 20197, 20102],
       [27809, 38382, 39064, 20102], [35299, 20915, 20102], [32467, 20102], [25910, 24037],
       [36763, 33510, 20102], [35874, 35874], [22810, 35874], [23436, 32654],
       [23601, 36825, 26679], [111, 107, 20102], [22909, 20102, 23601], lit ''done'',
       [36890, 36807, 20102]]"

definition REWORK :: "str list" where
  "REWORK =
      [[36824, 26159], [20173, 28982], [20381, 26087], [36824, 26377], [27809, 21464],
       [19968, 26679], [37325, 26032], [27809, 35299, 20915], [27809, 29983, 25928],
       [27809, 36215, 20316, 29992], [21448, 20986], [21448, 25253], [21448, 19981],
       [24590, 20040, 21448]]"

definition CORRECTION :: "str list" where
  "CORRECTION =
      [[19981, 23545], [19981, 26159], [21035, 32473], [21035, 30452, 25509],
       [21035, 36319, 25105], [19981, 35201], [24212, 35813, 26159], [38169, 20102],
       [25630, 38169], [30475, 20195, 30721], [30475, 19979, 20195, 30721],
       [30475, 19979, 21040, 24213], [19981, 35813]]"

definition FILLER :: "str list" where
  "FILLER =
      [lit ''hi'', [20320, 22909], [22312], [22312, 21527], [22312, 20040],
       [33021, 30475, 21040, 21527], [30475, 24471, 21040, 21527], lit ''?'', [65311],
       [65311, 65311, 65311], lit ''??'', lit ''ok'', [22909, 30340], [22909], [21999],
       [25910, 21040], [20320, 22909, 65311], [22312, 65311]]"

definition CONT_PREFIX :: "str list" where
  "CONT_PREFIX =
      [[37027, 20320, 20808], [37027, 23601, 20808], [20320, 20808], [20808, 36827, 34892],
       [20808, 36305], [20808, 20570], [20808, 22791, 20221], [20808, 22238, 31572],
       [20808, 23558], [25509, 30528], [32487, 32493], [28982, 21518], [37027, 29616, 22312],
       [22909, 30340, 37027], [37027, 20320, 32487, 32493]]"

text \<open>A character that matches an ASCII letter when case is ignored.\<close>

definition same_letter :: "uchar \<Rightarrow> uchar \<Rightarrow> bool" where
  "same_letter p c \<longleftrightarrow> c = p \<or> 97 \<le> p \<and> p \<le> 122 \<and> c + 32 = p \<or>
     p = 115 \<and> c = 383 \<or> p = 105 \<and> (c = 304 \<or> c = 305)"

definition starts_with_word :: "str \<Rightarrow> str \<Rightarrow> bool" where
  "starts_with_word t w \<longleftrightarrow> length w \<le> length t \<and> list_all2 same_letter w (take (length w) t)"

definition is_command :: "unicode \<Rightarrow> str \<Rightarrow> bool" where
  "is_command uni t \<longleftrightarrow>
     list_ex (starts_with_word t)
       [lit ''stop'', lit ''done'', lit ''parallel'', lit ''session'', lit ''board'', lit ''!'', lit ''/'',
        lit ''model''] \<or>
     (case t of a # b # _ \<Rightarrow> (same_letter 113 a \<or> a = 35) \<and> is_decimal uni b | _ \<Rightarrow> False)"

datatype user_class = Filler | Continuation | Rework | Correction | Fresh

definition user_class_of :: "unicode \<Rightarrow> str \<Rightarrow> user_class" where
  "user_class_of uni t =
     (let t = norm_text (strip_feishu uni t) in
      if t = [] \<or> py_contains (py_lower t) (lit ''messagewasrecalled'') \<or>
         list_ex (starts_with t) [lit ''ssh-ed25519'', lit ''ssh-rsa''] then Filler
      else if is_command uni t then Filler
      else if t \<in> set FILLER \<or>
              length t \<le> 3 \<and> \<not> list_ex (\<lambda>c. c \<in> set t) [24590, 22914, 20309, 20026, 20160, 21527, 20040]
      then Filler
      else if list_ex (py_contains t) CORRECTION then Correction
      else if list_ex (py_contains t) REWORK then Rework
      else if list_ex (starts_with t) CONT_PREFIX \<and> (length t \<le> 16 \<or> ends_with t [21543])
      then Continuation
      else Fresh)"

section \<open>Terms\<close>

datatype topic_term = StrongTerm str | WeakTerm str

definition STOP_BIGRAMS :: "str list" where
  "STOP_BIGRAMS =
      [[36825, 20010], [37027, 20010], [19968, 19979], [19968, 20010], [21487, 20197],
       [20160, 20040], [24590, 20040], [27809, 26377], [23601, 26159], [24050, 32463],
       [29616, 22312], [36824, 26159], [20173, 28982], [19981, 26159], [19981, 23545],
       [36824, 26377], [25105, 20204], [20320, 20204], [20182, 20204], [22240, 20026],
       [25152, 20197], [20294, 26159], [22914, 26524], [25110, 32773], [36825, 26679],
       [37027, 26679], [30693, 36947], [35273, 24471], [24212, 35813], [36825, 37324],
       [37027, 37324], [30475, 19979], [30475, 30475], [30446, 21069], [28982, 21518],
       [32487, 32493], [20808, 20570], [19968, 26679], [37325, 26032], [25630, 38169]]"

text \<open>The maximal runs of characters of a class.\<close>

function runs :: "(uchar \<Rightarrow> bool) \<Rightarrow> str \<Rightarrow> str list" where
  "runs p [] = []"
| "runs p (c # s) =
     (if p c then (c # takeWhile p s) # runs p (dropWhile p s) else runs p s)"
  by pat_completeness auto
termination
  by (relation "measure (\<lambda>(_, s). length s)") (auto simp: length_dropWhile_le le_imp_less_Suc)

definition long_runs :: "(uchar \<Rightarrow> bool) \<Rightarrow> str \<Rightarrow> str list" where
  "long_runs p s = filter (\<lambda>r. 2 \<le> length r) (runs p s)"

fun bigrams :: "str \<Rightarrow> str list" where
  "bigrams (a # b # s) = [a, b] # bigrams (b # s)"
| "bigrams _ = []"

definition is_token_char :: "uchar \<Rightarrow> bool" where
  "is_token_char c \<longleftrightarrow> 97 \<le> c \<and> c \<le> 122 \<or> 48 \<le> c \<and> c \<le> 57 \<or> c = 95"

definition is_cjk :: "uchar \<Rightarrow> bool" where
  "is_cjk c \<longleftrightarrow> 19968 \<le> c \<and> c \<le> 40959"

definition is_quote :: "uchar \<Rightarrow> bool" where
  "is_quote c \<longleftrightarrow> c \<in> {34, 39, 8216, 8217, 8220, 8221}"

definition terms :: "unicode \<Rightarrow> str \<Rightarrow> topic_term list" where
  "terms uni s =
     (let t = strip_feishu uni s in
      remdups (map StrongTerm (long_runs is_token_char (py_lower t)) @
        (if long_runs is_quote t \<noteq> [] then [StrongTerm (lit ''__quote__'')] else []) @
        map WeakTerm (filter (\<lambda>bg. bg \<notin> set STOP_BIGRAMS) (concat (map bigrams (long_runs is_cjk t))))))"

definition score :: "topic_term list \<Rightarrow> topic_term list \<Rightarrow> nat" where
  "score a b =
     sum_list (map (\<lambda>x. case x of StrongTerm _ \<Rightarrow> 2 | WeakTerm _ \<Rightarrow> 1) (filter (\<lambda>x. x \<in> set b) a))"

end
