(* ===== verification/Task_Stitch.thy ===== *)
theory Task_Stitch
  imports Union_Find Event_Text
begin

text \<open>
  Cutting the history of a group chat into tasks without a language model, from
  \<^verbatim>\<open>trajectory_extract/task_stitch.py\<close>: \<^verbatim>\<open>atomic_segments\<close>, \<^verbatim>\<open>segment_history\<close> and
  \<^verbatim>\<open>compute_terminal\<close>.  The similarity of a reply and the segment it replies to comes from an
  embedding service and is the parameter \<open>sim_fn\<close>; \<open>reply_floor\<close> is the configured threshold.
\<close>

section \<open>Atomic segments\<close>

record 'r segment =
  seg_topic :: str
  seg_rows :: "'r event list"

definition is_bot :: "'r event \<Rightarrow> bool" where
  "is_bot e \<longleftrightarrow> ev_role e = lit ''bot''"

definition is_user :: "'r event \<Rightarrow> bool" where
  "is_user e \<longleftrightarrow> ev_role e = lit ''user''"

abbreviation noise :: "'r event \<Rightarrow> bool" where
  "noise e \<equiv> is_noise (ev_text e)"

text \<open>The label of a bot carries forward to the messages after it.\<close>

fun eff_topics :: "str \<Rightarrow> 'r event list \<Rightarrow> str list" where
  "eff_topics prev [] = []"
| "eff_topics prev (e # evs) =
     (let tp = (if is_bot e then topic_of (ev_text e) else []);
          prev = (if tp \<noteq> [] then tp else prev)
      in (if prev \<noteq> [] then prev else lit ''?'') # eff_topics prev evs)"

text \<open>The current segment is the last one; \<open>nxt\<close> is the label in force at the next message.\<close>

definition starts_segment ::
    "rat \<Rightarrow> rat option \<Rightarrow> 'r segment list \<Rightarrow> 'r event \<Rightarrow> str \<Rightarrow> str \<Rightarrow> bool" where
  "starts_segment gap prev segs e tp nxt =
     (let g = (case prev of Some t \<Rightarrow> ev_ts e - t | None \<Rightarrow> 0) in
      segs = [] \<or> gap \<le> g \<or> tp \<noteq> seg_topic (last segs) \<and> tp \<noteq> lit ''?'' \<and> nxt = tp)"

definition add_row :: "bool \<Rightarrow> str \<Rightarrow> 'r event \<Rightarrow> 'r segment list \<Rightarrow> 'r segment list" where
  "add_row new tp e segs =
     (if new then segs @ [\<lparr> seg_topic = tp, seg_rows = [e] \<rparr>]
      else butlast segs @ [(last segs)\<lparr> seg_rows := seg_rows (last segs) @ [e] \<rparr>])"

fun cut_loop ::
    "rat \<Rightarrow> rat option \<Rightarrow> 'r segment list \<Rightarrow> ('r event \<times> str) list \<Rightarrow> 'r segment list" where
  "cut_loop gap prev segs [] = segs"
| "cut_loop gap prev segs ((e, tp) # rest) =
     (let nxt = (case rest of (_, n) # _ \<Rightarrow> n | [] \<Rightarrow> tp) in
      cut_loop gap (Some (ev_ts e)) (add_row (starts_segment gap prev segs e tp nxt) tp e segs) rest)"

definition cut_segments :: "rat \<Rightarrow> 'r event list \<Rightarrow> 'r segment list" where
  "cut_segments gap evs = cut_loop gap None [] (zip evs (eff_topics [] evs))"

definition SUSPICIOUS_REPLY_GAP :: rat where
  "SUSPICIOUS_REPLY_GAP = 24 * 3600"

definition segment_real_topic :: "'r segment \<Rightarrow> str" where
  "segment_real_topic s = (if seg_topic s = lit ''?'' then [] else seg_topic s)"

definition should_strong_stitch_by_reply ::
    "rat \<Rightarrow> ('r event \<Rightarrow> 'r segment \<Rightarrow> rat option) option \<Rightarrow> 'r segment \<Rightarrow> 'r segment \<Rightarrow>
     'r event \<Rightarrow> 'r event \<Rightarrow> bool" where
  "should_strong_stitch_by_reply reply_floor sim_fn cur_seg parent_seg child_event parent_event =
     (let cur_topic = segment_real_topic cur_seg;
          parent_topic = segment_real_topic parent_seg in
      if cur_topic = [] \<or> parent_topic = [] \<or> cur_topic = parent_topic then True
      else
        (case (case sim_fn of Some f \<Rightarrow> f child_event parent_seg | None \<Rightarrow> None) of
           Some sim \<Rightarrow> reply_floor \<le> sim
         | None \<Rightarrow> \<bar>ev_ts child_event - ev_ts parent_event\<bar> < SUSPICIOUS_REPLY_GAP))"

definition seg_of :: "'r segment list \<Rightarrow> str \<Rightarrow> nat option" where
  "seg_of segs =
     map_of (rev (concat (map (\<lambda>(si, s). map (\<lambda>e. (ev_msg_id e, si)) (seg_rows s))
       (enumerate 0 segs))))"

definition event_by_msg :: "'r event list \<Rightarrow> str \<Rightarrow> 'r event option" where
  "event_by_msg evs =
     map_of (rev (map (\<lambda>e. (ev_msg_id e, e)) (filter (\<lambda>e. ev_msg_id e \<noteq> []) evs)))"

text \<open>
  The reply edges between segments, parent first.  Every event is in a segment, so its own
  segment is always found.
\<close>

definition reply_edge ::
    "rat \<Rightarrow> ('r event \<Rightarrow> 'r segment \<Rightarrow> rat option) option \<Rightarrow> 'r segment list \<Rightarrow> 'r event list \<Rightarrow>
     'r event \<Rightarrow> (nat \<times> nat \<times> bool) option" where
  "reply_edge reply_floor sim_fn segs evs e =
     (let p = ev_parent_id e in
      if p = [] then None
      else
        (case (seg_of segs p, seg_of segs (ev_msg_id e)) of
           (Some parent_si, Some child_si) \<Rightarrow>
             Some (parent_si, child_si,
               (case event_by_msg evs p of
                  None \<Rightarrow> True
                | Some parent_ev \<Rightarrow>
                    should_strong_stitch_by_reply reply_floor sim_fn (segs ! child_si)
                      (segs ! parent_si) e parent_ev))
         | _ \<Rightarrow> None))"

definition reply_edges ::
    "rat \<Rightarrow> ('r event \<Rightarrow> 'r segment \<Rightarrow> rat option) option \<Rightarrow> 'r segment list \<Rightarrow> 'r event list \<Rightarrow>
     (nat \<times> nat \<times> bool) list" where
  "reply_edges reply_floor sim_fn segs evs =
     List.map_filter (reply_edge reply_floor sim_fn segs evs) evs"

definition finish_segments :: "'r event list list \<Rightarrow> 'r event list list" where
  "finish_segments classes =
     sort_key (\<lambda>c. ev_ts (hd c))
       (filter (\<lambda>rows. \<not> list_all noise rows) (map (sort_key ev_ts) classes))"

definition atomic_segments ::
    "rat \<Rightarrow> ('r event \<Rightarrow> 'r segment \<Rightarrow> rat option) option \<Rightarrow> rat \<Rightarrow> 'r event list \<Rightarrow>
     'r event list list option" where
  "atomic_segments reply_floor sim_fn gap evs =
     (if evs = [] then Some []
      else
        (let segs = cut_segments gap evs in
         map_option finish_segments
           (merge_segments (reply_edges reply_floor sim_fn segs evs) (map seg_rows segs))))"

section \<open>The fallback segmentation\<close>

definition cluster_terms :: "unicode \<Rightarrow> 'r event list \<Rightarrow> topic_term list" where
  "cluster_terms uni cl =
     remdups (concat (map (\<lambda>e. terms uni (ev_text e)) (filter (\<lambda>e. \<not> noise e) cl)))"

definition term_edges :: "unicode \<Rightarrow> 'r event list list \<Rightarrow> (nat \<times> nat \<times> bool) list" where
  "term_edges uni clusters =
     map (\<lambda>i.
       let cl1 = clusters ! i; cl2 = clusters ! Suc i;
           overlap = filter (\<lambda>t. t \<in> set (cluster_terms uni cl2)) (cluster_terms uni cl1)
       in (i, Suc i, ev_ts (hd cl2) - ev_ts (last cl1) \<le> 1200 \<and> 4 \<le> score overlap overlap))
       [0..<length clusters - 1]"

definition segment_history ::
    "rat \<Rightarrow> unicode \<Rightarrow> rat \<Rightarrow> 'r event list \<Rightarrow> 'r event list list option" where
  "segment_history reply_floor uni gap evs =
     Option.bind (atomic_segments reply_floor None gap evs) (\<lambda>clusters.
       map_option (map (sort_key ev_ts)) (merge_segments (term_edges uni clusters) clusters))"

section \<open>Which task is still open\<close>

definition last_ts :: "'r event list \<Rightarrow> rat" where
  "last_ts cl = Max (set (map ev_ts cl))"

text \<open>\<^verbatim>\<open>max(range(len(clusters)), key=\<dots>)\<close>: the first index with the greatest key.\<close>

fun argmax :: "('a \<Rightarrow> 'k::linorder) \<Rightarrow> 'a \<Rightarrow> 'a list \<Rightarrow> 'a" where
  "argmax f best [] = best"
| "argmax f best (x # xs) = argmax f (if f best < f x then x else best) xs"

definition resolved :: "unicode \<Rightarrow> 'r event list \<Rightarrow> bool" where
  "resolved uni cl =
     (case List.find (\<lambda>e. \<not> noise e) (sort_key (\<lambda>e. - ev_ts e) cl) of
        None \<Rightarrow> False
      | Some e \<Rightarrow>
          is_user e \<and> list_ex (py_contains (norm_text (strip_feishu uni (ev_text e)))) CLOSURE)"

text \<open>The maximum of an empty cluster is an error of the interpreter, \<^const>\<open>None\<close>.\<close>

definition compute_terminal :: "unicode \<Rightarrow> 'r event list list \<Rightarrow> bool list option" where
  "compute_terminal uni clusters =
     (if clusters = [] then Some []
      else if [] \<in> set clusters then None
      else
        (let latest = argmax (\<lambda>i. last_ts (clusters ! i)) 0 [1..<length clusters]
         in Some ((replicate (length clusters) True)
              [latest := resolved uni (clusters ! latest)])))"

section \<open>The first pass keeps the history in order\<close>

abbreviation close_rows :: "rat \<Rightarrow> 'r event list \<Rightarrow> bool" where
  "close_rows gap \<equiv> successively (\<lambda>a b. ev_ts b - ev_ts a < gap)"

lemma length_eff_topics [simp]: "length (eff_topics prev evs) = length evs"
  by (induction evs arbitrary: prev) (simp_all add: Let_def)

lemma starts_segment_empty [simp]: "starts_segment gap prev [] e tp nxt"
  by (simp add: starts_segment_def)

lemma concat_add_row:
  "segs \<noteq> [] \<or> new \<Longrightarrow>
   concat (map seg_rows (add_row new tp e segs)) = concat (map seg_rows segs) @ [e]"
  by (cases segs rule: rev_cases) (auto simp: add_row_def)

lemma cut_loop_concat:
  "concat (map seg_rows (cut_loop gap prev segs ps)) = concat (map seg_rows segs) @ map fst ps"
proof (induction gap prev segs ps rule: cut_loop.induct)
  case (2 gap prev segs e tp rest)
  then show ?case by (cases "segs = []") (simp_all add: Let_def concat_add_row)
qed simp

lemma add_row_close:
  assumes "\<And>s. s \<in> set segs \<Longrightarrow> seg_rows s \<noteq> [] \<and> close_rows gap (seg_rows s)"
    and "\<not> new \<Longrightarrow> segs \<noteq> [] \<and> ev_ts e - ev_ts (last (seg_rows (last segs))) < gap"
    and "s \<in> set (add_row new tp e segs)"
  shows "seg_rows s \<noteq> [] \<and> close_rows gap (seg_rows s)"
  using assms
  by (cases segs rule: rev_cases)
    (auto simp: add_row_def successively_append_iff split: if_splits)

lemma last_add_row: "add_row new tp e segs \<noteq> [] \<and> last (seg_rows (last (add_row new tp e segs))) = e"
  by (simp add: add_row_def)

lemma cut_loop_close:
  assumes "\<And>s. s \<in> set segs \<Longrightarrow> seg_rows s \<noteq> [] \<and> close_rows gap (seg_rows s)"
    and "segs \<noteq> [] \<Longrightarrow> prev = Some (ev_ts (last (seg_rows (last segs))))"
    and "s \<in> set (cut_loop gap prev segs ps)"
  shows "seg_rows s \<noteq> [] \<and> close_rows gap (seg_rows s)"
  using assms
proof (induction gap prev segs ps rule: cut_loop.induct)
  case (2 gap prev segs e tp rest)
  define nxt where "nxt = (case rest of (_, n) # _ \<Rightarrow> n | [] \<Rightarrow> tp)"
  define new where "new = starts_segment gap prev segs e tp nxt"
  have "\<not> new \<Longrightarrow> segs \<noteq> [] \<and> ev_ts e - ev_ts (last (seg_rows (last segs))) < gap"
    using "2.prems"(2) by (auto simp: new_def starts_segment_def not_le)
  note rows = add_row_close [OF "2.prems"(1) this]
  show ?case
    by (rule "2.IH" [OF nxt_def, folded new_def])
      (use rows "2.prems"(3) in \<open>auto simp: last_add_row new_def nxt_def Let_def\<close>)
qed simp

lemma cut_segments_concat [simp]: "concat (map seg_rows (cut_segments gap evs)) = evs"
  by (simp add: cut_segments_def cut_loop_concat)

lemma cut_segments_close:
  "s \<in> set (cut_segments gap evs) \<Longrightarrow> seg_rows s \<noteq> [] \<and> close_rows gap (seg_rows s)"
  unfolding cut_segments_def by (rule cut_loop_close) auto

section \<open>The reply edges stay inside the table\<close>

lemma seg_of_bound: "seg_of segs m = Some si \<Longrightarrow> si < length segs"
  by (auto simp: seg_of_def dest!: map_of_SomeD simp: in_set_enumerate_eq)

lemma seg_of_own:
  assumes "s \<in> set segs" "e \<in> set (seg_rows s)"
  shows "seg_of segs (ev_msg_id e) \<noteq> None"
proof -
  obtain i where "i < length segs" "segs ! i = s" using assms(1) by (auto simp: in_set_conv_nth)
  then have "(i, s) \<in> set (enumerate 0 segs)" by (simp add: in_set_enumerate_eq)
  then have "ev_msg_id e \<in> fst ` set (concat (map (\<lambda>(si, s). map (\<lambda>e. (ev_msg_id e, si)) (seg_rows s))
      (enumerate 0 segs)))"
    using assms(2) by force
  then show ?thesis by (simp add: seg_of_def map_of_eq_None_iff)
qed

lemma in_map_filter: "y \<in> set (List.map_filter f xs) \<longleftrightarrow> (\<exists>x \<in> set xs. f x = Some y)"
  by (force simp: map_filter_def)

lemma reply_edge_bound:
  "reply_edge reply_floor sim_fn segs evs e = Some (p, c, s) \<Longrightarrow> p < length segs \<and> c < length segs"
  by (cases "seg_of segs (ev_parent_id e)"; cases "seg_of segs (ev_msg_id e)")
    (auto simp: reply_edge_def Let_def seg_of_bound split: if_splits)

lemma reply_edges_bound:
  "(p, c, s) \<in> set (reply_edges reply_floor sim_fn segs evs) \<Longrightarrow> p < length segs \<and> c < length segs"
  by (auto simp: reply_edges_def in_map_filter dest: reply_edge_bound)

lemma term_edges_bound:
  "(p, c, s) \<in> set (term_edges uni clusters) \<Longrightarrow> p < length clusters \<and> c < length clusters"
  by (auto simp: term_edges_def Let_def)

section \<open>The second pass is the closure of the reply relation\<close>

definition reply_relation ::
    "rat \<Rightarrow> ('r event \<Rightarrow> 'r segment \<Rightarrow> rat option) option \<Rightarrow> rat \<Rightarrow> 'r event list \<Rightarrow> (nat \<times> nat) set" where
  "reply_relation reply_floor sim_fn gap evs =
     strong_edges (reply_edges reply_floor sim_fn (cut_segments gap evs) evs)"

definition reply_classes ::
    "rat \<Rightarrow> ('r event \<Rightarrow> 'r segment \<Rightarrow> rat option) option \<Rightarrow> rat \<Rightarrow> 'r event list \<Rightarrow>
     'r event list list" where
  "reply_classes reply_floor sim_fn gap evs =
     (let segs = map seg_rows (cut_segments gap evs);
          R = reply_relation reply_floor sim_fn gap evs
      in map (class_rows R segs) (class_leaders R (length segs)))"

lemma cut_segments_Nil [simp]: "cut_segments gap [] = []"
  by (simp add: cut_segments_def)

lemma merge_reply_edges:
  "merge_segments (reply_edges reply_floor sim_fn (cut_segments gap evs) evs)
     (map seg_rows (cut_segments gap evs)) = Some (reply_classes reply_floor sim_fn gap evs)"
  "mset (concat (reply_classes reply_floor sim_fn gap evs)) = mset evs"
proof -
  let ?segs = "map seg_rows (cut_segments gap evs)"
  let ?es = "reply_edges reply_floor sim_fn (cut_segments gap evs) evs"
  have "\<And>p c s. (p, c, s) \<in> set ?es \<Longrightarrow> p < length ?segs \<and> c < length ?segs"
    using reply_edges_bound by simp
  note classes = merge_segments_classes [of ?es ?segs, OF this, folded reply_relation_def]
  show "merge_segments (reply_edges reply_floor sim_fn (cut_segments gap evs) evs) ?segs =
      Some (reply_classes reply_floor sim_fn gap evs)"
    using classes(1) by (simp add: reply_classes_def Let_def)
  show "mset (concat (reply_classes reply_floor sim_fn gap evs)) = mset evs"
    using classes(2) by (simp add: reply_classes_def Let_def)
qed

lemma finish_segments_Nil [simp]: "finish_segments [] = []"
  by (simp add: finish_segments_def)

lemma atomic_segments_finish:
  "atomic_segments reply_floor sim_fn gap evs =
   Some (finish_segments (reply_classes reply_floor sim_fn gap evs))"
  by (simp add: atomic_segments_def Let_def merge_reply_edges)
    (simp add: reply_classes_def Let_def class_leaders_def)

lemma mset_concat_sort: "mset (concat (map (sort_key f) xss)) = mset (concat xss)"
  by (induction xss) simp_all






section \<open>The open task\<close>

lemma argmax_first:
  assumes "\<And>x. x \<in> set xs \<Longrightarrow> (b::nat) < x" "sorted_wrt (<) xs"
  shows "argmax f b xs \<in> set (b # xs) \<and>
    (\<forall>x \<in> set (b # xs). f x \<le> f (argmax f b xs) \<and> (x < argmax f b xs \<longrightarrow> f x < f (argmax f b xs)))"
  using assms
proof (induction xs arbitrary: b)
  case (Cons x xs)
  let ?b = "if f b < f x then x else b" and ?m = "argmax f b (x # xs)"
  have IH: "?m \<in> set (?b # xs)" "f ?b \<le> f ?m" "?b < ?m \<longrightarrow> f ?b < f ?m"
      "\<forall>y \<in> set xs. f y \<le> f ?m \<and> (y < ?m \<longrightarrow> f y < f ?m)"
    using Cons.IH [of ?b] Cons.prems by auto
  have later: "y \<in> set xs \<Longrightarrow> x < y \<and> b < y" for y using Cons.prems by auto
  have "b < x" using Cons.prems(1) by simp
  then show ?case using IH later
    by (cases "f b < f x") (auto simp: not_less intro: order.trans less_le_trans le_less_trans)
qed simp

lemma find_insort_key:
  assumes "sorted (map f ys)"
  shows "List.find P (insort_key f x ys) =
    (if P x then (case List.find P ys of Some y \<Rightarrow> if f y < f x then Some y else Some x | None \<Rightarrow> Some x)
     else List.find P ys)"
  using assms
proof (induction ys)
  case (Cons y ys)
  have "f x \<le> f z" if "f x \<le> f y" "List.find P ys = Some z" for z
  proof -
    have "z \<in> set ys" using that(2) by (auto simp: find_Some_iff)
    then show ?thesis using Cons.prems that(1) by auto
  qed
  then show ?case using Cons by (auto split: option.split)
qed simp

text \<open>The latest message satisfying \<open>P\<close>, the first of them on a tie.\<close>

definition latest_is :: "('r event \<Rightarrow> bool) \<Rightarrow> 'r event list \<Rightarrow> 'r event \<Rightarrow> bool" where
  "latest_is P cl e \<longleftrightarrow> (\<exists>before after. cl = before @ e # after \<and> P e \<and>
     (\<forall>x \<in> set before. P x \<longrightarrow> ev_ts x < ev_ts e) \<and> (\<forall>y \<in> set after. P y \<longrightarrow> ev_ts y \<le> ev_ts e))"

lemma latest_is_Cons:
  "latest_is P (x # cl) e \<longleftrightarrow>
   e = x \<and> P x \<and> (\<forall>y \<in> set cl. P y \<longrightarrow> ev_ts y \<le> ev_ts x) \<or>
   latest_is P cl e \<and> (P x \<longrightarrow> ev_ts x < ev_ts e)" (is "_ \<longleftrightarrow> ?first \<or> ?later")
proof
  assume "latest_is P (x # cl) e"
  then obtain before after where "x # cl = before @ e # after" "P e"
      "\<forall>x \<in> set before. P x \<longrightarrow> ev_ts x < ev_ts e" "\<forall>y \<in> set after. P y \<longrightarrow> ev_ts y \<le> ev_ts e"
    by (auto simp: latest_is_def)
  then show "?first \<or> ?later" by (cases before) (auto simp: latest_is_def)
next
  assume "?first \<or> ?later"
  then show "latest_is P (x # cl) e"
  proof
    assume ?first
    then show ?thesis unfolding latest_is_def by (intro exI [of _ "[]"] exI [of _ cl]) simp
  next
    assume ?later
    then obtain before after where "cl = before @ e # after" "P e" "P x \<longrightarrow> ev_ts x < ev_ts e"
        "\<forall>x \<in> set before. P x \<longrightarrow> ev_ts x < ev_ts e" "\<forall>y \<in> set after. P y \<longrightarrow> ev_ts y \<le> ev_ts e"
      by (auto simp: latest_is_def)
    then show ?thesis unfolding latest_is_def by (intro exI [of _ "x # before"] exI [of _ after]) simp
  qed
qed

lemma latest_is_None: "\<forall>y \<in> set cl. \<not> P y \<Longrightarrow> \<not> latest_is P cl e"
  by (auto simp: latest_is_def)

lemma latest_is_greatest: "latest_is P cl e \<Longrightarrow> y \<in> set cl \<Longrightarrow> P y \<Longrightarrow> ev_ts y \<le> ev_ts e"
  by (force simp: latest_is_def)

lemma find_latest:
  "List.find P (sort_key (\<lambda>e. - ev_ts e) cl) = Some e \<longleftrightarrow> latest_is P cl e"
  "List.find P (sort_key (\<lambda>e. - ev_ts e) cl) = None \<longleftrightarrow> (\<forall>y \<in> set cl. \<not> P y)"
proof (induction cl arbitrary: e)
  case (Cons x cl)
  let ?r = "List.find P (sort_key (\<lambda>e. - ev_ts e) cl)"
  have step: "List.find P (sort_key (\<lambda>e. - ev_ts e) (x # cl)) =
    (if P x then (case ?r of Some y \<Rightarrow> if ev_ts x < ev_ts y then Some y else Some x | None \<Rightarrow> Some x)
     else ?r)"
    by (simp add: find_insort_key split: option.split)
  {
    case 1
    show ?case
    proof (cases ?r)
      case None
      then show ?thesis using Cons.IH(2) latest_is_None [of cl P]
        unfolding step latest_is_Cons by auto
    next
      case (Some y)
      then have y: "latest_is P cl y" using Cons.IH(1) by simp
      then have "P y" "y \<in> set cl" by (auto simp: latest_is_def)
      then have "(\<forall>z \<in> set cl. P z \<longrightarrow> ev_ts z \<le> ev_ts x) \<longleftrightarrow> ev_ts y \<le> ev_ts x"
        using latest_is_greatest [OF y] by (auto intro: order.trans)
      moreover have "latest_is P cl e \<longleftrightarrow> e = y" using Cons.IH(1) [of e] Some by auto
      ultimately show ?thesis using Some unfolding step latest_is_Cons by auto
    qed
  next
    case 2
    show ?case using Cons.IH(2) unfolding step by (auto split: option.split)
  }
qed (auto simp: latest_is_def)

lemma resolved_latest:
  "resolved uni cl \<longleftrightarrow>
   (\<exists>e. latest_is (\<lambda>e. \<not> noise e) cl e \<and> is_user e \<and>
      list_ex (py_contains (norm_text (strip_feishu uni (ev_text e)))) CLOSURE)"
  unfolding resolved_def find_latest(1) [of "\<lambda>e. \<not> noise e" cl, symmetric]
  by (auto split: option.split)

section \<open>What the segmentation guarantees\<close>


text \<open>
  C6. The segments are the classes of the closure of the reply relation.  The first pass splits
  the history into consecutive blocks without a pause of \<open>gap\<close> seconds inside a block; the
  second one returns, for each class of blocks connected by strong replies, all the messages of
  the class.  The union-find structure with path halving computes this closure.
\<close>

theorem atomic_segments_closure:
  "atomic_segments reply_floor sim_fn gap evs =
     (let blocks = map seg_rows (cut_segments gap evs);
          R = reply_relation reply_floor sim_fn gap evs;
          leaders = filter (\<lambda>i. \<forall>j < i. (j, i) \<notin> (R \<union> R\<inverse>)\<^sup>*) [0..<length blocks];
          members = (\<lambda>i. filter (\<lambda>j. (j, i) \<in> (R \<union> R\<inverse>)\<^sup>*) [0..<length blocks])
      in Some (finish_segments (map (\<lambda>i. concat (map ((!) blocks) (members i))) leaders))) \<and>
   concat (map seg_rows (cut_segments gap evs)) = evs \<and>
   list_all (\<lambda>s. seg_rows s \<noteq> [] \<and>
     successively (\<lambda>a b. ev_ts b - ev_ts a < gap) (seg_rows s)) (cut_segments gap evs)"
proof -
  have "reply_classes reply_floor sim_fn gap evs =
     (let blocks = map seg_rows (cut_segments gap evs);
          R = reply_relation reply_floor sim_fn gap evs;
          leaders = filter (\<lambda>i. \<forall>j < i. (j, i) \<notin> (R \<union> R\<inverse>)\<^sup>*) [0..<length blocks];
          members = (\<lambda>i. filter (\<lambda>j. (j, i) \<in> (R \<union> R\<inverse>)\<^sup>*) [0..<length blocks])
      in map (\<lambda>i. concat (map ((!) blocks) (members i))) leaders)"
    unfolding reply_classes_def class_rows_def class_leaders_def conn_def Let_def ..
  then show ?thesis
    by (simp add: atomic_segments_finish Let_def list_all_iff cut_segments_close)
qed

text \<open>
  The fallback segmentation always returns and keeps exactly the messages of the atomic
  segments, each cluster in the order of time.
\<close>

theorem segment_history_conserves:
  "\<exists>atoms clusters. atomic_segments reply_floor None gap evs = Some atoms \<and>
     segment_history reply_floor uni gap evs = Some clusters \<and>
     mset (concat clusters) = mset (concat atoms) \<and>
     list_all (\<lambda>rows. sorted (map ev_ts rows)) clusters"
proof -
  let ?atoms = "finish_segments (reply_classes reply_floor None gap evs)"
  have "\<And>p c s. (p, c, s) \<in> set (term_edges uni ?atoms) \<Longrightarrow> p < length ?atoms \<and> c < length ?atoms"
    by (rule term_edges_bound)
  then obtain rows where "merge_segments (term_edges uni ?atoms) ?atoms = Some rows"
      "mset (concat rows) = mset (concat ?atoms)"
    using merge_segments_classes [of "term_edges uni ?atoms" ?atoms] by blast
  then show ?thesis
    by (simp add: segment_history_def atomic_segments_finish mset_concat_sort list_all_iff)
qed

text \<open>
  C26. At most one task is open: every cluster is terminal but the one touched last, the first of
  them on a tie, and that one is terminal exactly when its latest message that is not noise is
  from a user and has a closing phrase.
\<close>

theorem compute_terminal_one_open:
  assumes "clusters \<noteq> []" "[] \<notin> set clusters"
  shows "\<exists>out i. compute_terminal uni clusters = Some out \<and> length out = length clusters \<and>
    i < length clusters \<and>
    (\<forall>j < length clusters. last_ts (clusters ! j) \<le> last_ts (clusters ! i) \<and>
       (j < i \<longrightarrow> last_ts (clusters ! j) < last_ts (clusters ! i)) \<and>
       (out ! j \<longleftrightarrow> j \<noteq> i \<or>
          (\<exists>e. latest_is (\<lambda>e. \<not> noise e) (clusters ! i) e \<and> is_user e \<and>
             list_ex (py_contains (norm_text (strip_feishu uni (ev_text e)))) CLOSURE)))"
proof -
  let ?n = "length clusters"
  define i where "i = argmax (\<lambda>i. last_ts (clusters ! i)) 0 [1..<?n]"
  have all: "set (0 # [1..<?n]) = {..<?n}" using assms(1) by auto
  have "i \<in> set (0 # [1..<?n]) \<and> (\<forall>j \<in> set (0 # [1..<?n]). last_ts (clusters ! j) \<le> last_ts (clusters ! i) \<and>
      (j < i \<longrightarrow> last_ts (clusters ! j) < last_ts (clusters ! i)))"
    unfolding i_def by (rule argmax_first) (auto simp: sorted_wrt_upt)
  then have i: "i < ?n" "\<forall>j < ?n. last_ts (clusters ! j) \<le> last_ts (clusters ! i) \<and>
      (j < i \<longrightarrow> last_ts (clusters ! j) < last_ts (clusters ! i))"
    unfolding all by auto
  have "compute_terminal uni clusters =
      Some ((replicate ?n True)[i := resolved uni (clusters ! i)])"
    using assms by (simp add: compute_terminal_def i_def Let_def)
  with i show ?thesis
    by (intro exI [of _ "(replicate ?n True)[i := resolved uni (clusters ! i)]"] exI [of _ i])
      (auto simp: nth_list_update resolved_latest)
qed

section \<open>A concrete history\<close>

definition ascii :: unicode where
  "ascii =
     \<lparr> is_word = (\<lambda>c. 97 \<le> c \<and> c \<le> 122 \<or> 65 \<le> c \<and> c \<le> 90 \<or> 48 \<le> c \<and> c \<le> 57 \<or> c = 95),
       is_decimal = (\<lambda>c. 48 \<le> c \<and> c \<le> 57) \<rparr>"

definition message :: "rat \<Rightarrow> string \<Rightarrow> string \<Rightarrow> string \<Rightarrow> string \<Rightarrow> unit event" where
  "message ts role mid pid txt =
     \<lparr> ev_ts = ts, ev_role = lit role, ev_name = lit ''name'', ev_msg_id = lit mid,
       ev_parent_id = lit pid, ev_text = lit txt, ev_rest = () \<rparr>"

theorem compute_terminal_one_open_witness:
  "compute_terminal ascii
     [[message 0 ''user'' ''a'' [] ''build the report''],
      [message 5 ''user'' ''b'' [] ''deploy it'', message 9 ''user'' ''c'' [] ''done'']] =
   Some [True, True] \<and>
   compute_terminal ascii
     [[message 0 ''user'' ''a'' [] ''build the report''],
      [message 5 ''user'' ''b'' [] ''deploy it'', message 9 ''bot'' ''c'' [] ''done'']] =
   Some [True, False] \<and>
   (\<exists>out. compute_terminal ascii
     [[message 0 ''user'' ''a'' [] ''build the report''],
      [message 5 ''user'' ''b'' [] ''deploy it'', message 9 ''user'' ''c'' [] ''done'']] = Some out \<and>
      length out = 2)"
proof (intro conjI)
  show "\<exists>out. compute_terminal ascii
     [[message 0 ''user'' ''a'' [] ''build the report''],
      [message 5 ''user'' ''b'' [] ''deploy it'', message 9 ''user'' ''c'' [] ''done'']] = Some out \<and>
      length out = 2"
    using compute_terminal_one_open [of
        "[[message 0 ''user'' ''a'' [] ''build the report''],
          [message 5 ''user'' ''b'' [] ''deploy it'', message 9 ''user'' ''c'' [] ''done'']]" ascii]
    by auto
qed code_simp+

text \<open>A reply to the first message joins its segment after a pause of an hour; the second stays alone.\<close>

definition late_reply :: "unit event list" where
  "late_reply =
     [message 0 ''user'' ''a'' [] ''build the report'', message 3000 ''user'' ''b'' [] ''deploy it'',
      message 9000 ''user'' ''c'' ''a'' ''rename it'']"

theorem atomic_segments_closure_witness:
  "map_option (map (map ev_msg_id)) (atomic_segments (3/5) None 2400 late_reply) =
     Some [[lit ''a'', lit ''c''], [lit ''b'']] \<and>
   concat (map seg_rows (cut_segments 2400 late_reply)) = late_reply"
proof
  show "concat (map seg_rows (cut_segments 2400 late_reply)) = late_reply"
    using atomic_segments_closure [of "3/5" None 2400 late_reply] by blast
qed code_simp

end
