(* ===== verification/Task_Decompose.thy ===== *)
theory Task_Decompose
  imports Task_Stitch "HOL-Library.List_Lexorder"
begin

text \<open>
  Splitting one task into the requests it is made of: \<^verbatim>\<open>decompose_task\<close>, \<^verbatim>\<open>task_edges\<close> and their
  helpers from \<^verbatim>\<open>trajectory_extract/task_stitch.py\<close>.  The requests are mutable dictionaries that
  several variables share; they are kept in a list and referred to by their position in it.  The
  log of \<^verbatim>\<open>--trace\<close> is not modelled.
\<close>

record 'r sub =
  sub_rows :: "'r event list"
  sub_anchor :: str
  sub_rework :: "'r event list"
  sub_corrections :: "'r event list"
  sub_terms :: "topic_term set"
  sub_msg_ids :: "str set"
  sub_t0 :: rat
  sub_t1 :: rat

definition new_sub :: "unicode \<Rightarrow> 'r event \<Rightarrow> 'r sub" where
  "new_sub uni e =
     \<lparr> sub_rows = [], sub_anchor = (if is_user e then strip_feishu uni (ev_text e) else []),
       sub_rework = [], sub_corrections = [], sub_terms = {}, sub_msg_ids = {},
       sub_t0 = ev_ts e, sub_t1 = ev_ts e \<rparr>"

section \<open>Routing a message\<close>

datatype route_why = ByParent | ByTerm "topic_term list" | ByFallback

text \<open>The best request so far, its score and the common terms; a later one must score higher.\<close>

fun best_sub ::
    "topic_term list \<Rightarrow> nat option \<times> nat \<times> topic_term list \<Rightarrow> (nat \<times> 'r sub) list \<Rightarrow>
     nat option \<times> nat \<times> topic_term list" where
  "best_sub et acc [] = acc"
| "best_sub et (best, bestn, besthit) ((i, s) # subs) =
     (let hit = filter (\<lambda>t. t \<in> sub_terms s) et; n = score et hit in
      best_sub et (if bestn < n then (Some i, n, hit) else (best, bestn, besthit)) subs)"

definition route_explain ::
    "unicode \<Rightarrow> 'r event \<Rightarrow> 'r sub list \<Rightarrow> nat \<Rightarrow> bool \<Rightarrow> nat \<times> route_why" where
  "route_explain uni e subs cur use_terms =
     (let p = ev_parent_id e in
      case (if p = [] then None
            else List.find (\<lambda>(i, s). p \<in> sub_msg_ids s) (enumerate 0 subs)) of
        Some (i, _) \<Rightarrow> (i, ByParent)
      | None \<Rightarrow>
          let et = terms uni (ev_text e) in
          if use_terms \<and> et \<noteq> [] then
            (case best_sub et (None, 0, []) (enumerate 0 subs) of
               (Some best, bestn, hit) \<Rightarrow>
                 if 2 \<le> bestn then (best, ByTerm hit) else (cur, ByFallback)
             | (None, _, _) \<Rightarrow> (cur, ByFallback))
          else (cur, ByFallback))"

definition route :: "unicode \<Rightarrow> 'r event \<Rightarrow> 'r sub list \<Rightarrow> nat \<Rightarrow> bool \<Rightarrow> nat" where
  "route uni e subs cur use_terms = fst (route_explain uni e subs cur use_terms)"

section \<open>The loop over the messages\<close>

definition mark :: "user_class \<Rightarrow> 'r event \<Rightarrow> 'r sub \<Rightarrow> 'r sub" where
  "mark cls e s =
     (case cls of
        Rework \<Rightarrow> s\<lparr> sub_rework := sub_rework s @ [e] \<rparr>
      | Correction \<Rightarrow> s\<lparr> sub_corrections := sub_corrections s @ [e] \<rparr>
      | _ \<Rightarrow> s)"

definition put_row :: "unicode \<Rightarrow> 'r event \<Rightarrow> 'r sub \<Rightarrow> 'r sub" where
  "put_row uni e s =
     s\<lparr> sub_rows := sub_rows s @ [e],
        sub_terms := sub_terms s \<union> set (terms uni (ev_text e)),
        sub_msg_ids := (if ev_msg_id e \<noteq> [] then insert (ev_msg_id e) (sub_msg_ids s)
                        else sub_msg_ids s),
        sub_t0 := min (sub_t0 s) (ev_ts e),
        sub_t1 := max (sub_t1 s) (ev_ts e) \<rparr>"

definition decompose_step ::
    "unicode \<Rightarrow> 'r event \<Rightarrow> 'r sub list \<times> nat option \<Rightarrow> 'r sub list \<times> nat option" where
  "decompose_step uni e st =
     (case st of (subs, cur) \<Rightarrow>
        if noise e then (subs, cur)
        else if is_user e then
          (let cls = user_class_of uni (ev_text e) in
           case cur of
             Some c \<Rightarrow>
               if cls = Fresh then (subs @ [put_row uni e (new_sub uni e)], Some (length subs))
               else
                 (let i = route uni e subs c True
                  in (subs[i := put_row uni e (mark cls e (subs ! i))], Some i))
           | None \<Rightarrow> (subs @ [put_row uni e (new_sub uni e)], Some (length subs)))
        else
          (case cur of
             None \<Rightarrow> (subs @ [put_row uni e (new_sub uni e)], None)
           | Some c \<Rightarrow>
               (let i = route uni e subs c False in (subs[i := put_row uni e (subs ! i)], Some c))))"

definition decompose_loop :: "unicode \<Rightarrow> 'r event list \<Rightarrow> 'r sub list" where
  "decompose_loop uni cluster = fst (fold (decompose_step uni) cluster ([], None))"

section \<open>Merging the requests no bot answered\<close>

definition absorb :: "'r sub \<Rightarrow> 'r sub \<Rightarrow> 'r sub" where
  "absorb dst src =
     dst\<lparr> sub_rows := sub_rows dst @ sub_rows src,
          sub_rework := sub_rework dst @ sub_rework src,
          sub_corrections := sub_corrections dst @ sub_corrections src,
          sub_terms := sub_terms dst \<union> sub_terms src,
          sub_msg_ids := sub_msg_ids dst \<union> sub_msg_ids src,
          sub_t0 := min (sub_t0 dst) (sub_t0 src),
          sub_t1 := max (sub_t1 dst) (sub_t1 src) \<rparr>"

definition msg_to_sub :: "'r sub list \<Rightarrow> str \<Rightarrow> nat option" where
  "msg_to_sub subs mid =
     List.find (\<lambda>i. mid \<in> sub_msg_ids (subs ! i)) (rev [0..<length subs])"

definition has_bot :: "'r sub \<Rightarrow> bool" where
  "has_bot s \<longleftrightarrow> list_ex is_bot (sub_rows s)"

text \<open>
  The objects are compared by value, as \<^verbatim>\<open>in\<close> and \<^verbatim>\<open>remove\<close> do; \<open>store\<close> has the current value
  of every object and \<open>alive\<close> the ones still in the list \<^verbatim>\<open>subs\<close>.
\<close>

definition absorb_target :: "(str \<Rightarrow> nat option) \<Rightarrow> 'r sub list \<Rightarrow> 'r sub \<Rightarrow> nat option" where
  "absorb_target owner store s =
     (case List.map_filter (\<lambda>e.
        if ev_parent_id e = [] then None
        else
          (case owner (ev_parent_id e) of
             Some j \<Rightarrow> if store ! j = s then None else Some j
           | None \<Rightarrow> None)) (sub_rows s) of
        j # _ \<Rightarrow> Some j
      | [] \<Rightarrow> None)"

fun remove_first :: "('a \<Rightarrow> bool) \<Rightarrow> 'a list \<Rightarrow> 'a list" where
  "remove_first P [] = []"
| "remove_first P (x # xs) = (if P x then xs else x # remove_first P xs)"

definition absorb_step ::
    "(str \<Rightarrow> nat option) \<Rightarrow> nat \<Rightarrow> 'r sub list \<times> nat list \<Rightarrow> 'r sub list \<times> nat list" where
  "absorb_step owner i st =
     (case st of (store, alive) \<Rightarrow>
        if has_bot (store ! i) then (store, alive)
        else
          (case absorb_target owner store (store ! i) of
             None \<Rightarrow> (store, alive)
           | Some j \<Rightarrow>
               (let store' = store[j := absorb (store ! j) (store ! i)]
                in (store', remove_first (\<lambda>k. store' ! k = store' ! i) alive))))"

definition absorb_loop :: "'r sub list \<Rightarrow> 'r sub list \<times> nat list" where
  "absorb_loop subs =
     fold (absorb_step (msg_to_sub subs)) [0..<length subs] (subs, [0..<length subs])"

definition absorb_unanswered :: "'r sub list \<Rightarrow> 'r sub list" where
  "absorb_unanswered subs = (case absorb_loop subs of (store, alive) \<Rightarrow> map ((!) store) alive)"

section \<open>The requests of a task\<close>

record 'r subreq = "'r sub" +
  req_bots :: "str list"
  req_hard :: bool

definition bot_names :: "'r event list \<Rightarrow> str list" where
  "bot_names rows = sort (remdups (map ev_name (filter is_bot rows)))"

definition finish_sub :: "unicode \<Rightarrow> 'r sub \<Rightarrow> 'r subreq" where
  "finish_sub uni s =
     (let rows = sort_key ev_ts (sub_rows s) in
      \<lparr> sub_rows = rows,
        sub_anchor =
          (if sub_anchor s \<noteq> [] then sub_anchor s
           else
             (case List.find (\<lambda>e. \<not> noise e) rows of
                Some e \<Rightarrow> strip_feishu uni (ev_text e)
              | None \<Rightarrow> [])),
        sub_rework = sub_rework s, sub_corrections = sub_corrections s, sub_terms = sub_terms s,
        sub_msg_ids = sub_msg_ids s, sub_t0 = sub_t0 s, sub_t1 = sub_t1 s,
        req_bots = bot_names rows,
        req_hard = (sub_rework s \<noteq> [] \<or> sub_corrections s \<noteq> []) \<rparr>)"

definition decompose_task :: "unicode \<Rightarrow> 'r event list \<Rightarrow> 'r subreq list" where
  "decompose_task uni cluster =
     map (finish_sub uni) (sort_key sub_t0 (absorb_unanswered (decompose_loop uni cluster)))"

datatype edge_kind = Parallel | Sequential

definition task_edges :: "'r subreq list \<Rightarrow> (nat \<times> nat \<times> edge_kind) list" where
  "task_edges subs =
     map (\<lambda>i. (i, Suc i, if sub_t0 (subs ! Suc i) < sub_t1 (subs ! i) then Parallel else Sequential))
       [0..<length subs - 1]"

section \<open>Labels\<close>

text \<open>\<^verbatim>\<open>most_common(1)\<close>: the first of the most frequent labels.\<close>

definition cluster_label :: "unicode \<Rightarrow> 'r event list \<Rightarrow> str \<times> str list \<times> str" where
  "cluster_label uni cl =
     (let topics = filter (\<lambda>t. t \<noteq> []) (map (\<lambda>e. topic_of (ev_text e)) (filter is_bot cl));
          dom = (case topics of
                   [] \<Rightarrow> [40, 26080, 26631, 31614, 41]
                 | t # ts \<Rightarrow> argmax (\<lambda>x. count_list topics x) t ts);
          ask = (case List.find (\<lambda>e. is_user e \<and> \<not> noise e) cl of
                   Some e \<Rightarrow> strip_feishu uni (ev_text e)
                 | None \<Rightarrow> []);
          ask = (if ask \<noteq> [] then ask
                 else
                   (case List.find (\<lambda>e. \<not> noise e) cl of
                      Some e \<Rightarrow> strip_feishu uni (ev_text e)
                    | None \<Rightarrow> []))
      in (dom, bot_names cl, ask))"

section \<open>The well-formedness of a request\<close>

definition sub_ok :: "('r, 'm) sub_scheme \<Rightarrow> bool" where
  "sub_ok s \<longleftrightarrow>
     sub_rows s \<noteq> [] \<and> list_all (\<lambda>e. \<not> noise e) (sub_rows s) \<and>
     sub_msg_ids s = {m \<in> ev_msg_id ` set (sub_rows s). m \<noteq> []} \<and>
     sub_t0 s = Min (ev_ts ` set (sub_rows s)) \<and> sub_t1 s = Max (ev_ts ` set (sub_rows s)) \<and>
     set (sub_rework s) \<union> set (sub_corrections s) \<subseteq> set (sub_rows s)"

abbreviation rows_of :: "'r sub list \<Rightarrow> 'r event multiset" where
  "rows_of subs \<equiv> mset (concat (map sub_rows subs))"

lemma sub_rows_mark [simp]: "sub_rows (mark cls e s) = sub_rows s"
  by (simp add: mark_def split: user_class.split)

lemma sub_rows_put_row [simp]: "sub_rows (put_row uni e s) = sub_rows s @ [e]"
  by (simp add: put_row_def)

lemma sub_ok_new: "\<not> noise e \<Longrightarrow> sub_ok (put_row uni e (new_sub uni e))"
  by (auto simp: sub_ok_def put_row_def new_sub_def)

lemma sub_ok_put: "sub_ok s \<Longrightarrow> \<not> noise e \<Longrightarrow> sub_ok (put_row uni e (mark cls e s))"
  by (auto simp: sub_ok_def put_row_def mark_def min.commute max.commute split: user_class.split)

lemma sub_ok_put_plain: "sub_ok s \<Longrightarrow> \<not> noise e \<Longrightarrow> sub_ok (put_row uni e s)"
  using sub_ok_put [of s e uni Fresh] by (simp add: mark_def)

lemma sub_ok_absorb: "sub_ok d \<Longrightarrow> sub_ok s \<Longrightarrow> sub_ok (absorb d s)"
  by (auto simp: sub_ok_def absorb_def image_Un Min_Un Max_Un)

lemma best_sub_bound:
  assumes "best_sub et (best, n, hit) subs = (Some i, r)"
  shows "best = Some i \<or> i \<in> fst ` set subs"
  using assms
  by (induction et "(best, n, hit)" subs arbitrary: best n hit rule: best_sub.induct)
    (auto simp: Let_def split: if_splits)

lemma route_bound:
  assumes "cur < length subs"
  shows "route uni e subs cur use_terms < length subs"
proof -
  have "i < length subs" if "List.find P (enumerate 0 subs) = Some (i, s)" for P i s
    using that by (auto simp: find_Some_iff nth_enumerate_eq)
  moreover have "i < length subs" if "best_sub et (None, n, hit) (enumerate 0 subs) = (Some i, r)" for et n hit i r
    using best_sub_bound [OF that] by (auto simp: in_set_enumerate_eq)
  ultimately show ?thesis using assms
    unfolding route_def route_explain_def Let_def
    by (auto split: option.split prod.split if_splits)
qed

lemma rows_of_update:
  "i < length subs \<Longrightarrow> sub_rows s = sub_rows (subs ! i) @ new \<Longrightarrow>
   rows_of (subs[i := s]) = rows_of subs + mset new"
  by (induction subs arbitrary: i) (auto simp: nth_Cons split: nat.splits)

lemma sub_ok_update: "list_all sub_ok subs \<Longrightarrow> sub_ok s \<Longrightarrow> list_all sub_ok (subs[i := s])"
  by (auto simp: list_all_iff dest: set_update_subset_insert [THEN subsetD])

lemma sub_ok_nth: "list_all sub_ok subs \<Longrightarrow> i < length subs \<Longrightarrow> sub_ok (subs ! i)"
  by (simp add: list_all_length)

definition loop_ok :: "'r sub list \<times> nat option \<Rightarrow> bool" where
  "loop_ok st \<longleftrightarrow>
     (case st of (subs, cur) \<Rightarrow> list_all sub_ok subs \<and> (\<forall>c. cur = Some c \<longrightarrow> c < length subs))"

lemma decompose_step_ok:
  assumes "loop_ok st"
  shows "loop_ok (decompose_step uni e st)"
    and "rows_of (fst (decompose_step uni e st)) = rows_of (fst st) + mset (filter (\<lambda>e. \<not> noise e) [e])"
proof -
  obtain subs cur where st: "st = (subs, cur)" by (cases st)
  have ok: "list_all sub_ok subs" and cur: "cur = Some c \<Longrightarrow> c < length subs" for c
    using assms by (simp_all add: loop_ok_def st)
  note bound = route_bound [OF cur]
  note put = sub_ok_put [OF sub_ok_nth [OF ok bound]] sub_ok_put_plain [OF sub_ok_nth [OF ok bound]]
  show "loop_ok (decompose_step uni e st)"
    using ok cur bound put sub_ok_new [of e uni]
    by (auto simp: decompose_step_def loop_ok_def st Let_def sub_ok_update less_Suc_eq split: option.split)
  show "rows_of (fst (decompose_step uni e st)) = rows_of (fst st) + mset (filter (\<lambda>e. \<not> noise e) [e])"
    using bound
    by (auto simp: decompose_step_def st Let_def rows_of_update new_sub_def split: option.split)
qed

lemma decompose_fold_ok:
  assumes "loop_ok st"
  shows "loop_ok (fold (decompose_step uni) es st)"
    and "rows_of (fst (fold (decompose_step uni) es st)) =
      rows_of (fst st) + mset (filter (\<lambda>e. \<not> noise e) es)"
  using assms by (induction es arbitrary: st) (simp_all add: decompose_step_ok)

lemma decompose_loop_ok:
  "list_all sub_ok (decompose_loop uni cluster)"
  "rows_of (decompose_loop uni cluster) = mset (filter (\<lambda>e. \<not> noise e) cluster)"
  using decompose_fold_ok [of "([], None)" uni cluster]
  by (auto simp: decompose_loop_def loop_ok_def split: prod.splits)

section \<open>Absorbing keeps the requests well formed\<close>

lemma absorb_target_Some:
  assumes "absorb_target owner store s = Some j"
  shows "\<exists>e \<in> set (sub_rows s). ev_parent_id e \<noteq> [] \<and> owner (ev_parent_id e) = Some j \<and> store ! j \<noteq> s"
proof -
  have "j \<in> set (List.map_filter (\<lambda>e. if ev_parent_id e = [] then None
        else (case owner (ev_parent_id e) of Some j \<Rightarrow> if store ! j = s then None else Some j | None \<Rightarrow> None))
      (sub_rows s))"
    using assms unfolding absorb_target_def by (auto split: list.splits)
  then show ?thesis by (fastforce simp: in_map_filter split: if_splits option.splits)
qed

lemma msg_to_sub_bound: "msg_to_sub subs m = Some j \<Longrightarrow> j < length subs"
  by (auto simp: msg_to_sub_def find_Some_iff rev_nth)

lemma set_remove_first: "set (remove_first P xs) \<subseteq> set xs"
  by (induction xs) auto

definition absorb_ok :: "'r sub list \<Rightarrow> 'r sub list \<times> nat list \<Rightarrow> bool" where
  "absorb_ok subs st \<longleftrightarrow>
     (case st of (store, alive) \<Rightarrow>
        length store = length subs \<and> set alive \<subseteq> {..<length subs} \<and> list_all sub_ok store \<and>
        set (concat (map sub_rows store)) \<subseteq> set (concat (map sub_rows subs)))"

lemma sub_rows_absorb [simp]: "sub_rows (absorb d s) = sub_rows d @ sub_rows s"
  by (simp add: absorb_def)

lemma rows_subset_update:
  assumes "set (sub_rows s) \<subseteq> R" "set (concat (map sub_rows store)) \<subseteq> R"
  shows "set (concat (map sub_rows (store[j := s]))) \<subseteq> R"
  using assms by (auto dest!: set_update_subset_insert [THEN subsetD])

lemma absorb_step_ok:
  assumes "absorb_ok subs st" "i < length subs"
  shows "absorb_ok subs (absorb_step (msg_to_sub subs) i st)"
proof -
  obtain store alive where st: "st = (store, alive)" by (cases st)
  note ok = assms(1) [unfolded absorb_ok_def st prod.case]
  show ?thesis
  proof (cases "has_bot (store ! i) \<or> absorb_target (msg_to_sub subs) store (store ! i) = None")
    case True
    then show ?thesis using assms(1) by (auto simp: absorb_step_def st)
  next
    case False
    then obtain j where j: "absorb_target (msg_to_sub subs) store (store ! i) = Some j" by auto
    then have "j < length store"
      using absorb_target_Some [OF j] msg_to_sub_bound ok by fastforce
    moreover have "i < length store" using assms(2) ok by simp
    ultimately have bounds: "store ! j \<in> set store" "store ! i \<in> set store" by simp_all
    then have "sub_ok (absorb (store ! j) (store ! i))"
      using ok by (auto simp: list_all_iff intro!: sub_ok_absorb)
    then have "list_all sub_ok (store[j := absorb (store ! j) (store ! i)])"
      using ok by (auto intro: sub_ok_update)
    moreover have "set (concat (map sub_rows (store[j := absorb (store ! j) (store ! i)]))) \<subseteq>
         set (concat (map sub_rows subs))"
      by (rule rows_subset_update) (use ok bounds in auto)
    ultimately show ?thesis
      using False j ok set_remove_first [of _ alive]
      by (auto simp: absorb_step_def absorb_ok_def st Let_def dest!: set_remove_first [THEN subsetD])
  qed
qed

lemma absorb_fold_ok:
  assumes "absorb_ok subs st" "set is \<subseteq> {..<length subs}"
  shows "absorb_ok subs (fold (absorb_step (msg_to_sub subs)) is st)"
  using assms by (induction "is" arbitrary: st) (simp_all add: absorb_step_ok)

lemma absorb_unanswered_ok:
  assumes "list_all sub_ok subs"
  shows "list_all sub_ok (absorb_unanswered subs)"
    and "set (concat (map sub_rows (absorb_unanswered subs))) \<subseteq> set (concat (map sub_rows subs))"
proof -
  have "absorb_ok subs (absorb_loop subs)"
    unfolding absorb_loop_def
    by (rule absorb_fold_ok) (use assms in \<open>auto simp: absorb_ok_def\<close>)
  then show "list_all sub_ok (absorb_unanswered subs)"
      "set (concat (map sub_rows (absorb_unanswered subs))) \<subseteq> set (concat (map sub_rows subs))"
    by (auto simp: absorb_ok_def absorb_unanswered_def list_all_iff subset_iff) (metis nth_mem)+
qed

section \<open>When absorbing loses nothing\<close>

text \<open>Every request a bot did not answer replies only to requests a bot did answer.\<close>

definition answered_targets :: "'r sub list \<Rightarrow> bool" where
  "answered_targets subs \<longleftrightarrow>
     list_all (\<lambda>s. has_bot s \<or>
       list_all (\<lambda>e. ev_parent_id e = [] \<or>
         (case msg_to_sub subs (ev_parent_id e) of
            Some j \<Rightarrow> subs ! j = s \<or> has_bot (subs ! j)
          | None \<Rightarrow> True)) (sub_rows s)) subs"

lemma answered_targetsD:
  assumes "answered_targets subs" "i < length subs" "\<not> has_bot (subs ! i)"
    "e \<in> set (sub_rows (subs ! i))" "ev_parent_id e \<noteq> []"
    "msg_to_sub subs (ev_parent_id e) = Some j" "subs ! j \<noteq> subs ! i"
  shows "has_bot (subs ! j)"
  using assms by (fastforce simp: answered_targets_def list_all_iff split: option.splits dest: nth_mem)

definition keeps_rows :: "'r sub list \<Rightarrow> nat list \<Rightarrow> 'r sub list \<times> nat list \<Rightarrow> bool" where
  "keeps_rows subs todo st \<longleftrightarrow>
     (case st of (store, alive) \<Rightarrow>
        length store = length subs \<and> distinct alive \<and> set alive \<subseteq> {..<length subs} \<and>
        (\<forall>i < length subs. if has_bot (subs ! i) then has_bot (store ! i) \<and> i \<in> set alive
                           else store ! i = subs ! i) \<and>
        mset (map ((!) subs) (filter (\<lambda>i. \<not> has_bot (subs ! i)) todo)) \<subseteq># mset (map ((!) store) alive) \<and>
        rows_of (map ((!) store) alive) = rows_of subs)"

lemma remove_first_remove1:
  "\<exists>x \<in> set xs. P x \<Longrightarrow> \<exists>x \<in> set xs. P x \<and> remove_first P xs = remove1 x xs"
proof (induction xs)
  case (Cons a xs)
  then show ?case by (cases "P a") (simp, metis list.set_intros(2) remove1.simps(2) remove_first.simps(2) set_ConsD)
qed simp

lemma filter_map_agree:
  assumes "\<And>k. k \<in> set ks \<Longrightarrow> f k = g k \<or> \<not> P (f k) \<and> \<not> P (g k)"
  shows "filter P (map f ks) = filter P (map g ks)"
  using assms
proof (induction ks)
  case (Cons k ks)
  have "f k = g k \<or> \<not> P (f k) \<and> \<not> P (g k)" by (rule Cons.prems) simp
  moreover have "filter P (map f ks) = filter P (map g ks)" by (rule Cons.IH) (simp add: Cons.prems)
  ultimately show ?case by auto
qed simp

lemma has_bot_absorb: "has_bot d \<Longrightarrow> has_bot (absorb d s)"
  by (simp add: has_bot_def)

lemma rows_of_absorb:
  assumes "distinct alive" "j < length store" "j \<in> set alive"
  shows "rows_of (map ((!) (store[j := absorb (store ! j) s])) alive) =
    rows_of (map ((!) store) alive) + mset (sub_rows s)"
  using assms
proof (induction alive)
  case (Cons k alive)
  let ?store = "store[j := absorb (store ! j) s]"
  show ?case
  proof (cases "k = j")
    case True
    then have rest: "map ((!) ?store) alive = map ((!) store) alive"
      using Cons.prems by (auto intro!: nth_list_update_neq)
    show ?thesis using True Cons.prems unfolding list.map(2) rest by simp
  next
    case False
    then have "?store ! k = store ! k" by simp
    then show ?thesis using Cons False unfolding list.map(2) by simp
  qed
qed simp

lemma mset_map_remove1: "x \<in> set xs \<Longrightarrow> mset (map f xs) = add_mset (f x) (mset (map f (remove1 x xs)))"
  by (induction xs) auto

lemma rows_of_remove1: "x \<in> set xs \<Longrightarrow> rows_of (map f xs) = mset (sub_rows (f x)) + rows_of (map f (remove1 x xs))"
  by (induction xs) (auto simp: add_ac)

text \<open>Changing an answered request leaves the unanswered ones in the list.\<close>

lemma open_subset_update:
  assumes "M \<subseteq># mset (map ((!) store) alive)" "\<And>x. x \<in># M \<Longrightarrow> \<not> has_bot x"
    "set alive \<subseteq> {..<length store}" "has_bot (store ! j)" "has_bot d"
  shows "M \<subseteq># mset (map ((!) (store[j := d])) alive)"
proof -
  let ?open = "\<lambda>s. \<not> has_bot s" and ?store = "store[j := d]"
  have "filter ?open (map ((!) store) alive) = filter ?open (map ((!) ?store) alive)"
  proof (rule filter_map_agree)
    fix k
    assume "k \<in> set alive"
    then show "store ! k = ?store ! k \<or> \<not> ?open (store ! k) \<and> \<not> ?open (?store ! k)"
      using assms(3-5) by (cases "k = j") auto
  qed
  then have agree: "filter_mset ?open (mset (map ((!) store) alive)) =
      filter_mset ?open (mset (map ((!) ?store) alive))"
    by (metis mset_filter)
  have "filter_mset ?open M = M" using assms(2) by (auto simp: filter_mset_eq_conv)
  then have "M \<subseteq># filter_mset ?open (mset (map ((!) ?store) alive))"
    using multiset_filter_mono [OF assms(1), of ?open] agree by simp
  then show ?thesis using multiset_filter_subset subset_mset.order_trans by blast
qed

lemma absorb_move_keeps:
  assumes inv: "keeps_rows subs (i # todo) (store, alive)"
    and i: "i < length subs" "\<not> has_bot (subs ! i)" and j: "j < length subs" "has_bot (subs ! j)"
    and store': "store' = store[j := absorb (store ! j) (subs ! i)]"
  shows "keeps_rows subs todo (store', remove_first (\<lambda>k. store' ! k = subs ! i) alive)"
proof -
  let ?s = "subs ! i"
  let ?left = "mset (map ((!) subs) (filter (\<lambda>i. \<not> has_bot (subs ! i)) todo))"
  note inv = inv [unfolded keeps_rows_def prod.case]
  have nth: "store' ! k = (if k = j then absorb (store ! j) ?s else store ! k)" if "k < length subs" for k
    using that inv by (simp add: store' nth_list_update)
  have ja: "j \<in> set alive" "has_bot (store ! j)" using inv j by auto
  have bot': "has_bot (store' ! j)" using ja j by (simp add: nth has_bot_absorb)
  have "add_mset ?s ?left \<subseteq># mset (map ((!) store) alive)" using inv i by simp
  then have sub: "add_mset ?s ?left \<subseteq># mset (map ((!) store') alive)"
    unfolding store' by (rule open_subset_update) (use inv i ja in \<open>auto simp: has_bot_absorb\<close>)
  then have "?s \<in> set (map ((!) store') alive)"
    by (metis mset_subset_eq_insertD set_mset_mset)
  then have "\<exists>k \<in> set alive. store' ! k = ?s" by auto
  then obtain k where k: "k \<in> set alive" "store' ! k = ?s"
      "remove_first (\<lambda>k. store' ! k = ?s) alive = remove1 k alive"
    using remove_first_remove1 [of alive "\<lambda>k. store' ! k = ?s"] by blast
  have left: "?left \<subseteq># mset (map ((!) store') (remove1 k alive))"
    using sub mset_map_remove1 [OF k(1), of "(!) store'"] k(2) by simp
  have "rows_of (map ((!) store') alive) = rows_of subs + mset (sub_rows ?s)"
    using rows_of_absorb [of alive j store ?s] inv ja j by (simp add: store')
  then have rows: "rows_of (map ((!) store') (remove1 k alive)) = rows_of subs"
    using rows_of_remove1 [OF k(1), of "(!) store'"] k(2) by simp
  have objects: "if has_bot (subs ! m) then has_bot (store' ! m) \<and> m \<in> set (remove1 k alive)
      else store' ! m = subs ! m" if "m < length subs" for m
  proof (cases "has_bot (subs ! m)")
    case True
    then have "has_bot (store' ! m)" "m \<in> set alive" using inv that bot' by (auto simp: nth)
    then show ?thesis using True k(2) i(2) by (metis in_set_remove1)
  next
    case False
    then show ?thesis using inv that j by (auto simp: nth)
  qed
  have "length store' = length subs" "distinct (remove1 k alive)"
      "set (remove1 k alive) \<subseteq> {..<length subs}"
    using inv set_remove1_subset [of k alive] by (simp_all add: store') blast
  then show ?thesis
    unfolding k(3) keeps_rows_def prod.case using left rows objects by (intro conjI allI impI)
qed

lemma absorb_step_keeps:
  assumes "answered_targets subs" "keeps_rows subs (i # todo) st" "i < length subs"
  shows "keeps_rows subs todo (absorb_step (msg_to_sub subs) i st)"
proof -
  obtain store alive where st: "st = (store, alive)" by (cases st)
  note inv = assms(2) [unfolded keeps_rows_def st prod.case]
  show ?thesis
  proof (cases "has_bot (store ! i) \<or> absorb_target (msg_to_sub subs) store (store ! i) = None")
    case True
    moreover have "keeps_rows subs todo st"
      using assms(2) by (auto simp: keeps_rows_def dest: mset_subset_eq_insertD split: if_splits prod.splits)
    ultimately show ?thesis by (auto simp: absorb_step_def st)
  next
    case False
    then have zero: "\<not> has_bot (subs ! i)" and same: "store ! i = subs ! i"
      using inv assms(3) by (auto split: if_splits)
    obtain j where j: "absorb_target (msg_to_sub subs) store (subs ! i) = Some j"
      using False same by auto
    obtain e where e: "e \<in> set (sub_rows (subs ! i))" "ev_parent_id e \<noteq> []"
        "msg_to_sub subs (ev_parent_id e) = Some j" "store ! j \<noteq> subs ! i"
      using absorb_target_Some [OF j] by blast
    have jb: "j < length subs" using e(3) by (rule msg_to_sub_bound)
    have "subs ! j \<noteq> subs ! i" using e(4) inv jb zero by metis
    then have hj: "has_bot (subs ! j)" using answered_targetsD [OF assms(1,3) zero] e by simp
    let ?store = "store[j := absorb (store ! j) (subs ! i)]"
    have "i \<noteq> j" using zero hj by auto
    then have "?store ! i = subs ! i" using same by simp
    then have step: "absorb_step (msg_to_sub subs) i st =
        (?store, remove_first (\<lambda>k. ?store ! k = subs ! i) alive)"
      using False j same by (simp add: absorb_step_def st Let_def)
    show ?thesis
      unfolding step by (rule absorb_move_keeps [OF assms(2) [unfolded st] assms(3) zero jb hj refl])
  qed
qed

lemma absorb_fold_keeps:
  assumes "answered_targets subs" "keeps_rows subs (is @ todo) st" "set is \<subseteq> {..<length subs}"
  shows "keeps_rows subs todo (fold (absorb_step (msg_to_sub subs)) is st)"
  using assms(2,3) by (induction "is" arbitrary: st) (simp_all add: absorb_step_keeps [OF assms(1)])

lemma absorb_unanswered_keeps:
  assumes "answered_targets subs"
  shows "rows_of (absorb_unanswered subs) = rows_of subs"
proof -
  have start: "mset (map ((!) subs) (filter P [0..<length subs])) \<subseteq># mset (map ((!) subs) [0..<length subs])" for P
    by (metis image_mset_subseteq_mono mset_filter mset_map multiset_filter_subset)
  have "keeps_rows subs [] (absorb_loop subs)"
    unfolding absorb_loop_def
    by (rule absorb_fold_keeps [OF assms])
      (use start in \<open>auto simp: keeps_rows_def map_nth simp del: mset_map mset_filter map_map\<close>)
  then show ?thesis by (auto simp: keeps_rows_def absorb_unanswered_def split: prod.splits)
qed

section \<open>The marks of rework and correction\<close>

abbreviation user_says :: "unicode \<Rightarrow> user_class \<Rightarrow> 'r event \<Rightarrow> bool" where
  "user_says uni cls e \<equiv> is_user e \<and> user_class_of uni (ev_text e) = cls"

text \<open>Every rework or correction of a request is marked, but for the message that opens the task.\<close>

definition marks_ok :: "unicode \<Rightarrow> 'r event option \<Rightarrow> ('r, 'm) sub_scheme \<Rightarrow> bool" where
  "marks_ok uni opener s \<longleftrightarrow>
     set (sub_rework s) \<subseteq> {e. user_says uni Rework e} \<and>
     set (sub_corrections s) \<subseteq> {e. user_says uni Correction e} \<and>
     set (sub_rows s) \<inter> {e. user_says uni Rework e} \<subseteq> set (sub_rework s) \<union> set_option opener \<and>
     set (sub_rows s) \<inter> {e. user_says uni Correction e} \<subseteq> set (sub_corrections s) \<union> set_option opener"

definition first_request :: "'r event list \<Rightarrow> 'r event option" where
  "first_request = List.find (\<lambda>e. \<not> noise e \<and> is_user e)"

lemma marks_ok_new:
  "\<not> is_user e \<or> user_class_of uni (ev_text e) = Fresh \<or> opener = Some e \<Longrightarrow>
   marks_ok uni opener (put_row uni e (new_sub uni e))"
  by (auto simp: marks_ok_def put_row_def new_sub_def)

lemma marks_ok_put:
  "marks_ok uni opener s \<Longrightarrow> is_user e \<Longrightarrow>
   marks_ok uni opener (put_row uni e (mark (user_class_of uni (ev_text e)) e s))"
  by (cases "user_class_of uni (ev_text e)") (auto simp: marks_ok_def put_row_def mark_def)

lemma marks_ok_put_bot:
  "marks_ok uni opener s \<Longrightarrow> \<not> is_user e \<Longrightarrow> marks_ok uni opener (put_row uni e s)"
  by (auto simp: marks_ok_def put_row_def)

lemma marks_ok_absorb:
  "marks_ok uni opener d \<Longrightarrow> marks_ok uni opener s \<Longrightarrow> marks_ok uni opener (absorb d s)"
  by (auto simp: marks_ok_def absorb_def)

lemma list_all_update: "list_all P xs \<Longrightarrow> P x \<Longrightarrow> list_all P (xs[i := x])"
  by (auto simp: list_all_iff dest: set_update_subset_insert [THEN subsetD])

lemma decompose_step_marks:
  assumes "list_all (marks_ok uni opener) (fst st)" "loop_ok st"
    "snd st = None \<Longrightarrow> first_request (e # es) = opener"
  shows "list_all (marks_ok uni opener) (fst (decompose_step uni e st)) \<and>
    (snd (decompose_step uni e st) = None \<longrightarrow> first_request es = opener)"
proof -
  obtain subs cur where st: "st = (subs, cur)" by (cases st)
  have cur: "c < length subs" if "cur = Some c" for c using assms(2) that by (simp add: loop_ok_def st)
  note bound = route_bound [OF cur]
  have nth: "marks_ok uni opener (subs ! i)" if "i < length subs" for i
    using assms(1) that by (simp add: st list_all_length)
  show ?thesis
    using assms(1,3)
    by (auto simp: decompose_step_def st Let_def first_request_def marks_ok_new list_all_update
        marks_ok_put [OF nth [OF bound]] marks_ok_put_bot [OF nth [OF bound]] split: option.split)
qed

lemma decompose_fold_marks:
  assumes "list_all (marks_ok uni opener) (fst st)" "loop_ok st"
    "snd st = None \<Longrightarrow> first_request es = opener"
  shows "list_all (marks_ok uni opener) (fst (fold (decompose_step uni) es st))"
  using assms
proof (induction es arbitrary: st)
  case (Cons e es)
  note step = decompose_step_marks [OF Cons.prems(1,2), of e es]
  show ?case
    using Cons.IH [of "decompose_step uni e st"] step Cons.prems(3) decompose_step_ok(1) [OF Cons.prems(2)]
    by auto
qed simp

lemma decompose_loop_marks:
  "list_all (marks_ok uni (first_request cluster)) (decompose_loop uni cluster)"
  unfolding decompose_loop_def by (rule decompose_fold_marks) (simp_all add: loop_ok_def)

lemma absorb_fold_all:
  assumes "\<And>d s. P d \<Longrightarrow> P s \<Longrightarrow> P (absorb d s)"
    and "list_all P (fst st)" "absorb_ok subs st" "set is \<subseteq> {..<length subs}"
  shows "list_all P (fst (fold (absorb_step (msg_to_sub subs)) is st))"
  using assms(2-4)
proof (induction "is" arbitrary: st)
  case (Cons i "is")
  obtain store alive where st: "st = (store, alive)" by (cases st)
  have len: "length store = length subs" using Cons.prems(2) by (simp add: absorb_ok_def st)
  have "j < length store" if "absorb_target (msg_to_sub subs) store s = Some j" for s j
    using absorb_target_Some [OF that] msg_to_sub_bound len by fastforce
  then have "list_all P (fst (absorb_step (msg_to_sub subs) i st))"
    using Cons.prems len
    by (auto simp: absorb_step_def st Let_def list_all_length [of P store]
        intro!: list_all_update assms(1) split: option.split)
  then show ?case
    using Cons.IH [of "absorb_step (msg_to_sub subs) i st"] absorb_step_ok [OF Cons.prems(2)] Cons.prems(3)
    by simp
qed simp

lemma absorb_unanswered_all:
  assumes "\<And>d s. P d \<Longrightarrow> P s \<Longrightarrow> P (absorb d s)" "list_all P subs" "list_all sub_ok subs"
  shows "list_all P (absorb_unanswered subs)"
proof -
  have start: "absorb_ok subs (subs, [0..<length subs])" using assms(3) by (auto simp: absorb_ok_def)
  have "absorb_ok subs (absorb_loop subs)"
    unfolding absorb_loop_def by (rule absorb_fold_ok [OF start]) auto
  moreover have "list_all P (fst (absorb_loop subs))"
    unfolding absorb_loop_def
    by (rule absorb_fold_all) (use assms(1,2) start in auto)
  ultimately show ?thesis
    by (auto simp: absorb_ok_def absorb_unanswered_def list_all_iff subset_iff)
qed

section \<open>What the decomposition guarantees\<close>

lemma sub_rows_finish [simp]: "sub_rows (finish_sub uni s) = sort_key ev_ts (sub_rows s)"
  by (simp add: finish_sub_def Let_def)

lemma finish_sub_simps [simp]:
  "sub_rework (finish_sub uni s) = sub_rework s"
  "sub_corrections (finish_sub uni s) = sub_corrections s"
  "sub_msg_ids (finish_sub uni s) = sub_msg_ids s"
  "sub_t0 (finish_sub uni s) = sub_t0 s"
  "sub_t1 (finish_sub uni s) = sub_t1 s"
  "req_bots (finish_sub uni s) = bot_names (sort_key ev_ts (sub_rows s))"
  "req_hard (finish_sub uni s) \<longleftrightarrow> sub_rework s \<noteq> [] \<or> sub_corrections s \<noteq> []"
  by (simp_all add: finish_sub_def Let_def)

lemma sorted_ends:
  assumes "xs \<noteq> []" "sorted (map f xs)"
  shows "Min (f ` set xs) = f (hd xs)" "Max (f ` set xs) = f (last xs)"
proof -
  have "f (hd xs) \<le> f x" if "x \<in> set xs" for x
    using assms that by (cases xs) auto
  then show "Min (f ` set xs) = f (hd xs)" using assms(1) by (intro Min_eqI) auto
  have "f x \<le> f (last xs)" if "x \<in> set xs" for x
    using assms that by (cases xs rule: rev_cases) (auto simp: sorted_append)
  then show "Max (f ` set xs) = f (last xs)" using assms(1) by (intro Max_eqI) auto
qed

lemma decompose_task_sub:
  assumes "r \<in> set (decompose_task uni cluster)"
  obtains s where "r = finish_sub uni s" "sub_ok s" "marks_ok uni (first_request cluster) s"
    "set (sub_rows s) \<subseteq> set cluster"
proof -
  let ?subs = "decompose_loop uni cluster"
  obtain s where s: "s \<in> set (absorb_unanswered ?subs)" "r = finish_sub uni s"
    using assms by (auto simp: decompose_task_def)
  have "set (concat (map sub_rows (absorb_unanswered ?subs))) \<subseteq> set_mset (rows_of ?subs)"
    using absorb_unanswered_ok(2) [OF decompose_loop_ok(1)] by simp
  then have "set (sub_rows s) \<subseteq> set cluster" using s(1) unfolding decompose_loop_ok(2) by auto
  moreover have "list_all (marks_ok uni (first_request cluster)) (absorb_unanswered ?subs)"
    by (rule absorb_unanswered_all) (simp_all add: marks_ok_absorb decompose_loop_marks decompose_loop_ok(1))
  then have "sub_ok s" "marks_ok uni (first_request cluster) s"
    using s(1) absorb_unanswered_ok(1) [OF decompose_loop_ok(1)] by (auto simp: list_all_iff)
  ultimately show ?thesis using s(2) that by blast
qed

text \<open>
  C28. Every request of a task is well formed: it has a message, its messages are messages of the
  task that are not noise, in the order of time; it starts with the first of them and ends with
  the last; its identifiers are the identifiers of its messages; the requests are ordered by
  their start.
\<close>

theorem decompose_task_well_formed:
  "list_all (\<lambda>r. sub_rows r \<noteq> [] \<and> set (sub_rows r) \<subseteq> {e \<in> set cluster. \<not> noise e} \<and>
       sorted (map ev_ts (sub_rows r)) \<and>
       sub_t0 r = ev_ts (hd (sub_rows r)) \<and> sub_t1 r = ev_ts (last (sub_rows r)) \<and>
       sub_msg_ids r = {m \<in> ev_msg_id ` set (sub_rows r). m \<noteq> []} \<and>
       set (req_bots r) = ev_name ` {e \<in> set (sub_rows r). is_bot e})
     (decompose_task uni cluster) \<and>
   sorted (map sub_t0 (decompose_task uni cluster))"
proof (intro conjI)
  show "sorted (map sub_t0 (decompose_task uni cluster))" by (simp add: decompose_task_def o_def)
  show "list_all (\<lambda>r. sub_rows r \<noteq> [] \<and> set (sub_rows r) \<subseteq> {e \<in> set cluster. \<not> noise e} \<and>
       sorted (map ev_ts (sub_rows r)) \<and>
       sub_t0 r = ev_ts (hd (sub_rows r)) \<and> sub_t1 r = ev_ts (last (sub_rows r)) \<and>
       sub_msg_ids r = {m \<in> ev_msg_id ` set (sub_rows r). m \<noteq> []} \<and>
       set (req_bots r) = ev_name ` {e \<in> set (sub_rows r). is_bot e})
     (decompose_task uni cluster)"
    unfolding list_all_iff [of _ "decompose_task uni cluster"]
  proof
    fix r
    assume "r \<in> set (decompose_task uni cluster)"
    then obtain s where s: "r = finish_sub uni s" "sub_ok s" "set (sub_rows s) \<subseteq> set cluster"
      by (rule decompose_task_sub)
    have ne: "sort_key ev_ts (sub_rows s) \<noteq> []"
      using s(2) by (metis sub_ok_def set_empty set_sort)
    show "sub_rows r \<noteq> [] \<and> set (sub_rows r) \<subseteq> {e \<in> set cluster. \<not> noise e} \<and>
       sorted (map ev_ts (sub_rows r)) \<and>
       sub_t0 r = ev_ts (hd (sub_rows r)) \<and> sub_t1 r = ev_ts (last (sub_rows r)) \<and>
       sub_msg_ids r = {m \<in> ev_msg_id ` set (sub_rows r). m \<noteq> []} \<and>
       set (req_bots r) = ev_name ` {e \<in> set (sub_rows r). is_bot e}"
      using sorted_ends [OF ne, of ev_ts] s ne
      by (auto simp: sub_ok_def bot_names_def list_all_iff)
  qed
qed


text \<open>
  C7. When the requests no bot answered reply only to requests a bot answered, the decomposition
  loses no message: the messages of the requests are a permutation of the messages of the task
  that are not noise.
\<close>

theorem decompose_task_conserves:
  assumes "answered_targets (decompose_loop uni cluster)"
  shows "mset (concat (map sub_rows (decompose_task uni cluster))) =
    mset (filter (\<lambda>e. \<not> noise e) cluster)"
proof -
  let ?subs = "absorb_unanswered (decompose_loop uni cluster)"
  have "map sub_rows (decompose_task uni cluster) = map (sort_key ev_ts) (map sub_rows (sort_key sub_t0 ?subs))"
    by (simp add: decompose_task_def)
  moreover have "mset (map sub_rows (sort_key sub_t0 ?subs)) = mset (map sub_rows ?subs)" by simp
  then have "mset (concat (map sub_rows (sort_key sub_t0 ?subs))) = rows_of ?subs"
    by (metis mset_concat mset_map sum_mset_sum_list)
  ultimately show ?thesis
    using absorb_unanswered_keeps [OF assms] decompose_loop_ok(2) [of uni cluster]
    by (simp add: mset_concat_sort del: map_map)
qed

section \<open>Concrete tasks\<close>

definition answered_task :: "unit event list" where
  "answered_task =
     [message 0 ''user'' ''a'' [] ''build the report'', message 1 ''bot'' ''b'' ''a'' ''working on it'',
      message 2 ''user'' ''c'' ''b'' ''deploy server alpha'']"

theorem decompose_task_conserves_witness:
  "mset (concat (map sub_rows (decompose_task ascii answered_task))) =
   mset (filter (\<lambda>e. \<not> noise e) answered_task) \<and>
   answered_targets (decompose_loop ascii answered_task)"
proof -
  have "answered_targets (decompose_loop ascii answered_task)" by code_simp
  then show ?thesis using decompose_task_conserves [of ascii answered_task] by simp
qed



text \<open>
  The hypothesis of the conservation theorem is needed: in a chain of unanswered requests the
  second one is merged into a request that has just been removed, and its message is lost; two
  unanswered requests that reply to each other vanish both.
\<close>

lemma decompose_task_loses_reply_chain:
  "map (\<lambda>r. map ev_msg_id (sub_rows r)) (decompose_task ascii
     (answered_task @ [message 3 ''user'' ''d'' ''c'' ''rename module gamma''])) =
   [[lit ''a'', lit ''b'', lit ''c'']]"
  "decompose_task ascii
     [message 0 ''user'' ''a'' ''b'' ''build the report'',
      message 1 ''user'' ''b'' ''a'' ''deploy server alpha''] = []"
  by code_simp+

text \<open>Before the first user speaks every message of a bot opens a request, even a reply to the last.\<close>

lemma decompose_task_leading_bots:
  "map (\<lambda>r. map ev_msg_id (sub_rows r)) (decompose_task ascii
     [message 0 ''bot'' ''a'' [] ''report is ready'', message 1 ''bot'' ''b'' ''a'' ''server is up'']) =
   [[lit ''a''], [lit ''b'']]"
  by code_simp

end
