(* ===== verification/Llm_Segment.thy ===== *)
theory Llm_Segment
  imports Task_Stitch
begin

text \<open>
  Grouping atomic segments into tasks by a language model, from
  \<^verbatim>\<open>trajectory_extract/llm_segment.py\<close>: reading the answer of the model, auditing it, the guard that
  splits a task again and assembling the clusters.  The answers of the model are arguments of the
  definitions: nothing is assumed of them.  A reference to a segment is either a number or the text
  Python prints for any other value; \<open>digit_value\<close> is the value of a decimal digit of Unicode,
  and the length limit of the interpreter on integer literals is not modelled.  A list of references is
  \<^const>\<open>None\<close> when the model wrote a bare number, over which the code cannot iterate; a result is
  \<^const>\<open>None\<close> when the code raises.
\<close>

datatype seg_ref = SegNum int | SegText str

type_synonym seg_refs = "seg_ref list option"

record llm_task =
  task_title :: str
  task_goal :: str
  task_reason :: str
  member_segs :: seg_refs
  split_audit :: "str option"

record task_meta =
  meta_title :: str
  meta_goal :: str
  meta_reason :: str
  meta_segs :: "nat list"

section \<open>Reading the answer\<close>

definition int_of_digits :: "(uchar \<Rightarrow> nat) \<Rightarrow> str \<Rightarrow> nat" where
  "int_of_digits digit_value s = foldl (\<lambda>n c. 10 * n + digit_value c) 0 s"

fun ref_ints :: "unicode \<Rightarrow> (uchar \<Rightarrow> nat) \<Rightarrow> seg_ref \<Rightarrow> nat list" where
  "ref_ints uni dv (SegNum i) = [nat \<bar>i\<bar>]"
| "ref_ints uni dv (SegText s) = map (int_of_digits dv) (runs (is_decimal uni) s)"

definition seg_ints :: "unicode \<Rightarrow> (uchar \<Rightarrow> nat) \<Rightarrow> seg_refs \<Rightarrow> nat list option" where
  "seg_ints uni dv members = map_option (\<lambda>xs. concat (map (ref_ints uni dv) xs)) members"

definition task_refs :: "unicode \<Rightarrow> (uchar \<Rightarrow> nat) \<Rightarrow> llm_task list \<Rightarrow> nat list list option" where
  "task_refs uni dv tasks = those (map (\<lambda>t. seg_ints uni dv (member_segs t)) tasks)"

definition audit_membership ::
    "unicode \<Rightarrow> (uchar \<Rightarrow> nat) \<Rightarrow> llm_task list \<Rightarrow> nat \<Rightarrow> (nat list \<times> nat list) option" where
  "audit_membership uni dv tasks n_segs =
     map_option (\<lambda>refs.
       let cnt = concat refs in
       (sort (filter (\<lambda>k. 1 < count_list cnt k) (remdups cnt)),
        filter (\<lambda>k. k \<notin> set cnt) [1..<Suc n_segs])) (task_refs uni dv tasks)"

section \<open>Splitting a task again\<close>

text \<open>
  The answer of the model for the segments \<open>seg_ids\<close>.  An unknown number or one of an
  earlier group is dropped, a missing one is put back.
\<close>

datatype split_answer = CallFailed | GroupsNotIterable | Groups "seg_refs list"

fun split_loop :: "nat list \<Rightarrow> nat list \<Rightarrow> nat list list \<Rightarrow> nat list list \<times> nat list" where
  "split_loop seg_ids seen [] = ([], seen)"
| "split_loop seg_ids seen (g # groups) =
     (let ints = filter (\<lambda>x. x \<in> set seg_ids \<and> x \<notin> set seen) g;
          (out, seen) = split_loop seg_ids (seen @ ints) groups
      in (if ints \<noteq> [] then ints # out else out, seen))"

definition split_groups :: "nat list \<Rightarrow> nat list list \<Rightarrow> nat list list" where
  "split_groups seg_ids groups =
     (let (out, seen) = split_loop seg_ids [] groups;
          missing = filter (\<lambda>s. s \<notin> set seen) seg_ids;
          out = (if missing \<noteq> [] then out @ [missing] else out)
      in if out = [] then [seg_ids] else out)"

text \<open>
  The texts of the segments are looked up before the call is guarded: a number past the last of
  the \<open>n\<close> segments raises, and 0 is the last segment.
\<close>

definition split_audit_llm ::
    "unicode \<Rightarrow> (uchar \<Rightarrow> nat) \<Rightarrow> (nat list \<Rightarrow> split_answer) \<Rightarrow> nat \<Rightarrow> nat list \<Rightarrow>
     nat list list option" where
  "split_audit_llm uni dv llm n seg_ids =
     (let seg_ids = sort (remdups seg_ids) in
      if length seg_ids < 2 then Some [seg_ids]
      else if n = 0 \<or> list_ex (\<lambda>s. n < s) seg_ids then None
      else
        (case llm seg_ids of
           CallFailed \<Rightarrow> Some [seg_ids]
         | GroupsNotIterable \<Rightarrow> None
         | Groups groups \<Rightarrow>
             map_option (split_groups seg_ids) (those (map (seg_ints uni dv) groups))))"

definition split_members :: "llm_task \<Rightarrow> nat list \<Rightarrow> llm_task" where
  "split_members t g =
     t\<lparr> member_segs := Some (map (\<lambda>x. SegNum (int x)) g),
        split_audit := Some ([25286, 33258, 12300] @ task_title t @ [12301]) \<rparr>"

definition split_task ::
    "unicode \<Rightarrow> (uchar \<Rightarrow> nat) \<Rightarrow> (nat list \<Rightarrow> split_answer) \<Rightarrow> nat \<Rightarrow> llm_task \<Rightarrow>
     llm_task list option" where
  "split_task uni dv llm n t =
     Option.bind (seg_ints uni dv (member_segs t)) (\<lambda>refs.
       let seg_ids = sort (remdups refs) in
       if length seg_ids < 2 then Some [t]
       else
         map_option (\<lambda>groups.
           if length groups \<le> 1 then [t] else map (split_members t) groups)
           (split_audit_llm uni dv llm n seg_ids))"

definition apply_split_guard ::
    "unicode \<Rightarrow> (uchar \<Rightarrow> nat) \<Rightarrow> (nat list \<Rightarrow> split_answer) \<Rightarrow> bool \<Rightarrow> nat \<Rightarrow>
     llm_task list \<Rightarrow> llm_task list option" where
  "apply_split_guard uni dv llm enabled n tasks =
     (if enabled then map_option concat (those (map (split_task uni dv llm n) tasks)) else Some tasks)"

section \<open>Assembling the clusters\<close>

definition min_seg :: "nat list \<Rightarrow> nat" where
  "min_seg refs = (case refs of [] \<Rightarrow> 10 ^ 9 | x # xs \<Rightarrow> foldl min x xs)"

text \<open>The numbers of a task that are in range and not taken yet, each once.\<close>

fun take_segs :: "nat \<Rightarrow> nat list \<Rightarrow> nat list \<Rightarrow> nat list" where
  "take_segs n seen [] = []"
| "take_segs n seen (x # xs) =
     (if 1 \<le> x \<and> x \<le> n \<and> x \<notin> set seen then x # take_segs n (seen @ [x]) xs
      else take_segs n seen xs)"

definition seg_rows_of :: "'r event list list \<Rightarrow> nat list \<Rightarrow> 'r event list" where
  "seg_rows_of atoms idxs = concat (map (\<lambda>x. atoms ! (x - 1)) idxs)"

definition task_cluster ::
    "'r event list list \<Rightarrow> llm_task \<Rightarrow> nat list \<Rightarrow> 'r event list \<times> task_meta" where
  "task_cluster atoms t idxs =
     (sort_key ev_ts (seg_rows_of atoms idxs),
      \<lparr> meta_title = task_title t, meta_goal = task_goal t, meta_reason = task_reason t,
        meta_segs = idxs \<rparr>)"

fun assemble_loop ::
    "'r event list list \<Rightarrow> nat list \<Rightarrow> (nat list \<times> llm_task) list \<Rightarrow>
     ('r event list \<times> task_meta) list \<times> nat list" where
  "assemble_loop atoms seen [] = ([], seen)"
| "assemble_loop atoms seen ((refs, t) # tasks) =
     (let idxs = take_segs (length atoms) seen refs;
          (out, seen) = assemble_loop atoms (seen @ idxs) tasks
      in (if idxs = [] then out else task_cluster atoms t idxs # out, seen))"

definition orphan_cluster :: "'r event list list \<Rightarrow> nat \<Rightarrow> 'r event list \<times> task_meta" where
  "orphan_cluster atoms x =
     (atoms ! (x - 1),
      \<lparr> meta_title = lit ''(LLM '' @ [26410, 24402, 31867, 183, 23396, 27573] @ lit '')'',
        meta_goal = [], meta_reason = [26410, 24402, 31867, 34917, 23396, 20219, 21153],
        meta_segs = [x] \<rparr>)"

definition assemble :: "'r event list list \<Rightarrow> (nat list \<times> llm_task) list \<Rightarrow>
     ('r event list \<times> task_meta) list" where
  "assemble atoms tasks =
     (let (out, seen) = assemble_loop atoms [] (sort_key (\<lambda>(refs, _). min_seg refs) tasks);
          orphans = filter (\<lambda>x. x \<notin> set seen) [1..<Suc (length atoms)]
      in sort_key (\<lambda>(c, _). ev_ts (hd c)) (out @ map (orphan_cluster atoms) orphans))"

definition assemble_clusters ::
    "unicode \<Rightarrow> (uchar \<Rightarrow> nat) \<Rightarrow> 'r event list list \<Rightarrow> llm_task list \<Rightarrow>
     ('r event list \<times> task_meta) list option" where
  "assemble_clusters uni dv atoms tasks =
     map_option (\<lambda>refs. assemble atoms (zip refs tasks)) (task_refs uni dv tasks)"

section \<open>Which messages a request of the model refers to\<close>

definition subreq_member_msg_ids :: "'r event list \<Rightarrow> int option list \<Rightarrow> str list" where
  "subreq_member_msg_ids eff idxs =
     List.map_filter (\<lambda>i. case i of
         Some i \<Rightarrow>
           if 0 < i \<and> i \<le> int (length eff) \<and> ev_msg_id (eff ! nat (i - 1)) \<noteq> []
           then Some (ev_msg_id (eff ! nat (i - 1))) else None
       | None \<Rightarrow> None) idxs"

section \<open>The guard that splits keeps the segments\<close>

text \<open>The groups are disjoint: a number of one group is in no later one.\<close>

abbreviation disjoint_groups :: "nat list list \<Rightarrow> bool" where
  "disjoint_groups \<equiv> sorted_wrt (\<lambda>g h. set g \<inter> set h = {})"

lemma split_loop_partition:
  assumes "split_loop seg_ids seen groups = (out, seen')"
  shows "set seen' = set seen \<union> set (concat out) \<and> set (concat out) \<subseteq> set seg_ids - set seen \<and>
    disjoint_groups out \<and> [] \<notin> set out"
  using assms
proof (induction groups arbitrary: seen out seen')
  case (Cons g groups)
  define ints where "ints = filter (\<lambda>x. x \<in> set seg_ids \<and> x \<notin> set seen) g"
  have ints: "set ints \<subseteq> set seg_ids - set seen" by (auto simp: ints_def)
  obtain out1 where rec: "split_loop seg_ids (seen @ ints) groups = (out1, seen')"
    "out = (if ints \<noteq> [] then ints # out1 else out1)"
    using Cons.prems by (auto simp: Let_def ints_def split: prod.splits)
  note IH = Cons.IH [OF rec(1)]
  show ?case
  proof (cases "ints = []")
    case True
    then show ?thesis using IH rec(2) by simp
  next
    case False
    then show ?thesis using IH rec(2) ints by auto
  qed
qed simp

lemma split_groups_partition:
  assumes "seg_ids \<noteq> []"
  shows "set (concat (split_groups seg_ids groups)) = set seg_ids \<and>
    disjoint_groups (split_groups seg_ids groups) \<and> [] \<notin> set (split_groups seg_ids groups)"
proof -
  obtain out seen where loop: "split_loop seg_ids [] groups = (out, seen)" by fastforce
  define missing where "missing = filter (\<lambda>s. s \<notin> set seen) seg_ids"
  have missing: "set missing = set seg_ids - set seen" by (auto simp: missing_def)
  have "split_groups seg_ids groups =
      (let out = (if missing \<noteq> [] then out @ [missing] else out) in if out = [] then [seg_ids] else out)"
    by (simp add: split_groups_def loop missing_def Let_def)
  then show ?thesis
    using split_loop_partition [OF loop] missing assms
    by (cases "missing = []") (auto simp: sorted_wrt_append)
qed

section \<open>Assembling loses nothing\<close>











section \<open>What the grouping guarantees\<close>

lemma those_Some: "those zs = Some ys \<longleftrightarrow> zs = map Some ys"
  by (induction zs arbitrary: ys) (auto split: option.splits)






lemma seg_ints_nums: "seg_ints uni dv (Some (map (\<lambda>x. SegNum (int x)) g)) = Some g"
  by (induction g) (auto simp: seg_ints_def)

lemma task_refs_concat:
  assumes "task_refs uni dv xs = Some a" "task_refs uni dv ys = Some b"
  shows "task_refs uni dv (xs @ ys) = Some (a @ b)"
  using assms by (simp add: task_refs_def those_Some)

lemma sort_remdups_idem [simp]: "sort (remdups (sort (remdups xs))) = sort (remdups xs)"
  by (simp add: distinct_remdups_id sorted_sort_id)

lemma split_task_refs:
  assumes "split_task uni dv llm n t = Some ts" "seg_ints uni dv (member_segs t) = Some refs"
  shows "\<exists>rs. task_refs uni dv ts = Some rs \<and> set (concat rs) = set refs"
proof (cases "ts = [t]")
  case True
  then show ?thesis using assms(2) by (simp add: task_refs_def)
next
  case False
  let ?ids = "sort (remdups refs)"
  obtain groups where g: "split_audit_llm uni dv llm n ?ids = Some groups" "ts = map (split_members t) groups"
      "2 \<le> length ?ids" "1 < length groups"
    using assms False by (auto simp: split_task_def Let_def split: if_splits)
  then obtain gs where "groups = split_groups ?ids gs"
    by (auto simp: split_audit_llm_def Let_def split: if_splits split_answer.splits)
  moreover have "?ids \<noteq> []" using g(3) by fastforce
  ultimately have "set (concat groups) = set refs" using split_groups_partition [of ?ids gs] by simp
  moreover have "task_refs uni dv ts = Some groups"
    unfolding g(2) by (simp add: task_refs_def those_Some split_members_def seg_ints_nums o_def)
  ultimately show ?thesis by blast
qed

lemma split_tasks_refs:
  assumes "those (map (split_task uni dv llm n) tasks) = Some tss" "task_refs uni dv tasks = Some refs"
  shows "\<exists>rs. task_refs uni dv (concat tss) = Some rs \<and> set (concat rs) = set (concat refs)"
  using assms
proof (induction tasks arbitrary: tss refs)
  case (Cons t tasks)
  obtain ts tss' r refs' where p: "split_task uni dv llm n t = Some ts" "tss = ts # tss'"
      "those (map (split_task uni dv llm n) tasks) = Some tss'"
      "seg_ints uni dv (member_segs t) = Some r" "refs = r # refs'" "task_refs uni dv tasks = Some refs'"
    using Cons.prems by (auto simp: task_refs_def split: option.splits)
  obtain rs1 where rs1: "task_refs uni dv ts = Some rs1" "set (concat rs1) = set r"
    using split_task_refs [OF p(1,4)] by blast
  obtain rs2 where rs2: "task_refs uni dv (concat tss') = Some rs2" "set (concat rs2) = set (concat refs')"
    using Cons.IH [OF p(3,6)] by blast
  have "set (concat (rs1 @ rs2)) = set (concat refs)" using rs1(2) rs2(2) p(5) by simp
  then show ?case using task_refs_concat [OF rs1(1) rs2(1)] p(2) by auto
qed (simp add: task_refs_def)

text \<open>
  C29. The guard that splits tasks changes only how the segments are grouped: when it returns, the
  tasks refer to the same segments as before, so the audit reports the same missing segments.
\<close>

theorem split_guard_keeps_segments:
  assumes "apply_split_guard uni dv llm enabled n tasks = Some tasks'"
    and "audit_membership uni dv tasks n_segs = Some (overlaps, missing)"
  shows "\<exists>overlaps'. audit_membership uni dv tasks' n_segs = Some (overlaps', missing)"
proof -
  obtain refs where refs: "task_refs uni dv tasks = Some refs"
      "missing = filter (\<lambda>k. k \<notin> set (concat refs)) [1..<Suc n_segs]"
    using assms(2) by (auto simp: audit_membership_def Let_def simp del: upt_Suc)
  have "\<exists>rs. task_refs uni dv tasks' = Some rs \<and> set (concat rs) = set (concat refs)"
    using assms(1) refs(1) split_tasks_refs by (fastforce simp: apply_split_guard_def split: if_splits)
  then show ?thesis
    unfolding audit_membership_def Let_def refs(2)
    by (auto simp del: upt_Suc set_concat)
qed

section \<open>Concrete answers\<close>

definition ascii_digit :: "uchar \<Rightarrow> nat" where
  "ascii_digit c = c - 48"

definition answer :: "seg_refs \<Rightarrow> llm_task" where
  "answer refs = \<lparr> task_title = lit ''task'', task_goal = [], task_reason = [], member_segs = refs,
     split_audit = None \<rparr>"

definition three_atoms :: "unit event list list" where
  "three_atoms =
     [[message 0 ''user'' ''a'' [] ''build the report''], [message 3000 ''user'' ''b'' [] ''deploy it''],
      [message 9000 ''user'' ''c'' [] ''rename it'']]"


theorem split_guard_keeps_segments_witness:
  "\<exists>overlaps'. audit_membership ascii ascii_digit
     [(answer None)\<lparr> member_segs := Some [SegNum 1], split_audit := Some ([25286, 33258, 12300] @ lit ''task'' @ [12301]) \<rparr>,
      (answer None)\<lparr> member_segs := Some [SegNum 2], split_audit := Some ([25286, 33258, 12300] @ lit ''task'' @ [12301]) \<rparr>] 3 =
   Some (overlaps', [3])"
proof (rule split_guard_keeps_segments)
  show "apply_split_guard ascii ascii_digit (\<lambda>_. Groups [Some [SegNum 1]]) True 3
      [answer (Some [SegNum 1, SegNum 2])] =
    Some [(answer None)\<lparr> member_segs := Some [SegNum 1], split_audit := Some ([25286, 33258, 12300] @ lit ''task'' @ [12301]) \<rparr>,
      (answer None)\<lparr> member_segs := Some [SegNum 2], split_audit := Some ([25286, 33258, 12300] @ lit ''task'' @ [12301]) \<rparr>]"
    by code_simp
  show "audit_membership ascii ascii_digit [answer (Some [SegNum 1, SegNum 2])] 3 = Some ([], [3])"
    by code_simp
qed

text \<open>
  The guard raises on answers it is documented to tolerate: groups that are bare numbers, no list
  of groups, and a task that refers to a segment past the last one, which assembling ignores.
\<close>

lemma split_guard_raises:
  "split_audit_llm ascii ascii_digit (\<lambda>_. Groups [None, None]) 3 [1, 2] = None"
  "split_audit_llm ascii ascii_digit (\<lambda>_. GroupsNotIterable) 3 [1, 2] = None"
  "split_audit_llm ascii ascii_digit (\<lambda>_. CallFailed) 3 [1, 9] = None"
  "assemble_clusters ascii ascii_digit three_atoms [answer (Some [SegNum 1, SegNum 9])] \<noteq> None"
  by code_simp+

end
