(* ===== verification/Llm_Decompose.thy ===== *)
theory Llm_Decompose
  imports Llm_Segment "HOL-Library.Extended_Nat"
begin

text \<open>
  Splitting a task into requests by a language model, from
  \<^verbatim>\<open>trajectory_extract/llm_decompose.py\<close>: cutting a large task into chunks and the repairs the code
  makes to the answer of the model before it is used.  The answers are arguments of the
  definitions.  \<open>num\<close> is \<open>as_seg_int\<close> with the tables of Unicode it needs; the lists of
  actions for the report are not modelled.
\<close>

record 'x request =
  rq_id :: "str option"
  rq_title :: str
  rq_lead_quote :: str
  rq_lead_role :: str
  rq_dominant :: str
  rq_type :: str
  rq_status :: str
  member_idx :: "'x list"

record request_edge =
  edge_from :: "str option"
  edge_to :: "str option"
  edge_type :: str

record 'x decomposition =
  dec_goal :: str
  dec_delivery :: str
  subreqs :: "'x request list"
  edges :: "request_edge list"

fun as_seg_int :: "unicode \<Rightarrow> (uchar \<Rightarrow> nat) \<Rightarrow> seg_ref \<Rightarrow> nat option" where
  "as_seg_int uni dv (SegNum i) = Some (nat \<bar>i\<bar>)"
| "as_seg_int uni dv (SegText s) =
     (case runs (is_decimal uni) s of r # _ \<Rightarrow> Some (int_of_digits dv r) | [] \<Rightarrow> None)"

section \<open>Chunks of a large task\<close>

definition effective :: "unicode \<Rightarrow> 'r event list \<Rightarrow> 'r event list" where
  "effective uni cluster =
     filter (\<lambda>e. \<not> noise e \<and> py_strip (strip_feishu uni (ev_text e)) \<noteq> []) cluster"

fun best_cut :: "'r event list \<Rightarrow> nat \<times> rat \<Rightarrow> nat list \<Rightarrow> nat" where
  "best_cut eff (best, best_gap) [] = best"
| "best_cut eff (best, best_gap) (i # is) =
     (let gap = ev_ts (eff ! i) - ev_ts (eff ! (i - 1)) in
      best_cut eff (if best_gap < gap then (i, gap) else (best, best_gap)) is)"

definition cut_at :: "'r event list \<Rightarrow> nat \<Rightarrow> nat \<Rightarrow> nat" where
  "cut_at eff chunk_size k =
     (let ideal = k * chunk_size;
          lo = max 1 (ideal - chunk_size div 3);
          hi = min (length eff - 1) (ideal + chunk_size div 3)
      in best_cut eff (ideal, -1) [lo..<Suc hi])"

fun slices :: "'a list \<Rightarrow> nat \<Rightarrow> nat list \<Rightarrow> 'a list list" where
  "slices eff prev [] = [drop prev eff]"
| "slices eff prev (c # cs) =
     (if prev < c then drop prev (take c eff) # slices eff c cs else slices eff prev cs)"

definition ceil_div :: "nat \<Rightarrow> nat \<Rightarrow> nat" where
  "ceil_div a b = (a + b - 1) div b"

definition split_by_gaps :: "'r event list \<Rightarrow> nat \<Rightarrow> 'r event list list" where
  "split_by_gaps eff target =
     (let n = length eff in
      if n \<le> target then [eff]
      else
        (let nchunks = ceil_div n target;
             chunk_size = ceil_div n nchunks;
             cuts = map (cut_at eff chunk_size) [1..<nchunks]
         in filter (\<lambda>c. c \<noteq> []) (slices eff 0 (sort (remdups cuts)))))"

section \<open>The status of an unfinished task\<close>

definition UNFINISHED :: str where "UNFINISHED = [26410, 32456, 32467]"
definition REWORKED :: str where "REWORKED = [26377, 36820, 24037]"
definition ONE_PASS :: str where "ONE_PASS = [19968, 36941, 36807]"
definition CORRECTED :: str where "CORRECTED = [34987, 32416, 20559]"

definition rework_ids :: "request_edge list \<Rightarrow> str option set" where
  "rework_ids es =
     (let rs = filter (\<lambda>e. py_contains (edge_type e) [36820, 24037]) es
      in set (map edge_from rs) \<union> set (map edge_to rs))"

definition max_idx :: "('x \<Rightarrow> nat option) \<Rightarrow> 'x request \<Rightarrow> int" where
  "max_idx num s =
     (case List.map_filter num (member_idx s) of
        [] \<Rightarrow> -1
      | v # vs \<Rightarrow> int (foldl max v vs))"

definition proven_status :: "str option set \<Rightarrow> 'x request \<Rightarrow> 'x request" where
  "proven_status rids s = s\<lparr> rq_status := (if rq_id s \<in> rids then REWORKED else ONE_PASS) \<rparr>"

definition tail_of :: "('x \<Rightarrow> nat option) \<Rightarrow> 'x request list \<Rightarrow> nat" where
  "tail_of num subs = argmax (\<lambda>i. max_idx num (subs ! i)) 0 [1..<length subs]"

definition enforce_terminal_tail ::
    "('x \<Rightarrow> nat option) \<Rightarrow> bool \<Rightarrow> 'x decomposition \<Rightarrow> 'x decomposition" where
  "enforce_terminal_tail num terminal d =
     (if subreqs d = [] then d
      else
        (let rids = rework_ids (edges d);
             tail = tail_of num (subreqs d)
         in d\<lparr> subreqs := map (\<lambda>(i, s).
                 if i \<noteq> tail then
                   (if rq_status s = UNFINISHED then proven_status rids s else s)
                 else if \<not> terminal then s\<lparr> rq_status := UNFINISHED \<rparr>
                 else if rq_status s = UNFINISHED then proven_status rids s
                 else s) (List.enumerate 0 (subreqs d)) \<rparr>))"

section \<open>Resolving overlaps\<close>

definition PIVOT_MAX :: nat where "PIVOT_MAX = 2"
definition PIVOT_EDGE_TYPE :: str where
  "PIVOT_EDGE_TYPE = [10556, 26530, 32445, 40, 25601, 32622, 36716, 25509, 41]"

definition seg_members :: "('x \<Rightarrow> nat option) \<Rightarrow> 'x request \<Rightarrow> nat list" where
  "seg_members num s = sort (remdups (List.map_filter num (member_idx s)))"

definition seg_span :: "('x \<Rightarrow> nat option) \<Rightarrow> 'x request \<Rightarrow> enat" where
  "seg_span num s =
     (case seg_members num s of [] \<Rightarrow> \<infinity> | m # ms \<Rightarrow> enat (last (m # ms) - m))"

definition strip_members :: "('x \<Rightarrow> nat option) \<Rightarrow> nat list \<Rightarrow> 'x request \<Rightarrow> 'x request" where
  "strip_members num dropped s =
     s\<lparr> member_idx := filter (\<lambda>x. num x \<notin> Some ` set dropped) (member_idx s) \<rparr>"

definition msg_to_subs :: "('x \<Rightarrow> nat option) \<Rightarrow> 'x request list \<Rightarrow> (nat \<times> nat list) list" where
  "msg_to_subs num subs =
     map (\<lambda>v. (v, filter (\<lambda>i. v \<in> set (seg_members num (subs ! i))) [0..<length subs]))
       (uniq (concat (map (seg_members num) subs)))"

definition ensure_pivot_edge ::
    "str option \<Rightarrow> str option \<Rightarrow> request_edge list \<Rightarrow> request_edge list" where
  "ensure_pivot_edge from_id to_id es =
     (if from_id \<in> {None, Some []} \<or> to_id \<in> {None, Some []} \<or> from_id = to_id then es
      else if list_ex (\<lambda>e. edge_from e = from_id \<and> edge_to e = to_id) es then es
      else es @ [\<lparr> edge_from = from_id, edge_to = to_id, edge_type = PIVOT_EDGE_TYPE \<rparr>])"

fun dedup_loop :: "('x \<Rightarrow> nat option) \<Rightarrow> nat list \<Rightarrow> 'x list \<Rightarrow> 'x list" where
  "dedup_loop num seen [] = []"
| "dedup_loop num seen (x # xs) =
     (case num x of
        None \<Rightarrow> x # dedup_loop num seen xs
      | Some v \<Rightarrow> if v \<in> set seen then dedup_loop num seen xs else x # dedup_loop num (v # seen) xs)"

definition dedup_members :: "('x \<Rightarrow> nat option) \<Rightarrow> 'x request \<Rightarrow> 'x request" where
  "dedup_members num s = s\<lparr> member_idx := dedup_loop num [] (member_idx s) \<rparr>"

definition audit_overlaps :: "('x \<Rightarrow> nat option) \<Rightarrow> 'x request list \<Rightarrow> nat list" where
  "audit_overlaps num subs =
     (let cnt = concat (map (\<lambda>s. List.map_filter num (member_idx s)) subs)
      in sort (filter (\<lambda>k. 1 < count_list cnt k) (remdups cnt)))"

definition audit_members :: "('x \<Rightarrow> nat option) \<Rightarrow> 'x request list \<Rightarrow> nat \<Rightarrow> nat list \<times> nat list" where
  "audit_members num subs n_rows =
     (audit_overlaps num subs,
      filter (\<lambda>k. k \<notin> set (concat (map (\<lambda>s. List.map_filter num (member_idx s)) subs)))
        [1..<Suc n_rows])"

fun index_pairs :: "nat list \<Rightarrow> (nat \<times> nat) list" where
  "index_pairs [] = []"
| "index_pairs (i # is) = map (Pair i) is @ index_pairs is"

text \<open>The dictionary from pairs of requests to the numbers they share, in the order of insertion.\<close>

definition pair_shared :: "(nat \<times> nat list) list \<Rightarrow> ((nat \<times> nat) \<times> nat list) list" where
  "pair_shared m2s =
     map (\<lambda>(i, j). ((i, j), map fst (filter (\<lambda>(m, is). i \<in> set is \<and> j \<in> set is) m2s)))
       (uniq (concat (map (\<lambda>(m, is). index_pairs is) m2s)))"

definition first_member :: "('x \<Rightarrow> nat option) \<Rightarrow> 'x request \<Rightarrow> nat" where
  "first_member num s = (case seg_members num s of [] \<Rightarrow> 10 ^ 9 | m # _ \<Rightarrow> m)"

text \<open>
  A pair in the order of its first numbers.  On a tie the order is the one in which Python iterates
  over a set of two numbers, which the language leaves open: \<open>tie i j\<close> says that \<open>i\<close> comes
  first.
\<close>

definition order_pair ::
    "('x \<Rightarrow> nat option) \<Rightarrow> (nat \<Rightarrow> nat \<Rightarrow> bool) \<Rightarrow> 'x request list \<Rightarrow> nat \<times> nat \<Rightarrow> nat \<times> nat" where
  "order_pair num tie subs ij =
     (case ij of (i, j) \<Rightarrow>
        let ki = first_member num (subs ! i); kj = first_member num (subs ! j) in
        if ki < kj \<or> ki = kj \<and> tie i j then (i, j) else (j, i))"

definition pivot_step ::
    "('x \<Rightarrow> nat option) \<Rightarrow> (nat \<Rightarrow> nat \<Rightarrow> bool) \<Rightarrow> (nat \<times> nat) \<times> nat list \<Rightarrow>
     'x decomposition \<times> bool \<Rightarrow> 'x decomposition \<times> bool" where
  "pivot_step num tie ps st =
     (case ps of (pair, shared) \<Rightarrow> case st of (d, has_large) \<Rightarrow>
        if PIVOT_MAX < length shared then (d, True)
        else
          (case order_pair num tie (subreqs d) pair of (a, b) \<Rightarrow>
             let subs = (subreqs d)[a := strip_members num shared (subreqs d ! a)]
             in (d\<lparr> subreqs := subs,
                    edges := ensure_pivot_edge (rq_id (subs ! a)) (rq_id (subs ! b)) (edges d) \<rparr>,
                 has_large)))"

fun argmin :: "('a \<Rightarrow> 'k::linorder) \<Rightarrow> 'a \<Rightarrow> 'a list \<Rightarrow> 'a" where
  "argmin f best [] = best"
| "argmin f best (x # xs) = argmin f (if f x < f best then x else best) xs"

definition narrow_step ::
    "('x \<Rightarrow> nat option) \<Rightarrow> nat \<times> nat list \<Rightarrow> 'x request list \<Rightarrow> 'x request list" where
  "narrow_step num mi subs =
     (case mi of
        (m, i # j # is) \<Rightarrow>
          (let winner = argmin (\<lambda>k. seg_span num (subs ! k)) i (j # is)
           in map (\<lambda>(k, s). if k \<in> set (i # j # is) \<and> k \<noteq> winner then strip_members num [m] s else s)
                (List.enumerate 0 subs))
      | _ \<Rightarrow> subs)"

definition prune_empty_subreqs :: "('x \<Rightarrow> nat option) \<Rightarrow> 'x decomposition \<Rightarrow> 'x decomposition" where
  "prune_empty_subreqs num d =
     (let dropped = map rq_id (filter (\<lambda>s. seg_members num s = []) (subreqs d)) in
      if dropped = [] then d
      else
        d\<lparr> subreqs := filter (\<lambda>s. seg_members num s \<noteq> []) (subreqs d),
           edges := filter (\<lambda>e. edge_from e \<notin> set dropped \<and> edge_to e \<notin> set dropped) (edges d) \<rparr>)"

definition resolve_overlaps ::
    "('x \<Rightarrow> nat option) \<Rightarrow> (nat \<Rightarrow> nat \<Rightarrow> bool) \<Rightarrow> bool \<Rightarrow> bool \<Rightarrow> 'x decomposition \<Rightarrow>
     'x decomposition \<times> bool" where
  "resolve_overlaps num tie soft force d =
     (let d = d\<lparr> subreqs := map (dedup_members num) (subreqs d) \<rparr> in
      if soft \<or> length (subreqs d) < 2 \<or> audit_overlaps num (subreqs d) = [] then (d, False)
      else
        (let (d, has_large) = fold (pivot_step num tie)
               (pair_shared (msg_to_subs num (subreqs d))) (d, False)
         in if has_large \<and> \<not> force then (d, True)
            else
              (let d = (if has_large
                        then d\<lparr> subreqs := fold (narrow_step num) (msg_to_subs num (subreqs d)) (subreqs d) \<rparr>
                        else d)
               in (prune_empty_subreqs num d, False))))"

section \<open>Separating a detour from the correction\<close>

text \<open>Python's index \<open>idx - 1\<close>: 0 is the last message, a number past the end raises.\<close>

definition is_user_at :: "'r event list \<Rightarrow> nat \<Rightarrow> bool option" where
  "is_user_at meta idx =
     (if length meta < idx \<or> meta = [] then None
      else Some (is_user (if idx = 0 then last meta else meta ! (idx - 1))))"

fun remind_pos :: "'r event list \<Rightarrow> nat list \<Rightarrow> nat option option" where
  "remind_pos meta [] = Some None"
| "remind_pos meta (idx # rest) =
     Option.bind (is_user_at meta idx) (\<lambda>u.
       if u then Some (Some 0) else map_option (map_option Suc) (remind_pos meta rest))"

definition is_rollback :: "'x request \<Rightarrow> bool" where
  "is_rollback s \<longleftrightarrow>
     rq_status s = CORRECTED \<and> rq_type s \<in> {[25910, 23614], [26049, 25903]}"

definition sorted_members :: "('x \<Rightarrow> nat option) \<Rightarrow> 'x request \<Rightarrow> nat list" where
  "sorted_members num s = sort (List.map_filter num (member_idx s))"

text \<open>The name of the last bot message of the detour; every message before the reminder is one.\<close>

definition stray_bot :: "'r event list \<Rightarrow> nat list \<Rightarrow> str" where
  "stray_bot meta detour =
     (let i = last detour; n = ev_name (if i = 0 then last meta else meta ! (i - 1))
      in if n = [] then [40, 36208, 20559, 26041, 41] else n)"

definition retarget :: "str \<Rightarrow> str \<Rightarrow> request_edge \<Rightarrow> request_edge" where
  "retarget old_id new_id e =
     e\<lparr> edge_from := (if edge_from e = Some old_id then Some new_id else edge_from e),
        edge_to := (if edge_to e = Some old_id then Some new_id else edge_to e) \<rparr>"

definition split_rollback ::
    "(nat \<Rightarrow> 'x) \<Rightarrow> 'r event list \<Rightarrow> nat list \<Rightarrow> nat list \<Rightarrow> 'x request \<Rightarrow> request_edge list \<Rightarrow>
     'x request list \<times> request_edge list" where
  "split_rollback lit_num meta detour rest s es =
     (let old_id = (case rq_id s of Some i \<Rightarrow> i | None \<Rightarrow> lit ''S?'');
          stray_id = old_id @ lit ''a''; back_id = old_id @ lit ''b'';
          stray = \<lparr> rq_id = Some stray_id,
                    rq_title = [36208, 20559, 65306] @ take 12 (rq_title s),
                    rq_lead_quote = [], rq_lead_role = lit ''bot'',
                    rq_dominant = stray_bot meta detour, rq_type = [26049, 25903],
                    rq_status = REWORKED, member_idx = map lit_num detour \<rparr>;
          back = s\<lparr> rq_id := Some back_id, member_idx := map lit_num rest \<rparr>
      in ([stray, back],
          map (retarget old_id back_id) es @
            [\<lparr> edge_from = Some stray_id, edge_to = Some back_id, edge_type = [8634, 36820, 24037] \<rparr>]))"

definition purity_step ::
    "('x \<Rightarrow> nat option) \<Rightarrow> (nat \<Rightarrow> 'x) \<Rightarrow> 'r event list \<Rightarrow> 'x request \<Rightarrow> request_edge list \<Rightarrow>
     ('x request list \<times> request_edge list) option" where
  "purity_step num lit_num meta s es =
     (let members = sorted_members num s in
      if \<not> is_rollback s \<or> length members < 2 then Some ([s], es)
      else
        map_option (\<lambda>pos.
          case pos of
            None \<Rightarrow> ([s], es)
          | Some 0 \<Rightarrow> ([s], es)
          | Some p \<Rightarrow> split_rollback lit_num meta (take p members) (drop p members) s es)
          (remind_pos meta members))"

fun purity_loop ::
    "('x \<Rightarrow> nat option) \<Rightarrow> (nat \<Rightarrow> 'x) \<Rightarrow> 'r event list \<Rightarrow> 'x request list \<Rightarrow> request_edge list \<Rightarrow>
     ('x request list \<times> request_edge list) option" where
  "purity_loop num lit_num meta [] es = Some ([], es)"
| "purity_loop num lit_num meta (s # subs) es =
     Option.bind (purity_step num lit_num meta s es) (\<lambda>(new, es).
       map_option (\<lambda>(rest, es). (new @ rest, es)) (purity_loop num lit_num meta subs es))"

definition enforce_rollback_purity ::
    "('x \<Rightarrow> nat option) \<Rightarrow> (nat \<Rightarrow> 'x) \<Rightarrow> 'r event list \<Rightarrow> 'x decomposition \<Rightarrow>
     'x decomposition option" where
  "enforce_rollback_purity num lit_num meta d =
     map_option (\<lambda>(subs, es). d\<lparr> subreqs := subs, edges := es \<rparr>)
       (purity_loop num lit_num meta (subreqs d) (edges d))"

definition enforce_status_sanity :: "('x \<Rightarrow> nat option) \<Rightarrow> 'x decomposition \<Rightarrow> 'x decomposition" where
  "enforce_status_sanity num d =
     (let rids = rework_ids (edges d) in
      d\<lparr> subreqs := map (\<lambda>s.
            if length (List.map_filter num (member_idx s)) < 2 \<and>
               rq_status s \<in> {REWORKED, CORRECTED} \<and> rq_id s \<notin> rids
            then s\<lparr> rq_status := ONE_PASS \<rparr> else s) (subreqs d) \<rparr>)"

section \<open>Decomposing one task\<close>

text \<open>
  One chunk: \<open>attempts\<close> are the answers of the model to the calls that are allowed, \<^const>\<open>None\<close>
  for a failed call.  A large overlap costs one more call; the answer kept last is repaired by
  force.
\<close>

fun one_loop ::
    "('x \<Rightarrow> nat option) \<Rightarrow> (nat \<Rightarrow> 'x) \<Rightarrow> (nat \<Rightarrow> nat \<Rightarrow> bool) \<Rightarrow> bool \<Rightarrow> 'r event list \<Rightarrow> bool \<Rightarrow>
     'x decomposition option \<Rightarrow> 'x decomposition option list \<Rightarrow> 'x decomposition option" where
  "one_loop num lit_num tie soft meta retried kept [] =
     map_option (\<lambda>d. fst (resolve_overlaps num tie soft True d)) kept"
| "one_loop num lit_num tie soft meta retried kept (a # attempts) =
     (case Option.bind a (enforce_rollback_purity num lit_num meta) of
        None \<Rightarrow> one_loop num lit_num tie soft meta retried kept attempts
      | Some d \<Rightarrow>
          (case resolve_overlaps num tie soft retried (enforce_status_sanity num d) of
             (d, large) \<Rightarrow>
               if \<not> large then Some d
               else one_loop num lit_num tie soft meta True (Some d) attempts))"

definition decompose_one ::
    "('x \<Rightarrow> nat option) \<Rightarrow> (nat \<Rightarrow> 'x) \<Rightarrow> (nat \<Rightarrow> nat \<Rightarrow> bool) \<Rightarrow> bool \<Rightarrow> 'r event list \<Rightarrow>
     'x decomposition option list \<Rightarrow> 'x decomposition option" where
  "decompose_one num lit_num tie soft meta attempts =
     one_loop num lit_num tie soft meta False None attempts"

text \<open>
  The requests of the chunks are put together: numbers are shifted by the messages before the chunk,
  an unreadable number counting as 0, and identifiers get the number of the chunk.
\<close>

definition chunk_id :: "nat \<Rightarrow> str option \<Rightarrow> str" where
  "chunk_id ci i = lit ''S'' @ show_nat ci @ lit ''.'' @ (case i of Some i \<Rightarrow> i | None \<Rightarrow> lit ''S?'')"

definition shift_request ::
    "('x \<Rightarrow> nat option) \<Rightarrow> (nat \<Rightarrow> 'x) \<Rightarrow> nat \<Rightarrow> nat \<Rightarrow> 'x request \<Rightarrow> 'x request" where
  "shift_request num lit_num ci offset s =
     s\<lparr> rq_id := Some (chunk_id ci (rq_id s)),
        member_idx := map (\<lambda>x. lit_num ((case num x of Some v \<Rightarrow> v | None \<Rightarrow> 0) + offset)) (member_idx s) \<rparr>"

definition shift_edge :: "nat \<Rightarrow> str option list \<Rightarrow> request_edge \<Rightarrow> request_edge" where
  "shift_edge ci ids e =
     e\<lparr> edge_from := (if edge_from e \<in> set ids then Some (chunk_id ci (edge_from e)) else edge_from e),
        edge_to := (if edge_to e \<in> set ids then Some (chunk_id ci (edge_to e)) else edge_to e) \<rparr>"

fun merge_chunks ::
    "('x \<Rightarrow> nat option) \<Rightarrow> (nat \<Rightarrow> 'x) \<Rightarrow> nat \<Rightarrow> nat \<Rightarrow> ('x decomposition \<times> nat) list \<Rightarrow>
     'x request list \<times> request_edge list" where
  "merge_chunks num lit_num ci offset [] = ([], [])"
| "merge_chunks num lit_num ci offset ((d, n) # ds) =
     (case merge_chunks num lit_num (Suc ci) (offset + n) ds of (subs, es) \<Rightarrow>
        (map (shift_request num lit_num ci offset) (subreqs d) @ subs,
         map (shift_edge ci (map rq_id (subreqs d))) (edges d) @ es))"

definition first_goal :: "'x decomposition list \<Rightarrow> str" where
  "first_goal ds =
     (case List.find (\<lambda>d. dec_goal d \<noteq> []) ds of Some d \<Rightarrow> dec_goal d | None \<Rightarrow> [])"

definition decompose_one_task ::
    "('x \<Rightarrow> nat option) \<Rightarrow> (nat \<Rightarrow> 'x) \<Rightarrow> (nat \<Rightarrow> nat \<Rightarrow> bool) \<Rightarrow> bool \<Rightarrow> unicode \<Rightarrow>
     (bool \<Rightarrow> 'r event list \<Rightarrow> 'x decomposition option list) \<Rightarrow> nat \<Rightarrow> nat \<Rightarrow> bool \<Rightarrow> 'r event list \<Rightarrow>
     ('x decomposition \<times> nat) option" where
  "decompose_one_task num lit_num tie soft uni llm big_threshold chunk_target terminal cluster =
     (let eff = effective uni cluster in
      if length eff \<le> big_threshold then
        map_option (\<lambda>d. (enforce_terminal_tail num terminal d, length eff))
          (decompose_one num lit_num tie soft eff (llm False eff))
      else
        (let chunks = split_by_gaps eff chunk_target in
         map_option (\<lambda>ds.
           case merge_chunks num lit_num 1 0 (zip ds (map length chunks)) of (subs, es) \<Rightarrow>
             (enforce_terminal_tail num terminal
                \<lparr> dec_goal = first_goal ds, dec_delivery = [], subreqs = subs, edges = es \<rparr>,
              sum_list (map length chunks)))
           (those (map (\<lambda>chunk. decompose_one num lit_num tie soft chunk (llm True chunk)) chunks))))"

section \<open>The chunks\<close>

lemma ceil_div_le: "0 < b \<Longrightarrow> a \<le> q * b \<Longrightarrow> ceil_div a b \<le> q"
proof -
  assume b: "0 < b" and a: "a \<le> q * b"
  have "a + b - 1 < Suc q * b" using a b by simp
  then show ?thesis using b by (simp add: ceil_div_def less_mult_imp_div_less flip: less_Suc_eq_le)
qed

lemma le_ceil_div: "0 < b \<Longrightarrow> a \<le> ceil_div a b * b"
proof -
  assume b: "0 < b"
  have "a + b - 1 < ceil_div a b * b + b"
    using b dividend_less_div_times [of b "a + b - 1"] by (simp add: ceil_div_def)
  then show ?thesis using b by simp
qed

lemma ceil_div_less: "0 < a \<Longrightarrow> 0 < b \<Longrightarrow> (ceil_div a b - 1) * b < a"
proof -
  assume "0 < a" "0 < b"
  moreover have "ceil_div a b * b \<le> a + b - 1" unfolding ceil_div_def by (rule div_times_less_eq_dividend)
  ultimately show ?thesis by (simp add: diff_mult_distrib)
qed

lemma concat_slices: "concat (slices eff prev cs) = drop prev eff"
proof (induction eff prev cs rule: slices.induct)
  case (2 eff prev c cs)
  have "drop prev eff = drop prev (take c eff) @ drop c eff" if "prev < c"
    using that by (metis append_take_drop_id drop_append drop_drop le_add_diff_inverse2 less_imp_le
        diff_is_0_eq drop0 length_take min.absorb2 nat_le_linear take_all drop_all append_Nil2)
  then show ?case using 2 by auto
qed simp

lemma best_cut_in: "best_cut eff (best, g) is \<in> set (best # is)"
proof (induction "is" arbitrary: best g)
  case (Cons i "is")
  let ?gap = "ev_ts (eff ! i) - ev_ts (eff ! (i - 1))"
  show ?case using Cons.IH [of i ?gap] Cons.IH [of best g] by (auto simp: Let_def)
qed simp

lemma sorted_remdups_hd: "sorted (y # ys) \<Longrightarrow> \<exists>zs. remdups (y # ys) = y # zs"
proof (induction ys arbitrary: y)
  case (Cons z ys)
  then obtain zs where zs: "remdups (z # ys) = z # zs" by (meson sorted_simps(2))
  show ?case
  proof (cases "y \<in> set (z # ys)")
    case True
    then have "y = z" using Cons.prems by auto
    then show ?thesis using zs by auto
  qed auto
qed simp

lemma successively_remdups:
  "sorted xs \<Longrightarrow> successively P xs \<Longrightarrow> successively P (remdups xs)"
proof (induction xs rule: induct_list012)
  case (3 x y zs)
  then obtain ws where ws: "remdups (y # zs) = y # ws" using sorted_remdups_hd by (meson sorted_simps(2))
  have "successively P (remdups (y # zs))" using 3 by auto
  then show ?case using 3(4) ws by (cases "x \<in> set (y # zs)") auto
qed auto

lemma last_remdups [simp]: "last (remdups xs) = last xs"
  by (induction xs) auto

lemma slices_bound:
  assumes "successively (\<lambda>a b. b \<le> a + m) (prev # cs)" "length eff \<le> last (prev # cs) + m"
    "chunk \<in> set (slices eff prev cs)"
  shows "length chunk \<le> m"
  using assms
proof (induction eff prev cs rule: slices.induct)
  case (2 eff prev c cs)
  have c: "c \<le> prev + m" "successively (\<lambda>a b. b \<le> a + m) (c # cs)" using "2.prems"(1) by auto
  show ?case
  proof (cases "prev < c")
    case True
    then have "chunk = drop prev (take c eff) \<or> chunk \<in> set (slices eff c cs)" using "2.prems"(3) by simp
    then show ?thesis using "2.IH"(1) [OF True c(2)] "2.prems"(2) c(1) by auto
  next
    case False
    have "successively (\<lambda>a b. b \<le> a + m) (prev # cs)" using c(2) False by (cases cs) auto
    moreover have "length eff \<le> last (prev # cs) + m" using "2.prems"(2) False by auto
    ultimately show ?thesis using "2.IH"(2) [OF False] "2.prems"(3) False by simp
  qed
qed simp

lemma cut_at_bounds:
  assumes "1 \<le> k" "0 < m"
  shows "k * m \<le> cut_at eff m k + m div 3" "cut_at eff m k \<le> k * m + m div 3" "1 \<le> cut_at eff m k"
proof -
  let ?w = "m div 3" and ?i = "k * m"
  let ?lo = "max 1 (?i - ?w)" and ?hi = "min (length eff - 1) (?i + ?w)"
  have "m \<le> ?i" "1 \<le> ?i" using assms by auto
  have "cut_at eff m k \<in> set (?i # [?lo..<Suc ?hi])"
    unfolding cut_at_def Let_def by (rule best_cut_in)
  then have "cut_at eff m k = ?i \<or> ?lo \<le> cut_at eff m k \<and> cut_at eff m k \<le> ?hi" by auto
  then show "?i \<le> cut_at eff m k + ?w" "cut_at eff m k \<le> ?i + ?w" "1 \<le> cut_at eff m k"
    using \<open>1 \<le> ?i\<close> by auto
qed

lemma cuts_steps:
  assumes "0 < m" "2 \<le> c"
  shows "sorted (map (cut_at eff m) [1..<c])"
    and "successively (\<lambda>a b. b \<le> a + (m + 2 * (m div 3))) (0 # map (cut_at eff m) [1..<c])"
    and "c * m \<le> last (map (cut_at eff m) [1..<c]) + (m + 2 * (m div 3))"
proof -
  note b = cut_at_bounds [OF _ assms(1), of _ eff]
  let ?cuts = "map (cut_at eff m) [1..<c]"
  have step: "cut_at eff m k \<le> cut_at eff m (Suc k)"
      "cut_at eff m (Suc k) \<le> cut_at eff m k + (m + 2 * (m div 3))" if "1 \<le> k" for k
    using b(1,2) [of k] b(1,2) [of "Suc k"] that by auto
  show "sorted ?cuts" using step by (auto simp: sorted_iff_nth_Suc simp del: upt_Suc)
  have "successively (\<lambda>a b. b \<le> a + (m + 2 * (m div 3))) ?cuts"
    using step by (auto simp: successively_conv_nth simp del: upt_Suc)
  moreover have "hd ?cuts \<le> m + 2 * (m div 3)"
    using b(2) [of 1] assms(2) by (simp add: hd_map upt_conv_Cons)
  ultimately show "successively (\<lambda>a b. b \<le> a + (m + 2 * (m div 3))) (0 # ?cuts)"
    using assms(2) by (cases ?cuts) auto
  have "last ?cuts = cut_at eff m (c - 1)" using assms(2) by (simp add: last_map)
  moreover have "c * m = (c - 1) * m + m" using assms(2) by (cases c) auto
  moreover have "(c - 1) * m \<le> cut_at eff m (c - 1) + m div 3" by (rule b(1)) (use assms(2) in simp)
  ultimately show "c * m \<le> last ?cuts + (m + 2 * (m div 3))" by linarith
qed

lemma concat_filter_nonempty: "concat (filter (\<lambda>c. c \<noteq> []) xss) = concat xss"
  by (induction xss) auto

lemma split_by_gaps_concat: "concat (split_by_gaps eff target) = eff"
  by (simp add: split_by_gaps_def Let_def concat_filter_nonempty concat_slices)

text \<open>
  C33. Cutting a large task into chunks covers it exactly and in order, leaves no chunk empty, and no
  chunk is longer than the target by more than two thirds.
\<close>

theorem split_by_gaps_bound:
  assumes "0 < target"
  shows "concat (split_by_gaps eff target) = eff \<and>
    list_all (\<lambda>c. length c \<le> target + 2 * (target div 3) \<and> (eff \<noteq> [] \<longrightarrow> c \<noteq> [])) (split_by_gaps eff target)"
proof (cases "length eff \<le> target")
  case True
  then show ?thesis by (simp add: split_by_gaps_def)
next
  case False
  define c where "c = ceil_div (length eff) target"
  define m where "m = ceil_div (length eff) c"
  define cuts where "cuts = map (cut_at eff m) [1..<c]"
  have n: "0 < length eff" using False by auto
  have "length eff \<le> c * target" using le_ceil_div [OF assms] by (simp add: c_def)
  then have c: "2 \<le> c" using False by (cases "c = 0 \<or> c = 1") auto
  have covered: "length eff \<le> m * c" using le_ceil_div [of c] c by (simp add: m_def)
  then have m: "0 < m" using n by (cases m) auto
  have "m \<le> target" using ceil_div_le [of c "length eff" target] \<open>length eff \<le> c * target\<close> c
    by (simp add: m_def mult.commute)
  then have small: "m + 2 * (m div 3) \<le> target + 2 * (target div 3)"
    by (intro add_mono mult_left_mono div_le_mono) auto
  note steps = cuts_steps [OF m c, of eff, folded cuts_def]
  have "cuts \<noteq> []" "0 \<notin> set cuts"
    using c cut_at_bounds(3) [OF _ m, of _ eff] by (auto simp: cuts_def) fastforce
  then have "successively (\<lambda>a b. b \<le> a + (m + 2 * (m div 3))) (0 # remdups cuts)"
    using successively_remdups [of "0 # cuts"] steps(1,2) by auto
  moreover have "last (0 # remdups cuts) = last cuts" using \<open>cuts \<noteq> []\<close> by simp
  moreover have "sort (remdups cuts) = remdups cuts" using steps(1) by (simp add: sorted_sort_id)
  ultimately have "length chunk \<le> m + 2 * (m div 3)" if "chunk \<in> set (slices eff 0 (sort (remdups cuts)))" for chunk
    using slices_bound [of "m + 2 * (m div 3)" 0 "sort (remdups cuts)" eff chunk] that steps(3) covered
    by (simp add: mult.commute)
  moreover have split: "split_by_gaps eff target = filter (\<lambda>c. c \<noteq> []) (slices eff 0 (sort (remdups cuts)))"
    using False by (simp add: split_by_gaps_def Let_def cuts_def c_def m_def)
  ultimately show ?thesis
    using small split_by_gaps_concat [of eff target] by (fastforce simp: list_all_iff)
qed

section \<open>Where a task is unfinished\<close>

lemma status_distinct [simp]: "REWORKED \<noteq> UNFINISHED" "ONE_PASS \<noteq> UNFINISHED"
  by (simp_all add: REWORKED_def ONE_PASS_def UNFINISHED_def)

lemma proven_status_not_unfinished [simp]: "rq_status (proven_status rids s) \<noteq> UNFINISHED"
  by (simp add: proven_status_def)

lemma length_enforce_terminal_tail [simp]:
  "length (subreqs (enforce_terminal_tail num terminal d)) = length (subreqs d)"
  by (simp add: enforce_terminal_tail_def Let_def)

lemma member_idx_enforce_terminal_tail:
  "map member_idx (subreqs (enforce_terminal_tail num terminal d)) = map member_idx (subreqs d)"
  by (rule nth_equalityI)
    (auto simp: enforce_terminal_tail_def Let_def nth_enumerate_eq proven_status_def)

lemma tail_of_last:
  assumes "subs \<noteq> []"
  shows "tail_of num subs < length subs"
    and "j < length subs \<Longrightarrow> max_idx num (subs ! j) \<le> max_idx num (subs ! tail_of num subs)"
proof -
  have all: "set (0 # [1..<length subs]) = {..<length subs}" using assms by auto
  have "tail_of num subs \<in> set (0 # [1..<length subs]) \<and>
      (\<forall>j \<in> set (0 # [1..<length subs]). max_idx num (subs ! j) \<le> max_idx num (subs ! tail_of num subs) \<and>
        (j < tail_of num subs \<longrightarrow> max_idx num (subs ! j) < max_idx num (subs ! tail_of num subs)))"
    unfolding tail_of_def by (rule argmax_first) auto
  then show "tail_of num subs < length subs"
      "j < length subs \<Longrightarrow> max_idx num (subs ! j) \<le> max_idx num (subs ! tail_of num subs)"
    unfolding all by auto
qed

text \<open>
  C32. After the repair the status "unfinished" is on the request with the last message of the task
  and nowhere else, and it is there exactly when the task is not terminal.  The members of the
  requests do not change.
\<close>

theorem enforce_terminal_tail_exact:
  assumes "subreqs d \<noteq> []"
  shows "\<exists>i < length (subreqs d).
    (\<forall>j < length (subreqs d). max_idx num (subreqs d ! j) \<le> max_idx num (subreqs d ! i) \<and>
       (rq_status (subreqs (enforce_terminal_tail num terminal d) ! j) = UNFINISHED \<longleftrightarrow> j = i \<and> \<not> terminal)) \<and>
    map member_idx (subreqs (enforce_terminal_tail num terminal d)) = map member_idx (subreqs d)"
proof (intro exI conjI allI impI)
  let ?i = "tail_of num (subreqs d)"
  show "?i < length (subreqs d)" by (rule tail_of_last(1) [OF assms])
  show "map member_idx (subreqs (enforce_terminal_tail num terminal d)) = map member_idx (subreqs d)"
    by (rule member_idx_enforce_terminal_tail)
  fix j
  assume j: "j < length (subreqs d)"
  show "max_idx num (subreqs d ! j) \<le> max_idx num (subreqs d ! ?i)" by (rule tail_of_last(2) [OF assms j])
  show "rq_status (subreqs (enforce_terminal_tail num terminal d) ! j) = UNFINISHED \<longleftrightarrow> j = ?i \<and> \<not> terminal"
    using assms j by (auto simp: enforce_terminal_tail_def Let_def nth_enumerate_eq)
qed

section \<open>The numbers of a request\<close>

abbreviation nums :: "('x \<Rightarrow> nat option) \<Rightarrow> 'x request \<Rightarrow> nat set" where
  "nums num s \<equiv> set (seg_members num s)"

lemma set_seg_members: "nums num s = {v. \<exists>x \<in> set (member_idx s). num x = Some v}"
  by (auto simp: seg_members_def in_map_filter)

lemma nums_strip [simp]: "nums num (strip_members num ms s) = nums num s - set ms"
  by (auto simp: set_seg_members strip_members_def)

lemma dedup_loop_nums:
  "{v. \<exists>x \<in> set (dedup_loop num seen xs). num x = Some v} = {v. \<exists>x \<in> set xs. num x = Some v} - set seen"
proof (induction num seen xs rule: dedup_loop.induct)
  case (2 num seen x xs)
  show ?case
  proof (cases "num x")
    case None
    then show ?thesis using 2(1) by auto
  next
    case (Some v)
    show ?thesis
    proof (cases "v \<in> set seen")
      case True
      then show ?thesis using 2(2) [OF Some] Some by auto
    next
      case False
      have "{v'. \<exists>y \<in> set (dedup_loop num seen (x # xs)). num y = Some v'} =
          insert v ({v'. \<exists>y \<in> set xs. num y = Some v'} - set (v # seen))"
        unfolding 2(3) [OF Some False, symmetric] using Some False by auto
      then show ?thesis using Some False by auto
    qed
  qed
qed simp

lemma nums_dedup [simp]: "nums num (dedup_members num s) = nums num s"
  using dedup_loop_nums [of num "[]" "member_idx s"] by (simp add: set_seg_members dedup_members_def)

abbreviation disjoint_requests :: "('x \<Rightarrow> nat option) \<Rightarrow> 'x request list \<Rightarrow> bool" where
  "disjoint_requests num \<equiv> sorted_wrt (\<lambda>s t. nums num s \<inter> nums num t = {})"

abbreviation all_nums :: "('x \<Rightarrow> nat option) \<Rightarrow> 'x request list \<Rightarrow> nat set" where
  "all_nums num subs \<equiv> \<Union> (nums num ` set subs)"

lemma disjoint_requests_nth:
  "disjoint_requests num subs \<longleftrightarrow>
   (\<forall>i < length subs. \<forall>j < length subs. i \<noteq> j \<longrightarrow> nums num (subs ! i) \<inter> nums num (subs ! j) = {})"
proof
  assume "disjoint_requests num subs"
  then have lt: "nums num (subs ! i) \<inter> nums num (subs ! j) = {}" if "i < j" "j < length subs" for i j
    using that by (simp add: sorted_wrt_iff_nth_less)
  show "\<forall>i < length subs. \<forall>j < length subs. i \<noteq> j \<longrightarrow> nums num (subs ! i) \<inter> nums num (subs ! j) = {}"
  proof (intro allI impI)
    fix i j
    assume "i < length subs" "j < length subs" "i \<noteq> j"
    then show "nums num (subs ! i) \<inter> nums num (subs ! j) = {}"
      using lt [of i j] lt [of j i] by (cases "i < j") (auto simp: Int_commute)
  qed
qed (simp add: sorted_wrt_iff_nth_less)

lemma all_nums_nth: "v \<in> all_nums num subs \<longleftrightarrow> (\<exists>i < length subs. v \<in> nums num (subs ! i))"
  by (auto simp: set_conv_nth [of subs])

section \<open>The first pass over the overlaps\<close>

lemma index_pairs_iff:
  "sorted_wrt (<) is \<Longrightarrow> (i, j) \<in> set (index_pairs is) \<longleftrightarrow> i \<in> set is \<and> j \<in> set is \<and> i < j"
  by (induction "is") auto

lemma msg_to_subs_iff:
  "(m, is) \<in> set (msg_to_subs num subs) \<longleftrightarrow>
   m \<in> all_nums num subs \<and> is = filter (\<lambda>i. m \<in> nums num (subs ! i)) [0..<length subs]"
  by (auto simp: msg_to_subs_def)

lemma pair_shared_sound:
  assumes "((i, j), shared) \<in> set (pair_shared (msg_to_subs num subs))"
  shows "i < j \<and> j < length subs \<and> set shared = nums num (subs ! i) \<inter> nums num (subs ! j)"
proof -
  let ?m2s = "msg_to_subs num subs"
  obtain m "is" where m: "(m, is) \<in> set ?m2s" "(i, j) \<in> set (index_pairs is)"
    and shared: "shared = map fst (filter (\<lambda>(m, is). i \<in> set is \<and> j \<in> set is) ?m2s)"
    using assms by (auto simp: pair_shared_def)
  have "is = filter (\<lambda>i. m \<in> nums num (subs ! i)) [0..<length subs]" using m(1) by (simp add: msg_to_subs_iff)
  then have ij: "i < j" "j < length subs" "i < length subs"
    using m(2) by (auto simp: index_pairs_iff sorted_wrt_filter)
  have "v \<in> set shared \<longleftrightarrow> v \<in> nums num (subs ! i) \<inter> nums num (subs ! j)" for v
  proof -
    have "v \<in> set shared \<longleftrightarrow> (\<exists>is. (v, is) \<in> set ?m2s \<and> i \<in> set is \<and> j \<in> set is)"
      unfolding shared by force
    also have "\<dots> \<longleftrightarrow> v \<in> all_nums num subs \<and> v \<in> nums num (subs ! i) \<and> v \<in> nums num (subs ! j)"
      unfolding msg_to_subs_iff using ij by auto
    also have "\<dots> \<longleftrightarrow> v \<in> nums num (subs ! i) \<inter> nums num (subs ! j)"
      unfolding all_nums_nth using ij by auto
    finally show ?thesis .
  qed
  then show ?thesis using ij by auto
qed

lemma pair_shared_complete:
  assumes "i < j" "j < length subs" "v \<in> nums num (subs ! i) \<inter> nums num (subs ! j)"
  shows "\<exists>shared. ((i, j), shared) \<in> set (pair_shared (msg_to_subs num subs))"
proof -
  let ?is = "filter (\<lambda>i. v \<in> nums num (subs ! i)) [0..<length subs]"
  have "v \<in> all_nums num subs" unfolding all_nums_nth using assms by auto
  then have "(v, ?is) \<in> set (msg_to_subs num subs)" unfolding msg_to_subs_iff by simp
  moreover have "(i, j) \<in> set (index_pairs ?is)" using assms by (auto simp: index_pairs_iff sorted_wrt_filter)
  ultimately show ?thesis by (force simp: pair_shared_def)
qed

definition shrinks :: "('x \<Rightarrow> nat option) \<Rightarrow> 'x request list \<Rightarrow> 'x request list \<Rightarrow> bool" where
  "shrinks num subs subs' \<longleftrightarrow>
     length subs' = length subs \<and> (\<forall>i < length subs. nums num (subs' ! i) \<subseteq> nums num (subs ! i))"

lemma shrinks_refl [simp]: "shrinks num subs subs"
  by (simp add: shrinks_def)

lemma shrinks_trans: "shrinks num a b \<Longrightarrow> shrinks num b c \<Longrightarrow> shrinks num a c"
  by (fastforce simp: shrinks_def)

lemma shrinks_strip: "shrinks num subs (subs[a := strip_members num ms (subs ! a)])"
  by (cases "a < length subs") (auto simp: shrinks_def nth_list_update list_update_beyond)

lemma order_pair_cases: "order_pair num tie subs (i, j) = (i, j) \<or> order_pair num tie subs (i, j) = (j, i)"
  by (simp add: order_pair_def Let_def)

lemma pivot_step_shrinks: "shrinks num (subreqs d) (subreqs (fst (pivot_step num tie ps (d, large))))"
  by (auto simp: pivot_step_def Let_def shrinks_strip split: prod.split)

lemma pivot_fold_shrinks: "shrinks num (subreqs (fst st)) (subreqs (fst (fold (pivot_step num tie) ps st)))"
proof (induction ps arbitrary: st)
  case (Cons p ps)
  obtain d large where st: "st = (d, large)" by (cases st)
  show ?case
    using shrinks_trans [OF pivot_step_shrinks [of num d tie p large] Cons.IH [of "pivot_step num tie p (d, large)"]]
    by (simp add: st)
qed simp

lemma pivot_fold_large:
  "snd (fold (pivot_step num tie) ps st) \<longleftrightarrow> snd st \<or> (\<exists>p \<in> set ps. PIVOT_MAX < length (snd p))"
  by (induction ps arbitrary: st) (auto simp: pivot_step_def Let_def split: prod.splits)

lemma pivot_step_disjoint:
  assumes "shrinks num subs (subreqs d)" "i < length subs" "j < length subs" "i \<noteq> j"
    "set shared = nums num (subs ! i) \<inter> nums num (subs ! j)" "length shared \<le> PIVOT_MAX"
  shows "let subs' = subreqs (fst (pivot_step num tie ((i, j), shared) (d, large)))
    in nums num (subs' ! i) \<inter> nums num (subs' ! j) = {}"
  using assms order_pair_cases [of num tie "subreqs d" i j]
  by (auto simp: pivot_step_def Let_def shrinks_def nth_list_update) blast+

lemma pivot_fold_disjoint:
  assumes "\<And>i j shared. ((i, j), shared) \<in> set ps \<Longrightarrow>
      i < j \<and> j < length subs \<and> set shared = nums num (subs ! i) \<inter> nums num (subs ! j)"
    and "shrinks num subs (subreqs (fst st))" "((i, j), shared) \<in> set ps" "length shared \<le> PIVOT_MAX"
  shows "let subs' = subreqs (fst (fold (pivot_step num tie) ps st))
    in nums num (subs' ! i) \<inter> nums num (subs' ! j) = {}"
  using assms
proof (induction ps arbitrary: st)
  case (Cons p ps)
  obtain d large where st: "st = (d, large)" by (cases st)
  let ?st = "pivot_step num tie p st"
  have shr: "shrinks num subs (subreqs (fst ?st))"
    unfolding st by (rule shrinks_trans [OF _ pivot_step_shrinks]) (use Cons.prems(2) in \<open>simp add: st\<close>)
  show ?case
  proof (cases "p = ((i, j), shared)")
    case True
    have bounds: "i < length subs" "j < length subs" "i \<noteq> j"
        "set shared = nums num (subs ! i) \<inter> nums num (subs ! j)"
      using Cons.prems(1) [of i j shared] Cons.prems(3) by auto
    have "nums num (subreqs (fst ?st) ! i) \<inter> nums num (subreqs (fst ?st) ! j) = {}"
      using pivot_step_disjoint [OF _ bounds Cons.prems(4), of d tie large] Cons.prems(2) True
      by (simp add: st Let_def)
    moreover have "shrinks num (subreqs (fst ?st)) (subreqs (fst (fold (pivot_step num tie) ps ?st)))"
      by (rule pivot_fold_shrinks)
    ultimately show ?thesis using shr bounds unfolding shrinks_def Let_def fold_simps by auto
  next
    case False
    then show ?thesis using Cons.IH [OF Cons.prems(1) shr] Cons.prems(3,4) by (auto simp: Let_def)
  qed
qed simp

section \<open>The second pass over the overlaps\<close>

lemma argmin_in: "argmin f b xs \<in> set (b # xs)"
proof (induction xs arbitrary: b)
  case (Cons x xs)
  show ?case using Cons.IH [of x] Cons.IH [of b] by auto
qed simp

text \<open>One number is taken from all but one of its requests; nothing else changes.\<close>

lemma narrow_step_nums:
  assumes "distinct is" "2 \<le> length is"
  obtains winner where "winner \<in> set is"
    "\<And>k. k < length subs \<Longrightarrow> nums num (narrow_step num (m, is) subs ! k) =
       (if k \<in> set is \<and> k \<noteq> winner then nums num (subs ! k) - {m} else nums num (subs ! k))"
proof -
  obtain i j rest where r: "is = i # j # rest" using assms(2) by (auto simp: Suc_le_length_iff numeral_2_eq_2)
  let ?w = "argmin (\<lambda>k. seg_span num (subs ! k)) i (j # rest)"
  have "?w \<in> set is" unfolding r by (rule argmin_in)
  moreover have "nums num (narrow_step num (m, is) subs ! k) =
      (if k \<in> set is \<and> k \<noteq> ?w then nums num (subs ! k) - {m} else nums num (subs ! k))"
    if "k < length subs" for k
    using that by (simp add: narrow_step_def r Let_def nth_enumerate_eq)
  ultimately show ?thesis using that by blast
qed

lemma length_narrow_step [simp]: "length (narrow_step num mi subs) = length subs"
  by (auto simp: narrow_step_def Let_def split: prod.split list.split)

lemma narrow_step_short: "length is < 2 \<Longrightarrow> narrow_step num (m, is) subs = subs"
  by (auto simp: narrow_step_def split: list.split)

definition owned :: "('x \<Rightarrow> nat option) \<Rightarrow> 'x request list \<Rightarrow> nat \<Rightarrow> nat set" where
  "owned num subs v = {k. k < length subs \<and> v \<in> nums num (subs ! k)}"

lemma narrow_step_owned_other:
  assumes "distinct is" "v \<noteq> m"
  shows "owned num (narrow_step num (m, is) subs) v = owned num subs v"
proof (cases "2 \<le> length is")
  case True
  show ?thesis
    by (rule narrow_step_nums [OF assms(1) True, of subs num m])
      (use assms(2) in \<open>auto simp: owned_def split: if_splits\<close>)
qed (simp add: narrow_step_short)

lemma narrow_step_owned:
  assumes "distinct is" "set is = owned num subs m" "is \<noteq> []"
  shows "\<exists>k. owned num (narrow_step num (m, is) subs) m = {k}"
proof (cases "2 \<le> length is")
  case True
  obtain w where w: "w \<in> set is" "\<And>k. k < length subs \<Longrightarrow> nums num (narrow_step num (m, is) subs ! k) =
       (if k \<in> set is \<and> k \<noteq> w then nums num (subs ! k) - {m} else nums num (subs ! k))"
    by (rule narrow_step_nums [OF assms(1) True, of subs num m]) blast
  then have "owned num (narrow_step num (m, is) subs) m = {w}"
    using assms(2) by (auto simp: owned_def split: if_splits)
  then show ?thesis by blast
next
  case False
  then obtain k where "is = [k]" using assms(3) by (cases "is" rule: remdups_adj.cases) auto
  then show ?thesis using assms(2) False by (auto simp: narrow_step_short)
qed

lemma narrow_fold_owned:
  assumes "distinct (map fst ps)"
    "\<And>m is. (m, is) \<in> set ps \<Longrightarrow> distinct is \<and> set is = owned num subs m \<and> is \<noteq> []"
  shows "if v \<in> fst ` set ps then \<exists>k. owned num (fold (narrow_step num) ps subs) v = {k}
    else owned num (fold (narrow_step num) ps subs) v = owned num subs v"
  using assms
proof (induction ps arbitrary: subs)
  case (Cons p ps)
  obtain m "is" where p: "p = (m, is)" by (cases p)
  have first: "distinct is" "set is = owned num subs m" "is \<noteq> []" using Cons.prems(2) [of m "is"] p by auto
  let ?subs = "narrow_step num (m, is) subs"
  have fresh: "m \<notin> fst ` set ps" and dist: "distinct (map fst ps)" using Cons.prems(1) p by auto
  have later: "distinct js \<and> set js = owned num ?subs v \<and> js \<noteq> []" if "(v, js) \<in> set ps" for v js
  proof -
    have "v \<noteq> m" using that fresh by force
    then show ?thesis
      using Cons.prems(2) [of v js] that narrow_step_owned_other [OF first(1), of v m num subs] by simp
  qed
  note IH = Cons.IH [OF dist later]
  show ?case
  proof (cases "v = m")
    case True
    then show ?thesis using IH fresh narrow_step_owned [OF first] p by auto
  next
    case False
    then show ?thesis using IH narrow_step_owned_other [OF first(1) False] p by auto
  qed
qed simp

lemma narrow_pass_owned:
  "if v \<in> all_nums num subs then \<exists>k. owned num (fold (narrow_step num) (msg_to_subs num subs) subs) v = {k}
   else owned num (fold (narrow_step num) (msg_to_subs num subs) subs) v = {}"
proof -
  have fst: "map fst (msg_to_subs num subs) = uniq (concat (map (seg_members num) subs))"
    by (simp add: msg_to_subs_def o_def)
  have keys: "fst ` set (msg_to_subs num subs) = all_nums num subs"
    unfolding set_map [symmetric] fst by simp
  have "distinct (map fst (msg_to_subs num subs))" unfolding fst by simp
  moreover have "distinct is \<and> set is = owned num subs m \<and> is \<noteq> []" if "(m, is) \<in> set (msg_to_subs num subs)" for m "is"
  proof -
    have m: "m \<in> all_nums num subs" "is = filter (\<lambda>i. m \<in> nums num (subs ! i)) [0..<length subs]"
      using that unfolding msg_to_subs_iff by auto
    then have "set is = owned num subs m" by (auto simp: owned_def)
    moreover have "owned num subs m \<noteq> {}" using m(1) unfolding all_nums_nth by (auto simp: owned_def)
    moreover have "distinct is" using m(2) by simp
    ultimately show ?thesis by (metis set_empty)
  qed
  moreover have "owned num subs v = {}" if "v \<notin> all_nums num subs"
    using that unfolding all_nums_nth by (auto simp: owned_def)
  ultimately show ?thesis using narrow_fold_owned [of "msg_to_subs num subs" num subs v] keys by auto
qed

lemma length_narrow_fold [simp]: "length (fold (narrow_step num) ps subs) = length subs"
  by (induction ps arbitrary: subs) simp_all

lemma disjoint_owned:
  assumes "\<And>v. \<exists>k. owned num subs v \<subseteq> {k}"
  shows "disjoint_requests num subs"
  unfolding disjoint_requests_nth
proof (intro allI impI)
  fix i j
  assume ij: "i < length subs" "j < length subs" "i \<noteq> j"
  have "\<not> (v \<in> nums num (subs ! i) \<and> v \<in> nums num (subs ! j))" for v
    using assms [of v] ij by (auto simp: owned_def)
  then show "nums num (subs ! i) \<inter> nums num (subs ! j) = {}" by blast
qed

lemma all_nums_owned: "v \<in> all_nums num subs \<longleftrightarrow> owned num subs v \<noteq> {}"
  unfolding all_nums_nth by (auto simp: owned_def)

lemma narrow_pass:
  "disjoint_requests num (fold (narrow_step num) (msg_to_subs num subs) subs)"
  "all_nums num (fold (narrow_step num) (msg_to_subs num subs) subs) = all_nums num subs"
proof -
  let ?subs = "fold (narrow_step num) (msg_to_subs num subs) subs"
  have "\<exists>k. owned num ?subs v \<subseteq> {k}" for v
    using narrow_pass_owned [of v num subs] by (auto split: if_splits)
  then show "disjoint_requests num ?subs" by (rule disjoint_owned)
  have "v \<in> all_nums num ?subs \<longleftrightarrow> v \<in> all_nums num subs" for v
    using narrow_pass_owned [of v num subs] unfolding all_nums_owned [of v num ?subs] by (auto split: if_splits)
  then show "all_nums num ?subs = all_nums num subs" by (rule set_eqI)
qed

section \<open>Resolving keeps the numbers of at most two requests\<close>

lemma pivot_step_owned:
  assumes "i < length (subreqs d)" "j < length (subreqs d)"
  shows "v \<notin> set shared \<Longrightarrow>
      owned num (subreqs (fst (pivot_step num tie ((i, j), shared) (d, large)))) v = owned num (subreqs d) v"
    and "\<exists>a \<in> {i, j}. owned num (subreqs d) v - {a} \<subseteq>
      owned num (subreqs (fst (pivot_step num tie ((i, j), shared) (d, large)))) v"
  using assms order_pair_cases [of num tie "subreqs d" i j]
  by (auto simp: pivot_step_def Let_def owned_def nth_list_update split: if_splits)

lemma pivot_fold_covers:
  assumes "distinct (map fst ps)"
    "\<And>i j shared. ((i, j), shared) \<in> set ps \<Longrightarrow>
      i < j \<and> j < length subs \<and> set shared = nums num (subs ! i) \<inter> nums num (subs ! j)"
    "length (subreqs (fst st)) = length subs" "card (owned num subs v) \<le> 2" "owned num (subreqs (fst st)) v \<noteq> {}"
    "\<And>p. p \<in> set ps \<Longrightarrow> v \<in> set (snd p) \<Longrightarrow> owned num (subreqs (fst st)) v = owned num subs v"
  shows "owned num (subreqs (fst (fold (pivot_step num tie) ps st))) v \<noteq> {}"
  using assms
proof (induction ps arbitrary: st)
  case (Cons p ps)
  obtain i j shared where p: "p = ((i, j), shared)" by (metis surj_pair)
  obtain d large where st: "st = (d, large)" by (cases st)
  let ?st = "pivot_step num tie p st"
  have s: "i < j" "j < length subs" "set shared = nums num (subs ! i) \<inter> nums num (subs ! j)"
    using Cons.prems(2) [of i j shared] p by auto
  have len: "length (subreqs (fst ?st)) = length subs"
    using pivot_step_shrinks [of num d tie p large] Cons.prems(3) by (simp add: shrinks_def st)
  have bounds: "i < length (subreqs d)" "j < length (subreqs d)" using s Cons.prems(3) by (auto simp: st)
  have "owned num (subreqs (fst ?st)) v \<noteq> {} \<and>
      (\<forall>p' \<in> set ps. v \<in> set (snd p') \<longrightarrow> owned num (subreqs (fst ?st)) v = owned num subs v)"
  proof (cases "v \<in> set shared")
    case False
    then have "owned num (subreqs (fst ?st)) v = owned num (subreqs (fst st)) v"
      using pivot_step_owned(1) [OF bounds False] by (simp add: st p)
    then show ?thesis using Cons.prems(5) Cons.prems(6) [OF list.set_intros(2)] by simp
  next
    case True
    have "{i, j} \<subseteq> owned num subs v" using True s by (auto simp: owned_def)
    moreover have "finite (owned num subs v)" by (simp add: owned_def)
    moreover have "card {i, j} = 2" using s(1) by simp
    ultimately have two: "owned num subs v = {i, j}"
      using Cons.prems(4) by (metis card_seteq)
    then have cur: "owned num (subreqs d) v = {i, j}" using Cons.prems(6) [of p] True by (simp add: p st)
    have "owned num (subreqs (fst ?st)) v \<noteq> {}"
      using pivot_step_owned(2) [OF bounds, of num v tie shared large] s(1) by (auto simp: cur st p)
    moreover have "v \<notin> set (snd p')" if p': "p' \<in> set ps" for p'
    proof
      assume v: "v \<in> set (snd p')"
      obtain k l shared' where q: "p' = ((k, l), shared')" by (metis surj_pair)
      have "k < l \<and> {k, l} \<subseteq> owned num subs v"
        using Cons.prems(2) [of k l shared'] p' v q by (auto simp: owned_def)
      then have "(k, l) = (i, j)" using two s(1) by auto
      then show False using Cons.prems(1) p' q p by force
    qed
    ultimately show ?thesis by blast
  qed
  note kept = this
  have "owned num (subreqs (fst (fold (pivot_step num tie) ps ?st))) v \<noteq> {}"
  proof (rule Cons.IH)
    show "distinct (map fst ps)" using Cons.prems(1) by simp
  qed (use Cons.prems(2,4) len kept in auto)
  then show ?case by simp
qed simp

lemma distinct_pair_shared: "distinct (map fst (pair_shared m2s))"
  by (simp add: pair_shared_def o_def split_def)

lemma nums_prune:
  "all_nums num (subreqs (prune_empty_subreqs num d)) = all_nums num (subreqs d)"
  "disjoint_requests num (subreqs d) \<Longrightarrow> disjoint_requests num (subreqs (prune_empty_subreqs num d))"
  by (auto simp: prune_empty_subreqs_def Let_def sorted_wrt_filter)

lemma count_list_distinct: "(\<And>k. count_list xs k \<le> 1) \<Longrightarrow> distinct xs"
proof (induction xs)
  case (Cons x xs)
  have "count_list xs k \<le> 1" for k using Cons.prems [of k] by (auto split: if_splits)
  moreover have "x \<notin> set xs" using Cons.prems [of x] by (simp add: count_list_0_iff [symmetric])
  ultimately show ?case using Cons.IH by simp
qed simp

lemma audit_overlaps_disjoint:
  assumes "audit_overlaps num subs = []"
  shows "disjoint_requests num subs"
proof -
  let ?cnt = "\<lambda>subs. concat (map (\<lambda>s. List.map_filter num (member_idx s)) subs)"
  have "filter (\<lambda>k. 1 < count_list (?cnt subs) k) (remdups (?cnt subs)) = []"
    using assms unfolding audit_overlaps_def Let_def by (metis set_empty set_sort)
  then have "count_list (?cnt subs) k \<le> 1" for k
    by (cases "k \<in> set (?cnt subs)") (auto simp: filter_empty_conv not_less)
  then have "distinct (?cnt subs)" by (rule count_list_distinct)
  then show ?thesis
  proof (induction subs)
    case (Cons s subs)
    then show ?case by (fastforce simp: seg_members_def)
  qed simp
qed

definition resolved_by :: "('x \<Rightarrow> nat option) \<Rightarrow> 'x request list \<Rightarrow> 'x request list \<Rightarrow> bool" where
  "resolved_by num subs subs' \<longleftrightarrow>
     all_nums num subs' \<subseteq> all_nums num subs \<and>
     ((\<forall>v. card (owned num subs v) \<le> 2) \<longrightarrow> all_nums num subs' = all_nums num subs)"

lemma pivot_pass:
  fixes num :: "'x \<Rightarrow> nat option" and d :: "'x decomposition"
  defines "ps \<equiv> pair_shared (msg_to_subs num (subreqs d))"
  assumes "fold (pivot_step num tie) ps (d, False) = (d', large)"
  shows "resolved_by num (subreqs d) (subreqs d')"
    and "\<not> large \<Longrightarrow> disjoint_requests num (subreqs d')"
proof -
  have sound: "\<And>i j shared. ((i, j), shared) \<in> set ps \<Longrightarrow> i < j \<and> j < length (subreqs d) \<and>
      set shared = nums num (subreqs d ! i) \<inter> nums num (subreqs d ! j)"
    unfolding ps_def by (rule pair_shared_sound)
  have fold: "fst (fold (pivot_step num tie) ps (d, False)) = d'" "snd (fold (pivot_step num tie) ps (d, False)) = large"
    using assms(2) by simp_all
  have shr: "shrinks num (subreqs d) (subreqs d')"
    using pivot_fold_shrinks [of num "(d, False)" tie ps] by (simp add: fold)
  have "owned num (subreqs d') v \<noteq> {}"
    if "card (owned num (subreqs d) v) \<le> 2" "owned num (subreqs d) v \<noteq> {}" for v
  proof -
    have "owned num (subreqs (fst (fold (pivot_step num tie) ps (d, False)))) v \<noteq> {}"
    proof (rule pivot_fold_covers [where subs = "subreqs d"])
      show "distinct (map fst ps)" unfolding ps_def by (rule distinct_pair_shared)
    qed (use that sound in auto)
    then show ?thesis by (simp add: fold)
  qed
  moreover have "owned num (subreqs d') v \<subseteq> owned num (subreqs d) v" for v
    using shr by (auto simp: shrinks_def owned_def)
  ultimately show "resolved_by num (subreqs d) (subreqs d')"
    unfolding resolved_by_def set_eq_iff subset_iff all_nums_owned by blast
  assume "\<not> large"
  then have small: "length shared \<le> PIVOT_MAX" if "(ij, shared) \<in> set ps" for ij shared
    using pivot_fold_large [of num tie ps "(d, False)"] fold(2) that by force
  show "disjoint_requests num (subreqs d')"
    unfolding sorted_wrt_iff_nth_less
  proof (intro allI impI)
    fix i j
    assume ij: "i < j" "j < length (subreqs d')"
    then have len: "j < length (subreqs d)" using shr by (simp add: shrinks_def)
    show "nums num (subreqs d' ! i) \<inter> nums num (subreqs d' ! j) = {}"
    proof (cases "nums num (subreqs d ! i) \<inter> nums num (subreqs d ! j) = {}")
      case True
      moreover have "nums num (subreqs d' ! i) \<subseteq> nums num (subreqs d ! i)"
          "nums num (subreqs d' ! j) \<subseteq> nums num (subreqs d ! j)"
        using shr ij len by (simp_all add: shrinks_def)
      ultimately show ?thesis by blast
    next
      case False
      then obtain shared where "((i, j), shared) \<in> set ps"
        using pair_shared_complete [OF ij(1) len] unfolding ps_def by blast
      then show ?thesis
        using pivot_fold_disjoint [where ps = ps and subs = "subreqs d" and st = "(d, False)" and tie = tie, OF sound]
          small by (simp add: fold Let_def)
    qed
  qed
qed

lemma owned_dedup [simp]: "owned num (map (dedup_members num) subs) v = owned num subs v"
  by (auto simp: owned_def)

lemma resolved_by_refl [simp]: "resolved_by num subs subs"
  by (simp add: resolved_by_def)

lemma resolved_by_same:
  "resolved_by num subs subs' \<Longrightarrow> all_nums num subs'' = all_nums num subs' \<Longrightarrow> resolved_by num subs subs''"
  unfolding resolved_by_def by simp

lemma resolved_by_dedup: "resolved_by num (map (dedup_members num) subs) subs' = resolved_by num subs subs'"
  unfolding resolved_by_def set_eq_iff subset_iff all_nums_owned by simp

lemma resolve_overlaps_spec:
  assumes "resolve_overlaps num tie False force d = (d', large)"
  shows "resolved_by num (subreqs d) (subreqs d')"
    and "\<not> large \<Longrightarrow> disjoint_requests num (subreqs d')"
    and "large \<Longrightarrow> \<not> force"
proof -
  define d1 where "d1 = d\<lparr> subreqs := map (dedup_members num) (subreqs d) \<rparr>"
  obtain d2 has_large where pivot:
    "fold (pivot_step num tie) (pair_shared (msg_to_subs num (subreqs d1))) (d1, False) = (d2, has_large)"
    by fastforce
  define d3 where "d3 = d2\<lparr> subreqs := fold (narrow_step num) (msg_to_subs num (subreqs d2)) (subreqs d2) \<rparr>"
  have result: "(d', large) =
      (if length (subreqs d1) < 2 \<or> audit_overlaps num (subreqs d1) = [] then (d1, False)
       else if has_large \<and> \<not> force then (d2, True)
       else (prune_empty_subreqs num (if has_large then d3 else d2), False))"
    unfolding assms [symmetric] resolve_overlaps_def Let_def d1_def [symmetric] pivot prod.case d3_def
    by simp
  have base: "resolved_by num (subreqs d) subs = resolved_by num (subreqs d1) subs" for subs
    by (simp add: d1_def resolved_by_dedup)
  note pass1 = pivot_pass [OF pivot]
  have pass2: "resolved_by num (subreqs d1) (subreqs d3)" "disjoint_requests num (subreqs d3)"
    using resolved_by_same [OF pass1(1)] narrow_pass [of num "subreqs d2"] by (simp_all add: d3_def)
  show "resolved_by num (subreqs d) (subreqs d')"
    unfolding base using result pass1(1) pass2(1)
    by (auto split: if_splits intro: resolved_by_same [OF _ nums_prune(1)])
  show "large \<Longrightarrow> \<not> force" using result by (auto split: if_splits)
  have short: "disjoint_requests num subs" if "length subs < 2" for subs
    using that by (cases subs rule: remdups_adj.cases) auto
  show "disjoint_requests num (subreqs d')" if "\<not> large"
    using result that short pass1(2) pass2(2) audit_overlaps_disjoint nums_prune(2)
    by (auto split: if_splits)
qed

text \<open>
  C9. Resolving overlaps by force always succeeds and leaves every message with at most one request.
  It assigns no message to a request that did not have it, and it keeps every message that at
  most two requests share.
\<close>

theorem resolve_overlaps_exclusive:
  "\<exists>d'. resolve_overlaps num tie False True d = (d', False) \<and>
    sorted_wrt (\<lambda>s t. set (seg_members num s) \<inter> set (seg_members num t) = {}) (subreqs d') \<and>
    \<Union> ((\<lambda>s. set (seg_members num s)) ` set (subreqs d')) \<subseteq>
      \<Union> ((\<lambda>s. set (seg_members num s)) ` set (subreqs d)) \<and>
    ((\<forall>v. card {k. k < length (subreqs d) \<and> v \<in> set (seg_members num (subreqs d ! k))} \<le> 2) \<longrightarrow>
      \<Union> ((\<lambda>s. set (seg_members num s)) ` set (subreqs d')) =
      \<Union> ((\<lambda>s. set (seg_members num s)) ` set (subreqs d)))"
proof -
  obtain d' large where r: "resolve_overlaps num tie False True d = (d', large)" by fastforce
  note spec = resolve_overlaps_spec [OF r]
  have "\<not> large" using spec(3) by blast
  then show ?thesis using r spec(1,2) unfolding resolved_by_def owned_def by auto
qed

section \<open>Separating a detour keeps the messages\<close>

abbreviation idx_of :: "('x \<Rightarrow> nat option) \<Rightarrow> 'x request \<Rightarrow> nat list" where
  "idx_of num s \<equiv> List.map_filter num (member_idx s)"

lemma mset_sorted_members [simp]: "mset (sorted_members num s) = mset (idx_of num s)"
  by (simp add: sorted_members_def)

lemma map_filter_lit:
  assumes "\<And>n. num (lit_num n) = Some n"
  shows "List.map_filter num (map lit_num ns) = ns"
  by (induction ns) (simp_all add: map_filter_simps assms)

text \<open>A correction that starts at the reminder of the user, or has none.\<close>

definition pure_rollback :: "('x \<Rightarrow> nat option) \<Rightarrow> 'r event list \<Rightarrow> 'x request \<Rightarrow> bool" where
  "pure_rollback num meta s \<longleftrightarrow>
     is_rollback s \<and> 2 \<le> length (sorted_members num s) \<longrightarrow>
     remind_pos meta (sorted_members num s) \<in> {Some None, Some (Some 0)}"

lemma remind_pos_drop: "remind_pos meta ms = Some (Some p) \<Longrightarrow> p < length ms \<and> remind_pos meta (drop p ms) = Some (Some 0)"
proof (induction ms arbitrary: p)
  case (Cons idx ms)
  then show ?case by (cases p) (auto split: if_splits bind_splits)
qed simp

lemma CORRECTED_distinct [simp]: "REWORKED \<noteq> CORRECTED"
  by (simp add: REWORKED_def CORRECTED_def)

lemma purity_step_cases:
  assumes "purity_step num lit_num meta s es = Some (new, es')"
  obtains "new = [s]" "pure_rollback num meta s"
  | p where "remind_pos meta (sorted_members num s) = Some (Some (Suc p))"
    "(new, es') = split_rollback lit_num meta (take (Suc p) (sorted_members num s))
       (drop (Suc p) (sorted_members num s)) s es"
proof (cases "\<not> is_rollback s \<or> length (sorted_members num s) < 2")
  case True
  then show ?thesis using assms that(1) by (auto simp: purity_step_def pure_rollback_def)
next
  case False
  then obtain pos where pos: "remind_pos meta (sorted_members num s) = Some pos"
      "(new, es') = (case pos of None \<Rightarrow> ([s], es) | Some 0 \<Rightarrow> ([s], es)
        | Some p \<Rightarrow> split_rollback lit_num meta (take p (sorted_members num s)) (drop p (sorted_members num s)) s es)"
    using assms by (auto simp: purity_step_def Let_def)
  consider "pos = None" | "pos = Some 0" | p where "pos = Some (Suc p)" by (metis not0_implies_Suc option.exhaust)
  then show ?thesis by cases (use pos that in \<open>auto simp: pure_rollback_def\<close>)
qed

lemma purity_step_spec:
  assumes lits: "\<And>n. num (lit_num n) = Some n"
    and step: "purity_step num lit_num meta s es = Some (new, es')"
  shows "mset (concat (map (idx_of num) new)) = mset (idx_of num s)"
    and "list_all (pure_rollback num meta) new"
proof -
  define ms where "ms = sorted_members num s"
  have ms: "mset ms = mset (idx_of num s)" by (simp add: ms_def)
  from step have "mset (concat (map (idx_of num) new)) = mset (idx_of num s) \<and> list_all (pure_rollback num meta) new"
  proof (cases rule: purity_step_cases)
    case 1
    then show ?thesis by simp
  next
    case (2 p)
    note p = 2 [folded ms_def]
    then obtain a b where new: "new = [a, b]" "member_idx a = map lit_num (take (Suc p) ms)"
        "rq_status a = REWORKED" "member_idx b = map lit_num (drop (Suc p) ms)"
      by (auto simp: split_rollback_def Let_def)
    have idx: "idx_of num a = take (Suc p) ms" "idx_of num b = drop (Suc p) ms"
      using new(2,4) by (simp_all add: map_filter_lit [of num lit_num, OF lits])
    have "sorted ms" by (simp add: ms_def sorted_members_def)
    then have "sorted_members num b = drop (Suc p) ms"
      by (simp add: sorted_members_def idx(2) sorted_sort_id sorted_wrt_drop)
    then have "pure_rollback num meta b" using remind_pos_drop [OF p(1)] by (simp add: pure_rollback_def)
    moreover have "pure_rollback num meta a" using new(3) by (simp add: pure_rollback_def is_rollback_def)
    moreover have "mset (take (Suc p) ms) + mset (drop (Suc p) ms) = mset ms"
      by (metis append_take_drop_id mset_append)
    ultimately show ?thesis using new(1) idx ms by simp
  qed
  then show "mset (concat (map (idx_of num) new)) = mset (idx_of num s)" "list_all (pure_rollback num meta) new"
    by auto
qed

lemma purity_loop_spec:
  assumes "\<And>n. num (lit_num n) = Some n" "purity_loop num lit_num meta subs es = Some (subs', es')"
  shows "mset (concat (map (idx_of num) subs')) = mset (concat (map (idx_of num) subs)) \<and>
    list_all (pure_rollback num meta) subs'"
  using assms(2)
proof (induction subs arbitrary: es subs' es')
  case (Cons s subs)
  obtain new es1 rest where step: "purity_step num lit_num meta s es = Some (new, es1)"
      "purity_loop num lit_num meta subs es1 = Some (rest, es')" "subs' = new @ rest"
    using Cons.prems by (auto split: bind_splits)
  show ?case using purity_step_spec [OF assms(1) step(1)] Cons.IH [OF step(2)] step(3) by simp
qed simp

lemma as_seg_int_num [simp]: "as_seg_int uni dv (SegNum (int n)) = Some n"
  by simp

text \<open>
  C31. Separating detours from corrections divides the messages of a request and neither adds nor
  drops one, and afterwards no correction has a bot message before the reminder of the user.
\<close>

theorem rollback_purity:
  fixes meta :: "'r event list"
  assumes "enforce_rollback_purity (as_seg_int uni dv) (\<lambda>n. SegNum (int n)) meta d = Some d'"
  shows "mset (concat (map (\<lambda>s. List.map_filter (as_seg_int uni dv) (member_idx s)) (subreqs d'))) =
      mset (concat (map (\<lambda>s. List.map_filter (as_seg_int uni dv) (member_idx s)) (subreqs d))) \<and>
    list_all (\<lambda>s. is_rollback s \<and> 2 \<le> length (sorted_members (as_seg_int uni dv) s) \<longrightarrow>
      remind_pos meta (sorted_members (as_seg_int uni dv) s) \<in> {Some None, Some (Some 0)}) (subreqs d')"
proof -
  obtain subs es where loop: "purity_loop (as_seg_int uni dv) (\<lambda>n. SegNum (int n)) meta (subreqs d) (edges d) = Some (subs, es)"
      "d' = d\<lparr> subreqs := subs, edges := es \<rparr>"
    using assms by (auto simp: enforce_rollback_purity_def)
  show ?thesis
    using purity_loop_spec [OF as_seg_int_num loop(1)] loop(2) unfolding pure_rollback_def by simp
qed

section \<open>One chunk\<close>

lemma one_loop_disjoint:
  "one_loop num lit_num tie False meta retried kept attempts = Some d \<Longrightarrow> disjoint_requests num (subreqs d)"
proof (induction attempts arbitrary: retried kept)
  case Nil
  then obtain k where "d = fst (resolve_overlaps num tie False True k)" by auto
  then show ?case using resolve_overlaps_spec(2,3) [of num tie True k d] by (metis prod.collapse)
next
  case (Cons a attempts)
  show ?case
  proof (cases "Option.bind a (enforce_rollback_purity num lit_num meta)")
    case None
    then show ?thesis using Cons by simp
  next
    case (Some d1)
    obtain d2 large where r: "resolve_overlaps num tie False retried (enforce_status_sanity num d1) = (d2, large)"
      by fastforce
    then show ?thesis using Cons Some resolve_overlaps_spec(2) [OF r] by (cases large) auto
  qed
qed

lemma one_loop_returns:
  "one_loop num lit_num tie soft meta retried kept attempts \<noteq> None \<longleftrightarrow>
   kept \<noteq> None \<or> (\<exists>a \<in> set attempts. Option.bind a (enforce_rollback_purity num lit_num meta) \<noteq> None)"
  by (induction attempts arbitrary: retried kept) (auto split: option.split prod.split)

text \<open>
  C10. A chunk is decomposed exactly when one of the calls that are allowed gives an answer the repairs
  can read; the requests of the result never share a message, whatever the model answered.
\<close>

theorem decompose_one_returns:
  "((\<exists>d. decompose_one num lit_num tie False meta attempts = Some d) \<longleftrightarrow>
     (\<exists>a \<in> set attempts. Option.bind a (enforce_rollback_purity num lit_num meta) \<noteq> None)) \<and>
   (\<forall>d. decompose_one num lit_num tie False meta attempts = Some d \<longrightarrow>
     sorted_wrt (\<lambda>s t. set (seg_members num s) \<inter> set (seg_members num t) = {}) (subreqs d))"
  using one_loop_returns [of num lit_num tie False meta False None attempts] one_loop_disjoint
  by (auto simp: decompose_one_def)

section \<open>Several chunks\<close>

text \<open>Every reference of an answer satisfies \<open>Q\<close>.\<close>

definition all_refs :: "('x \<Rightarrow> bool) \<Rightarrow> 'x decomposition \<Rightarrow> bool" where
  "all_refs Q d \<longleftrightarrow> (\<forall>s \<in> set (subreqs d). \<forall>x \<in> set (member_idx s). Q x)"

lemma all_refs_update: 
  "all_refs Q d \<Longrightarrow> set (member_idx s) \<subseteq> set (member_idx (subreqs d ! a)) \<Longrightarrow> a < length (subreqs d) \<Longrightarrow>
   all_refs Q (d\<lparr> subreqs := (subreqs d)[a := s] \<rparr>)"
  unfolding all_refs_def by (auto dest!: set_update_subset_insert [THEN subsetD]) (meson nth_mem subsetD)

lemma set_strip_members: "set (member_idx (strip_members num ms s)) \<subseteq> set (member_idx s)"
  by (auto simp: strip_members_def)

lemma set_dedup_loop: "set (dedup_loop num seen xs) \<subseteq> set xs"
proof (induction xs arbitrary: seen)
  case (Cons x xs)
  show ?case using Cons.IH [of seen] Cons.IH [of "the (num x) # seen"] by (auto split: option.split)
qed simp

lemma all_refs_pivot:
  assumes "all_refs Q (fst st)" "fst (fst p) < length (subreqs (fst st))" "snd (fst p) < length (subreqs (fst st))"
  shows "all_refs Q (fst (pivot_step num tie p st))"
proof -
  obtain i j shared where p: "p = ((i, j), shared)" by (metis surj_pair)
  obtain d large where st: "st = (d, large)" by (cases st)
  have "all_refs Q (d\<lparr> subreqs := (subreqs d)[a := strip_members num shared (subreqs d ! a)] \<rparr>)" if "a \<in> {i, j}" for a
    by (rule all_refs_update) (use assms that in \<open>auto simp: p st strip_members_def\<close>)
  from this [of i] this [of j] show ?thesis
    using order_pair_cases [of num tie "subreqs d" i j] assms(1)
    by (auto simp: pivot_step_def Let_def p st all_refs_def)
qed

lemma all_refs_pivot_fold:
  assumes "all_refs Q (fst st)"
    "\<And>i j shared. ((i, j), shared) \<in> set ps \<Longrightarrow> i < length (subreqs (fst st)) \<and> j < length (subreqs (fst st))"
  shows "all_refs Q (fst (fold (pivot_step num tie) ps st))"
  using assms
proof (induction ps arbitrary: st)
  case (Cons p ps)
  obtain d large where st: "st = (d, large)" by (cases st)
  have "length (subreqs (fst (pivot_step num tie p st))) = length (subreqs (fst st))"
    using pivot_step_shrinks [of num d tie p large] by (simp add: shrinks_def st)
  moreover have "all_refs Q (fst (pivot_step num tie p st))"
    by (rule all_refs_pivot) (use Cons.prems in \<open>metis list.set_intros(1) prod.collapse\<close>)+
  ultimately show ?case using Cons.IH [of "pivot_step num tie p st"] Cons.prems(2) by auto
qed simp

lemma set_narrow_step:
  "set (narrow_step num (m, is) subs) \<subseteq> set subs \<union> strip_members num [m] ` set subs"
proof (cases "2 \<le> length is")
  case True
  then obtain i j rest where r: "is = i # j # rest" by (auto simp: Suc_le_length_iff numeral_2_eq_2)
  define w where "w = argmin (\<lambda>k. seg_span num (subs ! k)) i (j # rest)"
  have "narrow_step num (m, is) subs =
      map (\<lambda>(k, s). if k \<in> set is \<and> k \<noteq> w then strip_members num [m] s else s) (List.enumerate 0 subs)"
    by (simp add: narrow_step_def r w_def Let_def)
  moreover have "snd ` set (List.enumerate 0 subs) \<subseteq> set subs" by (auto simp: in_set_enumerate_eq)
  ultimately show ?thesis by (auto split: if_splits)
qed (simp add: narrow_step_short)

lemma all_refs_narrow:
  "all_refs Q d \<Longrightarrow> all_refs Q (d\<lparr> subreqs := fold (narrow_step num) ps (subreqs d) \<rparr>)"
proof (induction ps arbitrary: d)
  case (Cons p ps)
  have "set (narrow_step num p (subreqs d)) \<subseteq> set (subreqs d) \<union> strip_members num [fst p] ` set (subreqs d)"
    using set_narrow_step [of num "fst p" "snd p"] by simp
  then have "all_refs Q (d\<lparr> subreqs := narrow_step num p (subreqs d) \<rparr>)"
    using Cons.prems unfolding all_refs_def by (fastforce simp: strip_members_def)
  then show ?case using Cons.IH [of "d\<lparr> subreqs := narrow_step num p (subreqs d) \<rparr>"] by simp
qed simp

lemma all_refs_resolve:
  assumes "all_refs Q d"
  shows "all_refs Q (fst (resolve_overlaps num tie soft force d))"
proof -
  define d1 where "d1 = d\<lparr> subreqs := map (dedup_members num) (subreqs d) \<rparr>"
  let ?ps = "pair_shared (msg_to_subs num (subreqs d1))"
  obtain d2 large where pivot: "fold (pivot_step num tie) ?ps (d1, False) = (d2, large)" by fastforce
  have d1: "all_refs Q d1"
    using assms set_dedup_loop by (fastforce simp: all_refs_def d1_def dedup_members_def)
  have "i < length (subreqs d1) \<and> j < length (subreqs d1)" if "((i, j), shared) \<in> set ?ps" for i j shared
    using pair_shared_sound [OF that] by simp
  then have d2: "all_refs Q d2"
    using all_refs_pivot_fold [of Q "(d1, False)" ?ps num tie] d1 pivot by fastforce
  have prune: "all_refs Q d' \<Longrightarrow> all_refs Q (prune_empty_subreqs num d')" for d'
    by (auto simp: all_refs_def prune_empty_subreqs_def Let_def)
  show ?thesis
    unfolding resolve_overlaps_def Let_def d1_def [symmetric] pivot prod.case
    using d1 d2 prune all_refs_narrow [OF d2] by auto
qed

lemma all_refs_sanity: "all_refs Q d \<Longrightarrow> all_refs Q (enforce_status_sanity num d)"
  by (auto simp: all_refs_def enforce_status_sanity_def Let_def split: if_splits)

lemma split_rollback_refs:
  assumes "split_rollback lit_num meta a b s es = (new, es')" "t \<in> set new" "x \<in> set (member_idx t)"
  shows "x \<in> lit_num ` (set a \<union> set b)"
  using assms by (auto simp: split_rollback_def Let_def)

lemma all_refs_purity_step:
  assumes "\<forall>x n. Q x \<longrightarrow> num x = Some n \<longrightarrow> Q (lit_num n)" "\<forall>x \<in> set (member_idx s). Q x"
    "purity_step num lit_num meta s es = Some (new, es')"
  shows "\<forall>t \<in> set new. \<forall>x \<in> set (member_idx t). Q x"
  using assms(3)
proof (cases rule: purity_step_cases)
  case 1
  then show ?thesis using assms(2) by simp
next
  case (2 p)
  have "Q (lit_num n)" if "n \<in> set (sorted_members num s)" for n
    using that assms(1,2) by (auto simp: sorted_members_def in_map_filter)
  then show ?thesis
    using split_rollback_refs [OF 2(2) [symmetric]] by (fastforce dest: in_set_takeD in_set_dropD)
qed

lemma all_refs_purity_loop:
  assumes "\<forall>x n. Q x \<longrightarrow> num x = Some n \<longrightarrow> Q (lit_num n)"
    "\<forall>s \<in> set subs. \<forall>x \<in> set (member_idx s). Q x" "purity_loop num lit_num meta subs es = Some (subs', es')"
  shows "\<forall>s \<in> set subs'. \<forall>x \<in> set (member_idx s). Q x"
  using assms(2,3)
proof (induction subs arbitrary: es subs' es')
  case (Cons s subs)
  obtain new es1 rest where step: "purity_step num lit_num meta s es = Some (new, es1)"
      "purity_loop num lit_num meta subs es1 = Some (rest, es')" "subs' = new @ rest"
    using Cons.prems by (auto split: bind_splits)
  have "\<forall>t \<in> set new. \<forall>x \<in> set (member_idx t). Q x"
    by (rule all_refs_purity_step [OF assms(1) _ step(1)]) (use Cons.prems(1) in auto)
  then show ?case using Cons.IH [OF _ step(2)] Cons.prems(1) step(3) by auto
qed simp

lemma one_loop_refs:
  assumes "\<forall>x n. Q x \<longrightarrow> num x = Some n \<longrightarrow> Q (lit_num n)"
    and "\<And>a. Some a \<in> set attempts \<Longrightarrow> all_refs Q a" "\<forall>k. kept = Some k \<longrightarrow> all_refs Q k"
    and "one_loop num lit_num tie soft meta retried kept attempts = Some d"
  shows "all_refs Q d"
  using assms(2-4)
proof (induction attempts arbitrary: retried kept)
  case Nil
  then show ?case using all_refs_resolve by auto
next
  case (Cons a attempts)
  show ?case
  proof (cases "Option.bind a (enforce_rollback_purity num lit_num meta)")
    case None
    then show ?thesis using Cons by simp
  next
    case (Some d1)
    obtain d2 large where r: "resolve_overlaps num tie soft retried (enforce_status_sanity num d1) = (d2, large)"
      by fastforce
    obtain d0 subs es where a: "a = Some d0" "d1 = d0\<lparr> subreqs := subs, edges := es \<rparr>"
        "purity_loop num lit_num meta (subreqs d0) (edges d0) = Some (subs, es)"
      using Some by (auto simp: enforce_rollback_purity_def split: bind_splits)
    have "all_refs Q d0" using Cons.prems(1) a(1) by simp
    then have "all_refs Q d1"
      using all_refs_purity_loop [OF assms(1) _ a(3)] a(2) by (simp add: all_refs_def)
    then have d2: "all_refs Q d2" using all_refs_resolve [OF all_refs_sanity, of Q d1 num tie soft retried num] r by simp
    show ?thesis
    proof (cases large)
      case True
      then show ?thesis using Cons.IH [of "Some d2" True] Cons.prems Some r d2 by auto
    qed (use Cons.prems(3) Some r d2 in simp)
  qed
qed

text \<open>An answer with readable numbers of the \<open>n\<close> messages of its chunk.\<close>

definition in_chunk :: "('x \<Rightarrow> nat option) \<Rightarrow> nat \<Rightarrow> 'x \<Rightarrow> bool" where
  "in_chunk num n x \<longleftrightarrow> (\<exists>v. num x = Some v \<and> 1 \<le> v \<and> v \<le> n)"

lemma decompose_one_spec:
  assumes "\<And>n. num (lit_num n) = Some n" "\<And>a. Some a \<in> set attempts \<Longrightarrow> all_refs (in_chunk num n) a"
    "decompose_one num lit_num tie False meta attempts = Some d"
  shows "disjoint_requests num (subreqs d)" "all_refs (in_chunk num n) d"
proof -
  show "disjoint_requests num (subreqs d)" using assms(3) one_loop_disjoint by (simp add: decompose_one_def)
  show "all_refs (in_chunk num n) d"
    by (rule one_loop_refs [OF _ assms(2) _ assms(3) [unfolded decompose_one_def]])
      (auto simp: in_chunk_def assms(1))
qed

lemma nums_shift:
  assumes "\<And>n. num (lit_num n) = Some n" "\<forall>x \<in> set (member_idx s). in_chunk num n x"
  shows "nums num (shift_request num lit_num ci offset s) = (\<lambda>v. v + offset) ` nums num s"
    and "nums num (shift_request num lit_num ci offset s) \<subseteq> {offset + 1..offset + n}"
proof -
  show image: "nums num (shift_request num lit_num ci offset s) = (\<lambda>v. v + offset) ` nums num s"
    using assms(2) unfolding set_seg_members shift_request_def in_chunk_def
    by (force simp: assms(1) image_iff)
  have "nums num s \<subseteq> {1..n}" using assms(2) by (auto simp: set_seg_members in_chunk_def)
  then show "nums num (shift_request num lit_num ci offset s) \<subseteq> {offset + 1..offset + n}"
    unfolding image by auto
qed

lemma merge_chunks_spec:
  assumes "\<And>n. num (lit_num n) = Some n"
    "\<forall>(d, n) \<in> set ds. disjoint_requests num (subreqs d) \<and> all_refs (in_chunk num n) d"
  shows "disjoint_requests num (fst (merge_chunks num lit_num ci offset ds)) \<and>
    all_nums num (fst (merge_chunks num lit_num ci offset ds)) \<subseteq> {offset + 1..offset + sum_list (map snd ds)}"
  using assms(2)
proof (induction ds arbitrary: ci offset)
  case (Cons dn ds)
  obtain d n where dn: "dn = (d, n)" by (cases dn)
  obtain subs es where rec: "merge_chunks num lit_num (Suc ci) (offset + n) ds = (subs, es)" by fastforce
  let ?shift = "shift_request num lit_num ci offset"
  have d: "disjoint_requests num (subreqs d)" "\<And>s. s \<in> set (subreqs d) \<Longrightarrow> \<forall>x \<in> set (member_idx s). in_chunk num n x"
    using Cons.prems by (auto simp: dn all_refs_def)
  note shift = nums_shift [OF assms(1) d(2)]
  have rest: "disjoint_requests num subs" "all_nums num subs \<subseteq> {offset + n + 1..offset + n + sum_list (map snd ds)}"
    using Cons.IH [of "Suc ci" "offset + n"] Cons.prems rec by auto
  have "disjoint_requests num (map ?shift (subreqs d))"
    unfolding sorted_wrt_map
  proof (rule sorted_wrt_mono_rel [OF _ d(1)])
    fix s t
    assume st: "s \<in> set (subreqs d)" "t \<in> set (subreqs d)" "nums num s \<inter> nums num t = {}"
    then show "nums num (?shift s) \<inter> nums num (?shift t) = {}"
      unfolding shift(1) [OF st(1)] shift(1) [OF st(2)] by auto
  qed
  moreover have first: "nums num (?shift s) \<subseteq> {offset + 1..offset + n}" if "s \<in> set (subreqs d)" for s
    by (rule shift(2) [OF that])
  moreover have later: "nums num t \<subseteq> {offset + n + 1..offset + n + sum_list (map snd ds)}" if "t \<in> set subs" for t
    using rest(2) that by blast
  have "nums num (?shift s) \<inter> nums num t = {}" if "s \<in> set (subreqs d)" "t \<in> set subs" for s t
    using first [OF that(1)] later [OF that(2)] by fastforce
  ultimately have "disjoint_requests num (map ?shift (subreqs d) @ subs)"
    using rest(1) by (simp add: sorted_wrt_append)
  moreover have "all_nums num (map ?shift (subreqs d) @ subs) \<subseteq> {offset + 1..offset + (n + sum_list (map snd ds))}"
    using first rest(2) by fastforce
  ultimately show ?case by (simp add: dn rec)
qed simp

lemma disjoint_requests_members:
  "disjoint_requests num subs \<longleftrightarrow>
   sorted_wrt (\<lambda>xs ys. {v. \<exists>x \<in> set xs. num x = Some v} \<inter> {v. \<exists>x \<in> set ys. num x = Some v} = {})
     (map member_idx subs)"
  by (simp add: sorted_wrt_map set_seg_members)

lemma all_nums_members:
  "all_nums num subs = \<Union> ((\<lambda>xs. {v. \<exists>x \<in> set xs. num x = Some v}) ` set (map member_idx subs))"
  by (simp add: set_seg_members)

lemma terminal_tail_nums:
  "disjoint_requests num (subreqs (enforce_terminal_tail num terminal d)) = disjoint_requests num (subreqs d)"
  "all_nums num (subreqs (enforce_terminal_tail num terminal d)) = all_nums num (subreqs d)"
  unfolding disjoint_requests_members all_nums_members member_idx_enforce_terminal_tail by simp_all

lemma all_refs_nums: "all_refs (in_chunk num n) d \<Longrightarrow> all_nums num (subreqs d) \<subseteq> {1..n}"
  by (fastforce simp: all_refs_def set_seg_members in_chunk_def)

text \<open>
  C30. When the answers of the model name messages of their chunk, the requests of a task, of however
  many chunks, do not share a message and name only the messages of the task.
\<close>

theorem decompose_one_task_exclusive:
  fixes llm :: "bool \<Rightarrow> 'r event list \<Rightarrow> seg_ref decomposition option list"
  assumes answers: "\<And>big sub d. Some d \<in> set (llm big sub) \<Longrightarrow>
      all_refs (in_chunk (as_seg_int uni dv) (length sub)) d"
    and "0 < chunk_target"
    and "decompose_one_task (as_seg_int uni dv) (\<lambda>n. SegNum (int n)) tie False uni llm
      big_threshold chunk_target terminal cluster = Some (d, n)"
  shows "n = length (effective uni cluster) \<and>
    sorted_wrt (\<lambda>s t. set (seg_members (as_seg_int uni dv) s) \<inter> set (seg_members (as_seg_int uni dv) t) = {})
      (subreqs d) \<and>
    \<Union> ((\<lambda>s. set (seg_members (as_seg_int uni dv) s)) ` set (subreqs d)) \<subseteq> {1..n}"
proof -
  let ?num = "as_seg_int uni dv" and ?lit = "\<lambda>n. SegNum (int n)"
  let ?eff = "effective uni cluster"
  note one = decompose_one_spec [of ?num ?lit, OF as_seg_int_num answers]
  show ?thesis
  proof (cases "length ?eff \<le> big_threshold")
    case True
    then obtain d1 where d1: "decompose_one ?num ?lit tie False ?eff (llm False ?eff) = Some d1"
        "d = enforce_terminal_tail ?num terminal d1" "n = length ?eff"
      using assms(3) by (auto simp: decompose_one_task_def Let_def)
    show ?thesis
      using one [OF _ d1(1)] all_refs_nums [of ?num n d1] unfolding d1(2) terminal_tail_nums by (simp add: d1(3))
  next
    case False
    define chunks where "chunks = split_by_gaps ?eff chunk_target"
    obtain ds where ds: "those (map (\<lambda>c. decompose_one ?num ?lit tie False c (llm True c)) chunks) = Some ds"
      using assms(3) False by (auto simp: decompose_one_task_def Let_def chunks_def)
    obtain subs es where mc: "merge_chunks ?num ?lit 1 0 (zip ds (map length chunks)) = (subs, es)" by fastforce
    have d: "d = enforce_terminal_tail ?num terminal
          \<lparr> dec_goal = first_goal ds, dec_delivery = [], subreqs = subs, edges = es \<rparr>"
        "n = sum_list (map length chunks)"
      using assms(3) False ds mc by (simp_all add: decompose_one_task_def Let_def chunks_def)
    have "concat chunks = ?eff" by (simp add: chunks_def split_by_gaps_concat)
    then have n: "n = length ?eff" using d(2) by (metis length_concat)
    have eq: "map (\<lambda>c. decompose_one ?num ?lit tie False c (llm True c)) chunks = map Some ds"
      using ds by (simp add: those_Some)
    have len: "length ds = length chunks" using arg_cong [OF eq, of length] by simp
    have nth: "decompose_one ?num ?lit tie False (chunks ! i) (llm True (chunks ! i)) = Some (ds ! i)"
      if "i < length chunks" for i
      using arg_cong [OF eq, of "\<lambda>xs. xs ! i"] that len by simp
    have "\<forall>(d, n) \<in> set (zip ds (map length chunks)). disjoint_requests ?num (subreqs d) \<and> all_refs (in_chunk ?num n) d"
      using one [OF _ nth] len by (auto simp: set_zip)
    note merged = merge_chunks_spec [of ?num ?lit, OF as_seg_int_num this, of 1 0, unfolded mc fst_conv]
    have "map snd (zip ds (map length chunks)) = map length chunks" using len by simp
    then show ?thesis using merged n d(2) unfolding d(1) terminal_tail_nums by simp
  qed
qed

section \<open>Concrete answers\<close>

definition num_ascii :: "seg_ref \<Rightarrow> nat option" where
  "num_ascii = as_seg_int ascii ascii_digit"

definition req :: "string \<Rightarrow> str \<Rightarrow> int list \<Rightarrow> seg_ref request" where
  "req i status ns =
     \<lparr> rq_id = Some (lit i), rq_title = lit ''request'', rq_lead_quote = [], rq_lead_role = [],
       rq_dominant = [], rq_type = [25910, 23614], rq_status = status, member_idx = map SegNum ns \<rparr>"

definition dec :: "seg_ref request list \<Rightarrow> seg_ref decomposition" where
  "dec subs = \<lparr> dec_goal = [], dec_delivery = [], subreqs = subs, edges = [] \<rparr>"

definition five_rows :: "unit event list" where
  "five_rows =
     [message 0 ''user'' ''a'' [] ''one'', message 5 ''bot'' ''b'' [] ''two'', message 90 ''bot'' ''c'' [] ''three'',
      message 95 ''user'' ''d'' [] ''four'', message 99 ''bot'' ''e'' [] ''five'']"

theorem split_by_gaps_bound_witness:
  "map (map ev_msg_id) (split_by_gaps five_rows 3) = [[lit ''a'', lit ''b''], [lit ''c'', lit ''d'', lit ''e'']] \<and>
   list_all (\<lambda>c. length c \<le> 5 \<and> c \<noteq> []) (split_by_gaps five_rows 3)"
proof
  show "list_all (\<lambda>c. length c \<le> 5 \<and> c \<noteq> []) (split_by_gaps five_rows 3)"
    using split_by_gaps_bound [of 3 five_rows] by (auto simp: list_all_iff five_rows_def)
qed code_simp

theorem enforce_terminal_tail_exact_witness:
  "map rq_status (subreqs (enforce_terminal_tail num_ascii False
     (dec [req ''A'' UNFINISHED [1, 2], req ''B'' ONE_PASS [4], req ''C'' ONE_PASS [3]]))) =
     [ONE_PASS, UNFINISHED, ONE_PASS] \<and>
   map member_idx (subreqs (enforce_terminal_tail num_ascii False
     (dec [req ''A'' UNFINISHED [1, 2], req ''B'' ONE_PASS [4], req ''C'' ONE_PASS [3]]))) =
     map member_idx [req ''A'' UNFINISHED [1, 2], req ''B'' ONE_PASS [4], req ''C'' ONE_PASS [3]]"
proof
  show "map member_idx (subreqs (enforce_terminal_tail num_ascii False
     (dec [req ''A'' UNFINISHED [1, 2], req ''B'' ONE_PASS [4], req ''C'' ONE_PASS [3]]))) =
     map member_idx [req ''A'' UNFINISHED [1, 2], req ''B'' ONE_PASS [4], req ''C'' ONE_PASS [3]]"
    using enforce_terminal_tail_exact [of "dec [req ''A'' UNFINISHED [1, 2], req ''B'' ONE_PASS [4], req ''C'' ONE_PASS [3]]"
        num_ascii False]
    by (auto simp: dec_def)
qed code_simp

theorem resolve_overlaps_exclusive_witness:
  "map (seg_members num_ascii) (subreqs (fst (resolve_overlaps num_ascii (<) False True
     (dec [req ''A'' ONE_PASS [1, 2, 5], req ''B'' ONE_PASS [5, 7]])))) = [[1, 2], [5, 7]] \<and>
   sorted_wrt (\<lambda>s t. set (seg_members num_ascii s) \<inter> set (seg_members num_ascii t) = {})
     (subreqs (fst (resolve_overlaps num_ascii (<) False True
       (dec [req ''A'' ONE_PASS [1, 2, 5], req ''B'' ONE_PASS [5, 7]]))))"
proof
  show "sorted_wrt (\<lambda>s t. set (seg_members num_ascii s) \<inter> set (seg_members num_ascii t) = {})
     (subreqs (fst (resolve_overlaps num_ascii (<) False True
       (dec [req ''A'' ONE_PASS [1, 2, 5], req ''B'' ONE_PASS [5, 7]]))))"
    using resolve_overlaps_exclusive [of num_ascii "(<)" "dec [req ''A'' ONE_PASS [1, 2, 5], req ''B'' ONE_PASS [5, 7]]"]
    by (metis fst_conv)
qed code_simp

text \<open>
  A message that three requests start with is lost: the pairs are settled one after the other by the
  first numbers of the requests at that moment, and each of the three gives it up once.
\<close>

lemma resolve_overlaps_loses_shared:
  "map (seg_members num_ascii) (subreqs (fst (resolve_overlaps num_ascii (<) False True
     (dec [req ''A'' ONE_PASS [5, 9], req ''B'' ONE_PASS [5, 7], req ''C'' ONE_PASS [5, 8]])))) =
   [[9], [7], [8]]"
  by code_simp

theorem rollback_purity_witness:
  "\<exists>d'. enforce_rollback_purity (as_seg_int ascii ascii_digit) (\<lambda>n. SegNum (int n)) five_rows
     (dec [req ''A'' CORRECTED [2, 3, 4, 5]]) = Some d' \<and>
   map (sorted_members num_ascii) (subreqs d') = [[2, 3], [4, 5]] \<and>
   mset (concat (map (\<lambda>s. List.map_filter (as_seg_int ascii ascii_digit) (member_idx s)) (subreqs d'))) =
     mset (concat (map (\<lambda>s. List.map_filter (as_seg_int ascii ascii_digit) (member_idx s))
       (subreqs (dec [req ''A'' CORRECTED [2, 3, 4, 5]]))))"
proof -
  have "\<exists>d'. enforce_rollback_purity (as_seg_int ascii ascii_digit) (\<lambda>n. SegNum (int n)) five_rows
     (dec [req ''A'' CORRECTED [2, 3, 4, 5]]) = Some d'"
    "map_option (\<lambda>d'. map (sorted_members num_ascii) (subreqs d'))
      (enforce_rollback_purity (as_seg_int ascii ascii_digit) (\<lambda>n. SegNum (int n)) five_rows
       (dec [req ''A'' CORRECTED [2, 3, 4, 5]])) = Some [[2, 3], [4, 5]]"
    unfolding not_None_eq [symmetric] by code_simp+
  then show ?thesis using rollback_purity [of ascii ascii_digit five_rows] by fastforce
qed

theorem decompose_one_returns_witness:
  "\<exists>d. decompose_one num_ascii (\<lambda>n. SegNum (int n)) (<) False five_rows
     [None, Some (dec [req ''A'' ONE_PASS [1, 2, 3], req ''B'' ONE_PASS [1, 2, 3, 4]])] = Some d \<and>
   map (seg_members num_ascii) (subreqs d) = [[1, 2], [3, 4]]"
proof -
  let ?one = "decompose_one num_ascii (\<lambda>n. SegNum (int n)) (<) False five_rows
     [None, Some (dec [req ''A'' ONE_PASS [1, 2, 3], req ''B'' ONE_PASS [1, 2, 3, 4]])]"
  have "enforce_rollback_purity num_ascii (\<lambda>n. SegNum (int n)) five_rows
      (dec [req ''A'' ONE_PASS [1, 2, 3], req ''B'' ONE_PASS [1, 2, 3, 4]]) \<noteq> None"
    by code_simp
  then obtain d where "?one = Some d"
    using decompose_one_returns [of num_ascii "\<lambda>n. SegNum (int n)" "(<)" five_rows
        "[None, Some (dec [req ''A'' ONE_PASS [1, 2, 3], req ''B'' ONE_PASS [1, 2, 3, 4]])]"]
    by auto
  moreover have "map_option (\<lambda>d. map (seg_members num_ascii) (subreqs d)) ?one = Some [[1, 2], [3, 4]]"
    by code_simp
  ultimately show ?thesis by simp
qed

definition first_only :: "bool \<Rightarrow> unit event list \<Rightarrow> seg_ref decomposition option list" where
  "first_only big sub = (if sub = [] then [] else [Some (dec [req ''A'' ONE_PASS [1]])])"

theorem decompose_one_task_exclusive_witness:
  "\<exists>d. decompose_one_task (as_seg_int ascii ascii_digit) (\<lambda>n. SegNum (int n)) (<) False ascii first_only
     2 3 True five_rows = Some (d, 5) \<and>
   map (seg_members num_ascii) (subreqs d) = [[1], [3]] \<and>
   \<Union> ((\<lambda>s. set (seg_members (as_seg_int ascii ascii_digit) s)) ` set (subreqs d)) \<subseteq> {1..5}"
proof -
  let ?r = "decompose_one_task (as_seg_int ascii ascii_digit) (\<lambda>n. SegNum (int n)) (<) False ascii first_only
     2 3 True five_rows"
  have r: "map_option (\<lambda>(d, n). (map (seg_members num_ascii) (subreqs d), n)) ?r = Some ([[1], [3]], 5)" by code_simp
  then obtain d where d: "?r = Some (d, 5)" "map (seg_members num_ascii) (subreqs d) = [[1], [3]]" by auto
  have "all_refs (in_chunk (as_seg_int ascii ascii_digit) (length sub)) d'" if "Some d' \<in> set (first_only big sub)" for big sub d'
    using that by (cases sub) (auto simp: first_only_def all_refs_def in_chunk_def dec_def req_def)
  from decompose_one_task_exclusive [OF this _ d(1)] d show ?thesis by simp
qed

text \<open>An unreadable number in the second chunk becomes the last message of the first one.\<close>

lemma unreadable_number_leaves_chunk:
  "seg_members num_ascii (shift_request num_ascii (\<lambda>n. SegNum (int n)) 2 100
     ((req ''A'' ONE_PASS [])\<lparr> member_idx := [SegText (lit ''x'')] \<rparr>)) = [100]"
  by code_simp

end
