(* ===== verification/Message_Tree.thy ===== *)
theory Message_Tree
  imports Event_Text "HOL-Library.AList" "HOL-Library.Sublist"
begin

text \<open>
  The threads of a captured session, from \<^verbatim>\<open>trajectory-collect/scripts/message_tree.py\<close> and
  \<^verbatim>\<open>traj_common.py\<close>.  The messages of all API calls are mounted on one tree; the identifier of a
  thread hangs on the first assistant message of a call.  \<^verbatim>\<open>json.dumps\<close> with sorted keys and the
  hexadecimal SHA-256 of a text are the fields of the parameter \<open>h\<close>.
\<close>

section \<open>System prompts\<close>

datatype json =
  JNull | JBool bool | JNum rat | JStr str | JArr "json list" | JObj "(str \<times> json) list"

text \<open>\<^verbatim>\<open>dict.get\<close>: a missing key reads as null.\<close>

definition obj_get :: "(str \<times> json) list \<Rightarrow> string \<Rightarrow> json" where
  "obj_get ob k = (case map_of ob (lit k) of Some v \<Rightarrow> v | None \<Rightarrow> JNull)"

record hashing =
  json_dumps :: "json \<Rightarrow> str"
  sha256 :: "str \<Rightarrow> str"

definition BILLING_PREFIX :: str where
  "BILLING_PREFIX = lit ''x-anthropic-billing-header''"

fun is_billing_block :: "json \<Rightarrow> bool" where
  "is_billing_block (JObj b) =
     (case obj_get b ''text'' of JStr t \<Rightarrow> starts_with t BILLING_PREFIX | _ \<Rightarrow> False)"
| "is_billing_block _ = False"

fun strip_billing_blocks :: "json \<Rightarrow> json" where
  "strip_billing_blocks (JArr bs) = JArr (filter (\<lambda>b. \<not> is_billing_block b) bs)"
| "strip_billing_blocks system = system"

text \<open>The texts of the blocks; \<^const>\<open>None\<close> when \<^verbatim>\<open>join\<close> meets a text that is not a string.\<close>

fun block_texts :: "json list \<Rightarrow> str list option" where
  "block_texts [] = Some []"
| "block_texts (JObj b # bs) =
     (case map_of b (lit ''text'') of
        None \<Rightarrow> map_option (Cons []) (block_texts bs)
      | Some (JStr t) \<Rightarrow> map_option (Cons t) (block_texts bs)
      | Some _ \<Rightarrow> None)"
| "block_texts (_ # bs) = block_texts bs"

fun system_text :: "json \<Rightarrow> str option" where
  "system_text system =
     (case strip_billing_blocks system of
        JArr bs \<Rightarrow> map_option (join_str [nl]) (block_texts bs)
      | JStr s \<Rightarrow> Some s
      | JNull \<Rightarrow> Some []
      | JBool False \<Rightarrow> Some []
      | JNum x \<Rightarrow> if x = 0 then Some [] else None
      | JObj [] \<Rightarrow> Some []
      | _ \<Rightarrow> None)"

definition system_tools_sha :: "hashing \<Rightarrow> json \<Rightarrow> json \<Rightarrow> str" where
  "system_tools_sha h system tools =
     sha256 h (json_dumps h (JObj [(lit ''system'', strip_billing_blocks system), (lit ''tools'', tools)]))"

definition classify_text :: "str \<Rightarrow> str \<times> str" where
  "classify_text t =
     (let has = (\<lambda>p. py_contains (py_lower t) (lit p)) in
      if has ''generate a concise'' \<and> has ''title'' then (lit ''aux'', lit ''title'')
      else if has ''file search specialist'' then (lit ''subagent'', lit ''file-search'')
      else if has ''performing a web search'' \<or> has ''web search tool use'' then (lit ''subagent'', lit ''web-search'')
      else if has ''interactive agent that helps users with software engineering'' then (lit ''main'', lit ''main'')
      else if has ''you are claude code'' then (lit ''subagent'', lit ''task'')
      else if has ''claude agent sdk'' then (lit ''aux'', lit ''sdk'')
      else (lit ''aux'', lit ''unknown''))"

definition classify_role :: "json \<Rightarrow> (str \<times> str) option" where
  "classify_role system = map_option classify_text (system_text system)"

section \<open>Calls as paths\<close>

text \<open>The role of a message is a string or missing.\<close>

record chat_message =
  msg_role :: "str option"
  msg_content :: json

record api_request =
  req_system :: json
  req_messages :: "chat_message list"

definition system_fp :: "hashing \<Rightarrow> json \<Rightarrow> str" where
  "system_fp h system = lit ''sys:'' @ sha256 h (json_dumps h (strip_billing_blocks system))"

definition msg_fingerprint :: "hashing \<Rightarrow> chat_message \<Rightarrow> str" where
  "msg_fingerprint h m =
     sha256 h (json_dumps h (JObj
       [(lit ''role'', case msg_role m of Some r \<Rightarrow> JStr r | None \<Rightarrow> JNull), (lit ''content'', msg_content m)]))"

definition branch_id :: "hashing \<Rightarrow> str list \<Rightarrow> str" where
  "branch_id h path_keys = lit ''t'' @ take 12 (sha256 h (join_str [31] path_keys))"

definition role_of :: "chat_message \<Rightarrow> str" where
  "role_of m = (case msg_role m of Some (c # r) \<Rightarrow> c # r | _ \<Rightarrow> lit ''?'')"

definition call_seq :: "hashing \<Rightarrow> api_request \<Rightarrow> (str \<times> str) list" where
  "call_seq h req =
     (lit ''system'', system_fp h (req_system req)) #
       map (\<lambda>m. (role_of m, msg_fingerprint h m)) (req_messages req)"

fun path_key :: "str \<times> str \<Rightarrow> str" where
  "path_key (role, fp) = role @ lit '':'' @ fp"

abbreviation is_assistant :: "str \<times> str \<Rightarrow> bool" where
  "is_assistant x \<equiv> fst x = lit ''assistant''"

text \<open>The path to the anchor: up to the first assistant message, or the whole call without one.\<close>

fun anchor_path :: "(str \<times> str) list \<Rightarrow> (str \<times> str) list" where
  "anchor_path [] = []"
| "anchor_path (x # xs) = x # (if is_assistant x then [] else anchor_path xs)"

section \<open>The tree\<close>

datatype node =
  Node (node_fp: str) (node_role: str) (node_children: "(str \<times> node) list")
    (node_is_anchor: bool) (node_branch_id: "str option")

definition new_tree :: node where
  "new_tree = Node (lit ''__root__'') (lit ''root'') [] False None"

fun insert_path :: "(str \<times> str) list \<Rightarrow> node \<Rightarrow> node" where
  "insert_path [] n = n"
| "insert_path ((role, fp) # xs) (Node f r cs a b) =
     Node f r
       (AList.update fp
          (insert_path xs (case map_of cs fp of Some c \<Rightarrow> c | None \<Rightarrow> Node fp role [] False None)) cs)
       a b"

fun node_at :: "str list \<Rightarrow> node \<Rightarrow> node option" where
  "node_at [] n = Some n"
| "node_at (fp # p) n = Option.bind (map_of (node_children n) fp) (node_at p)"

fun update_at :: "str list \<Rightarrow> (node \<Rightarrow> node) \<Rightarrow> node \<Rightarrow> node" where
  "update_at [] g n = g n"
| "update_at (fp # p) g (Node f r cs a b) =
     (case map_of cs fp of
        None \<Rightarrow> Node f r cs a b
      | Some c \<Rightarrow> Node f r (AList.update fp (update_at p g c) cs) a b)"

fun mark_anchor :: "node \<Rightarrow> node" where
  "mark_anchor (Node f r cs a b) = Node f r cs True b"

fun set_branch :: "str \<Rightarrow> node \<Rightarrow> node" where
  "set_branch i (Node f r cs a b) = Node f r cs a (Some i)"

definition mount_call :: "hashing \<Rightarrow> api_request \<Rightarrow> node \<Rightarrow> node \<times> str \<times> bool" where
  "mount_call h req tree =
     (let xs = call_seq h req;
          anchor = anchor_path xs;
          fps = map snd anchor;
          provisional = \<not> list_ex is_assistant xs;
          tree = insert_path xs tree;
          tree = (if provisional then tree else update_at fps mark_anchor tree);
          i = (case Option.bind (node_at fps tree) node_branch_id of
                 Some i \<Rightarrow> i
               | None \<Rightarrow> branch_id h (map path_key anchor))
      in (update_at fps (set_branch i) tree, i, provisional))"

fun walk_path :: "(str \<times> str) list \<Rightarrow> node \<Rightarrow> node option" where
  "walk_path [] n = Some n"
| "walk_path (x # xs) n =
     (case map_of (node_children n) (snd x) of
        None \<Rightarrow> None
      | Some c \<Rightarrow> if is_assistant x then Some c else walk_path xs c)"

definition walk_to_anchor :: "hashing \<Rightarrow> api_request \<Rightarrow> node \<Rightarrow> node option" where
  "walk_to_anchor h req tree = walk_path (call_seq h req) tree"

fun node_count :: "node \<Rightarrow> nat" where
  "node_count (Node f r cs a b) = Suc (sum_list (map (\<lambda>c. node_count (snd c)) cs))"

text \<open>The loop over the stack; its top is the head of the list.\<close>

function anchor_ids :: "node list \<Rightarrow> str list" where
  "anchor_ids [] = []"
| "anchor_ids (Node f r cs a b # stack) =
     (case b of Some i \<Rightarrow> if a \<and> i \<noteq> [] then [i] else [] | None \<Rightarrow> []) @
       anchor_ids (rev (map snd cs) @ stack)"
  by pat_completeness auto
termination
  by (relation "measure (\<lambda>ns. sum_list (map node_count ns))") (auto simp: rev_map [symmetric] comp_def)

definition unique_descendant_thread :: "hashing \<Rightarrow> api_request \<Rightarrow> node \<Rightarrow> str option" where
  "unique_descendant_thread h req tree =
     (case walk_to_anchor h req tree of
        None \<Rightarrow> None
      | Some n \<Rightarrow> (case remdups (anchor_ids [n]) of [i] \<Rightarrow> Some i | _ \<Rightarrow> None))"

fun replay_session :: "hashing \<Rightarrow> api_request list \<Rightarrow> node \<Rightarrow> node \<times> (str \<times> bool) list" where
  "replay_session h [] tree = (tree, [])"
| "replay_session h (req # reqs) tree =
     (case mount_call h req tree of (tree, r) \<Rightarrow>
        case replay_session h reqs tree of (tree, rs) \<Rightarrow> (tree, r # rs))"

section \<open>The tree as a map from paths\<close>

definition view :: "node \<Rightarrow> str list \<Rightarrow> (bool \<times> str option) option" where
  "view t p = map_option (\<lambda>n. (node_is_anchor n, node_branch_id n)) (node_at p t)"

lemma view_simps [simp]:
  "view t [] = Some (node_is_anchor t, node_branch_id t)"
  "view t (fp # p) = Option.bind (map_of (node_children t) fp) (\<lambda>c. view c p)"
  by (auto simp: view_def split: bind_split)

lemma view_insert_path:
  "view (insert_path xs t) p =
     (case view t p of
        Some v \<Rightarrow> Some v
      | None \<Rightarrow> if prefix p (map snd xs) then Some (False, None) else None)"
proof (induction xs t arbitrary: p rule: insert_path.induct)
  case (1 n)
  show ?case by (cases p) (auto split: option.split)
next
  case (2 role fp xs f r cs a b)
  show ?case
  proof (cases p)
    case (Cons q p')
    show ?thesis
    proof (cases "q = fp")
      case True
      have "view (Node fp role [] False None) p' = (if p' = [] then Some (False, None) else None)"
        by (cases p') auto
      then show ?thesis using Cons True 2 by (auto simp: update_conv split: option.split)
    next
      case False
      then show ?thesis using Cons by (auto simp: update_conv split: option.split bind_split)
    qed
  qed auto
qed

lemma view_update_at:
  assumes "\<And>n. node_children (g n) = node_children n"
  shows "view (update_at q g t) p =
    (if p = q then map_option (\<lambda>n. (node_is_anchor (g n), node_branch_id (g n))) (node_at p t) else view t p)"
using assms
proof (induction q g t arbitrary: p rule: update_at.induct)
  case (1 g n)
  then show ?case by (cases p) (auto simp: view_def)
next
  case (2 fp q g f r cs a b)
  then show ?case
    by (cases p) (auto simp: update_conv view_def split: option.split bind_split)
qed

lemma node_children_marks [simp]:
  "node_children (mark_anchor n) = node_children n" "node_is_anchor (mark_anchor n)"
  "node_branch_id (mark_anchor n) = node_branch_id n"
  "node_children (set_branch i n) = node_children n" "node_is_anchor (set_branch i n) = node_is_anchor n"
  "node_branch_id (set_branch i n) = Some i"
  by (cases n, simp)+

lemma view_marks:
  "view (update_at q mark_anchor t) p = (if p = q then map_option (\<lambda>(a, b). (True, b)) (view t p) else view t p)"
  "view (update_at q (set_branch i) t) p = (if p = q then map_option (\<lambda>(a, b). (a, Some i)) (view t p) else view t p)"
  by (simp_all add: view_update_at) (simp_all add: view_def option.map_comp comp_def)

text \<open>The keys of a dictionary are distinct.\<close>

fun wf_node :: "node \<Rightarrow> bool" where
  "wf_node (Node f r cs a b) \<longleftrightarrow> distinct (map fst cs) \<and> (\<forall>c \<in> set cs. wf_node (snd c))"

lemma in_set_update: "x \<in> set (AList.update k v al) \<Longrightarrow> x = (k, v) \<or> x \<in> set al"
  by (induction al) (auto split: if_splits)

lemma wf_node_update:
  "wf_node (Node f r cs a b) \<Longrightarrow> wf_node c \<Longrightarrow> wf_node (Node f r (AList.update fp c cs) a b)"
  by (auto simp: distinct_update dest!: in_set_update)

lemma wf_node_child: "wf_node (Node f r cs a b) \<Longrightarrow> map_of cs fp = Some c \<Longrightarrow> wf_node c"
  by (auto dest: map_of_SomeD)

lemma wf_leaf: "wf_node (Node f r [] a b)"
  by simp

lemma wf_insert_path: "wf_node t \<Longrightarrow> wf_node (insert_path xs t)"
  by (induction xs t rule: insert_path.induct)
    (auto intro!: wf_node_update split: option.split dest: wf_node_child simp: wf_leaf simp del: wf_node.simps)

lemma wf_update_at:
  "(\<And>n. wf_node n \<Longrightarrow> wf_node (g n)) \<Longrightarrow> wf_node t \<Longrightarrow> wf_node (update_at q g t)"
  by (induction q g t rule: update_at.induct)
    (auto intro!: wf_node_update split: option.split dest: wf_node_child simp del: wf_node.simps)

lemma wf_marks: "wf_node n \<Longrightarrow> wf_node (mark_anchor n)" "wf_node n \<Longrightarrow> wf_node (set_branch i n)"
  by (cases n, simp)+

lemma wf_mount_call: "wf_node t \<Longrightarrow> wf_node (fst (mount_call h req t))"
  by (auto simp: mount_call_def Let_def intro!: wf_update_at wf_insert_path wf_marks)

lemma wf_replay_session: "wf_node t \<Longrightarrow> wf_node (fst (replay_session h reqs t))"
proof (induction h reqs t rule: replay_session.induct)
  case (2 h req reqs t)
  then show ?case using wf_mount_call [of t h req] by (auto split: prod.split)
qed simp

lemma set_anchor_ids:
  "list_all wf_node ns \<Longrightarrow>
   set (anchor_ids ns) = {i. i \<noteq> [] \<and> (\<exists>n \<in> set ns. \<exists>p. view n p = Some (True, Some i))}"
proof (induction ns rule: anchor_ids.induct)
  case (2 f r cs a b stack)
  have below: "(\<exists>p. view (Node f r cs a b) p = v) \<longleftrightarrow>
      Some (a, b) = v \<or> (\<exists>c \<in> set (map snd cs). \<exists>p. view c p = v)" if "v \<noteq> None" for v
  proof
    assume "\<exists>p. view (Node f r cs a b) p = v"
    then obtain p where p: "view (Node f r cs a b) p = v" by blast
    then show "Some (a, b) = v \<or> (\<exists>c \<in> set (map snd cs). \<exists>p. view c p = v)"
      using that by (cases p) (auto split: bind_split_asm dest!: map_of_SomeD intro!: disjI2 bexI exI)
  next
    assume "Some (a, b) = v \<or> (\<exists>c \<in> set (map snd cs). \<exists>p. view c p = v)"
    then consider "Some (a, b) = v" | fp c p where "(fp, c) \<in> set cs" "view c p = v" by auto
    then show "\<exists>p. view (Node f r cs a b) p = v"
    proof cases
      case 1
      then show ?thesis by (intro exI [of _ "[]"]) simp
    next
      case 2
      then have "map_of cs fp = Some c" using \<open>list_all wf_node _\<close> by (simp add: map_of_is_SomeI)
      then show ?thesis using 2 by (intro exI [of _ "fp # p"]) simp
    qed
  qed
  have "list_all wf_node (rev (map snd cs) @ stack)"
    using 2(2) by (auto simp: list_all_iff)
  note IH = 2(1) [OF this]
  show ?case
    unfolding anchor_ids.simps set_append IH
    using below [of "Some (True, Some _)"] by (auto split: option.splits if_splits)
qed simp

section \<open>What a tree records\<close>

definition opens :: "(str \<times> str) list \<Rightarrow> str list" where
  "opens xs = map snd (anchor_path xs)"

definition thread_id :: "hashing \<Rightarrow> (str \<times> str) list \<Rightarrow> str" where
  "thread_id h xs = branch_id h (map path_key (anchor_path xs))"

lemma prefix_anchor_path: "prefix (anchor_path xs) xs"
  by (induction xs) auto

lemma prefix_opens: "prefix (opens xs) (map snd xs)"
  unfolding opens_def by (rule map_mono_prefix [OF prefix_anchor_path])

lemma anchor_path_append: "list_ex is_assistant xs \<Longrightarrow> anchor_path (xs @ ys) = anchor_path xs"
  by (induction xs) auto

lemma list_ex_anchor_path [simp]: "list_ex is_assistant (anchor_path xs) = list_ex is_assistant xs"
  by (induction xs) auto

lemma walk_path_opens: "walk_path xs n = node_at (opens xs) n"
  by (induction xs n rule: walk_path.induct) (auto simp: opens_def split: option.split)

text \<open>
  The tree holds the paths \<open>S\<close>: a node for every prefix, a mark where an answered call has its
  anchor, and the identifier where any call has.
\<close>

definition mounted :: "hashing \<Rightarrow> (str \<times> str) list set \<Rightarrow> node \<Rightarrow> bool" where
  "mounted h S t \<longleftrightarrow>
     (\<forall>p. view t p \<noteq> None \<longleftrightarrow> p = [] \<or> (\<exists>xs \<in> S. prefix p (map snd xs))) \<and>
     (\<forall>p. map_option fst (view t p) = Some True \<longleftrightarrow> (\<exists>xs \<in> S. list_ex is_assistant xs \<and> opens xs = p)) \<and>
     (\<forall>p i. Option.bind (view t p) snd = Some i \<longleftrightarrow> (\<exists>xs \<in> S. opens xs = p \<and> i = thread_id h xs))"

text \<open>No two messages with the same fingerprint have different roles.\<close>

definition coherent :: "(str \<times> str) list set \<Rightarrow> bool" where
  "coherent S \<longleftrightarrow> (\<forall>xs \<in> S. \<forall>ys \<in> S. opens xs = opens ys \<longrightarrow> anchor_path xs = anchor_path ys)"

lemma mountedD:
  assumes "mounted h S t"
  shows "view t p \<noteq> None \<longleftrightarrow> p = [] \<or> (\<exists>xs \<in> S. prefix p (map snd xs))"
    and "map_option fst (view t p) = Some True \<longleftrightarrow> (\<exists>xs \<in> S. list_ex is_assistant xs \<and> opens xs = p)"
    and "Option.bind (view t p) snd = Some i \<longleftrightarrow> (\<exists>xs \<in> S. opens xs = p \<and> i = thread_id h xs)"
proof -
  note u = assms [unfolded mounted_def]
  show "view t p \<noteq> None \<longleftrightarrow> p = [] \<or> (\<exists>xs \<in> S. prefix p (map snd xs))"
    by (rule spec [OF conjunct1 [OF u]])
  show "map_option fst (view t p) = Some True \<longleftrightarrow> (\<exists>xs \<in> S. list_ex is_assistant xs \<and> opens xs = p)"
    by (rule spec [OF conjunct1 [OF conjunct2 [OF u]]])
  show "Option.bind (view t p) snd = Some i \<longleftrightarrow> (\<exists>xs \<in> S. opens xs = p \<and> i = thread_id h xs)"
    by (rule spec [OF spec [OF conjunct2 [OF conjunct2 [OF u]]]])
qed

lemma mounted_empty: "mounted h {} new_tree"
proof -
  have "view new_tree p = (if p = [] then Some (False, None) else None)" for p
    by (cases p) (auto simp: new_tree_def)
  then show ?thesis by (auto simp: mounted_def)
qed

lemma mount_call_view:
  "view (fst (mount_call h req t)) p =
     (let xs = call_seq h req in
      if p = opens xs then
        Some (list_ex is_assistant xs \<or> (\<exists>b. view t p = Some (True, b)), Some (fst (snd (mount_call h req t))))
      else case view t p of
             Some v \<Rightarrow> Some v
           | None \<Rightarrow> if prefix p (map snd xs) then Some (False, None) else None)"
proof -
  let ?xs = "call_seq h req"
  let ?t1 = "insert_path ?xs t"
  let ?t2 = "if list_ex is_assistant ?xs then update_at (opens ?xs) mark_anchor ?t1 else ?t1"
  let ?i = "fst (snd (mount_call h req t))"
  have m: "fst (mount_call h req t) = update_at (opens ?xs) (set_branch ?i) ?t2"
    by (simp add: mount_call_def Let_def opens_def)
  have at: "node_at p n = None \<longleftrightarrow> view n p = None" for n p
    by (simp add: view_def)
  have t1: "view ?t1 (opens ?xs) \<noteq> None"
    using prefix_opens [of ?xs] by (auto simp: view_insert_path split: option.split)
  have t2: "view ?t2 p = (if p = opens ?xs \<and> list_ex is_assistant ?xs
      then map_option (\<lambda>(a, b). (True, b)) (view ?t1 p) else view ?t1 p)" for p
    by (simp add: view_marks)
  have "view (fst (mount_call h req t)) p = (if p = opens ?xs
      then map_option (\<lambda>(a, b). (a, Some ?i)) (view ?t2 p) else view ?t2 p)"
    unfolding m by (rule view_marks)
  then show ?thesis
    using t1 by (auto simp: t2 view_insert_path Let_def split: option.splits if_splits)
qed

lemma mount_call_id:
  "snd (mount_call h req t) =
     (case Option.bind (view t (opens (call_seq h req))) snd of
        Some i \<Rightarrow> i
      | None \<Rightarrow> thread_id h (call_seq h req), \<not> list_ex is_assistant (call_seq h req))"
proof -
  let ?xs = "call_seq h req"
  let ?t2 = "if list_ex is_assistant ?xs then update_at (opens ?xs) mark_anchor (insert_path ?xs t)
    else insert_path ?xs t"
  have b: "Option.bind (node_at p n) node_branch_id = Option.bind (view n p) snd" for p n
    by (auto simp: view_def split: bind_split)
  have "Option.bind (view ?t2 (opens ?xs)) snd = Option.bind (view t (opens ?xs)) snd"
    using prefix_opens [of ?xs]
    by (auto simp: view_marks view_insert_path split: option.splits bind_splits)
  then show ?thesis
    unfolding thread_id_def
    by (cases "list_ex is_assistant ?xs") (simp_all add: mount_call_def Let_def b flip: opens_def)
qed

lemma mount_call_mounted:
  assumes t: "mounted h S t" and c: "coherent (insert (call_seq h req) S)"
  shows "snd (mount_call h req t) = (thread_id h (call_seq h req), \<not> list_ex is_assistant (call_seq h req)) \<and>
    mounted h (insert (call_seq h req) S) (fst (mount_call h req t))"
proof -
  let ?xs = "call_seq h req" and ?t = "fst (mount_call h req t)"
  have same: "thread_id h ys = thread_id h ?xs" if "ys \<in> S" "opens ys = opens ?xs" for ys
  proof -
    have "anchor_path ys = anchor_path ?xs" using that c unfolding coherent_def by blast
    then show ?thesis by (simp add: thread_id_def)
  qed
  have there: "view t p \<noteq> None \<longleftrightarrow> p = [] \<or> (\<exists>xs \<in> S. prefix p (map snd xs))"
    and marked: "map_option fst (view t p) = Some True \<longleftrightarrow> (\<exists>xs \<in> S. list_ex is_assistant xs \<and> opens xs = p)"
    and stored: "Option.bind (view t p) snd = Some i \<longleftrightarrow> (\<exists>xs \<in> S. opens xs = p \<and> i = thread_id h xs)" for p i
    by (rule mountedD [OF t])+
  have i: "snd (mount_call h req t) = (thread_id h ?xs, \<not> list_ex is_assistant ?xs)"
  proof (cases "Option.bind (view t (opens ?xs)) snd")
    case (Some j)
    with stored [of "opens ?xs" j] same have "j = thread_id h ?xs" by auto
    with Some show ?thesis by (simp add: mount_call_id)
  qed (simp add: mount_call_id)
  have view': "view ?t p =
      (if p = opens ?xs then
         Some (list_ex is_assistant ?xs \<or> map_option fst (view t p) = Some True, Some (thread_id h ?xs))
       else case view t p of
             Some v \<Rightarrow> Some v
           | None \<Rightarrow> if prefix p (map snd ?xs) then Some (False, None) else None)" for p
    using mount_call_view [of h req t p] i by (auto simp: Let_def)
  have a: "view ?t p \<noteq> None \<longleftrightarrow> p = [] \<or> (\<exists>xs \<in> insert ?xs S. prefix p (map snd xs))" for p
    using there [of p] prefix_opens [of ?xs] by (auto simp: view' split: option.split)
  have b: "map_option fst (view ?t p) = Some True \<longleftrightarrow>
      (\<exists>xs \<in> insert ?xs S. list_ex is_assistant xs \<and> opens xs = p)" for p
  proof -
    have "map_option fst (view ?t p) = Some True \<longleftrightarrow>
        p = opens ?xs \<and> list_ex is_assistant ?xs \<or> map_option fst (view t p) = Some True"
      by (cases "view t p"; cases "p = opens ?xs") (auto simp: view')
    then show ?thesis unfolding marked by blast
  qed
  have c: "Option.bind (view ?t p) snd = Some i \<longleftrightarrow>
      (\<exists>xs \<in> insert ?xs S. opens xs = p \<and> i = thread_id h xs)" for p i
  proof -
    have "Option.bind (view ?t p) snd = Some i \<longleftrightarrow>
        (if p = opens ?xs then i = thread_id h ?xs else Option.bind (view t p) snd = Some i)"
      by (cases "view t p") (auto simp: view')
    then show ?thesis unfolding stored using same by (cases "p = opens ?xs") auto
  qed
  show ?thesis unfolding mounted_def by (intro conjI allI i a b c)
qed

lemma replay_session_mounted:
  assumes "mounted h S t" "coherent (call_seq h ` set reqs \<union> S)"
  shows "snd (replay_session h reqs t) =
      map (\<lambda>r. (thread_id h (call_seq h r), \<not> list_ex is_assistant (call_seq h r))) reqs \<and>
    mounted h (call_seq h ` set reqs \<union> S) (fst (replay_session h reqs t))"
  using assms
proof (induction h reqs t arbitrary: S rule: replay_session.induct)
  case (2 h req reqs t)
  obtain t' r where m: "mount_call h req t = (t', r)" by (meson surj_pair)
  have "coherent (insert (call_seq h req) S)" using 2(3) by (simp add: coherent_def)
  note m' = mount_call_mounted [OF 2(2) this, unfolded m fst_conv snd_conv]
  have "coherent (call_seq h ` set reqs \<union> insert (call_seq h req) S)" using 2(3) by simp
  with 2(1) [OF m [symmetric], of "insert (call_seq h req) S"] m' show ?case by (auto simp: m split: prod.split)
qed simp

section \<open>Thread identifiers\<close>

text \<open>Messages of the calls with the same fingerprint have the same role.\<close>

definition no_collisions :: "hashing \<Rightarrow> api_request list \<Rightarrow> bool" where
  "no_collisions h reqs \<longleftrightarrow>
     (let ms = concat (map req_messages reqs) in
      list_all (\<lambda>m. list_all (\<lambda>m'. msg_fingerprint h m = msg_fingerprint h m' \<longrightarrow> role_of m = role_of m') ms) ms)"

lemma no_collisionsD:
  assumes "no_collisions h reqs" "r \<in> set reqs" "m \<in> set (req_messages r)"
    "r' \<in> set reqs" "m' \<in> set (req_messages r')" "msg_fingerprint h m = msg_fingerprint h m'"
  shows "role_of m = role_of m'"
  using assms unfolding no_collisions_def Let_def list_all_iff set_concat set_map by blast

lemma map_snd_inj:
  "(\<And>x y. x \<in> set xs \<Longrightarrow> y \<in> set ys \<Longrightarrow> snd x = snd y \<Longrightarrow> x = y) \<Longrightarrow>
   map snd xs = map snd ys \<Longrightarrow> xs = ys"
  by (induction xs ys rule: list_induct2') auto

lemma coherent_calls:
  assumes "no_collisions h reqs"
  shows "coherent (call_seq h ` set reqs)"
  unfolding coherent_def
proof (clarify)
  fix r r'
  assume r: "r \<in> set reqs" "r' \<in> set reqs" and eq: "opens (call_seq h r) = opens (call_seq h r')"
  have sub: "set (anchor_path xs) \<subseteq> set xs" for xs :: "(str \<times> str) list"
    by (rule set_mono_prefix [OF prefix_anchor_path])
  let ?tail = "\<lambda>r. anchor_path (map (\<lambda>m. (role_of m, msg_fingerprint h m)) (req_messages r))"
  have path: "anchor_path (call_seq h r) = (lit ''system'', system_fp h (req_system r)) # ?tail r" for r
    by (simp add: call_seq_def lit_def)
  have "x = y" if xy: "x \<in> set (?tail r)" "y \<in> set (?tail r')" "snd x = snd y" for x y
  proof -
    obtain m m' where m: "m \<in> set (req_messages r)" "x = (role_of m, msg_fingerprint h m)"
        "m' \<in> set (req_messages r')" "y = (role_of m', msg_fingerprint h m')"
      using subsetD [OF sub xy(1)] subsetD [OF sub xy(2)] by auto
    then have "role_of m = role_of m'"
      using no_collisionsD [OF assms r(1) _ r(2)] xy(3) by simp
    then show ?thesis using m xy(3) by simp
  qed
  then have "?tail r = ?tail r'"
    using eq map_snd_inj [of "?tail r" "?tail r'"] by (simp add: opens_def path)
  with eq show "anchor_path (call_seq h r) = anchor_path (call_seq h r')" by (simp add: opens_def path)
qed

lemma replay_from_start:
  assumes "no_collisions h reqs"
  shows "snd (replay_session h reqs new_tree) =
      map (\<lambda>r. (thread_id h (call_seq h r), \<not> list_ex is_assistant (call_seq h r))) reqs"
    and "mounted h (call_seq h ` set reqs) (fst (replay_session h reqs new_tree))"
  using replay_session_mounted [OF mounted_empty, of h reqs] coherent_calls [OF assms] by simp_all

lemma mount_call_alone:
  "snd (mount_call h r new_tree) = (thread_id h (call_seq h r), \<not> list_ex is_assistant (call_seq h r))"
  using mount_call_mounted [OF mounted_empty, of h r] by (simp add: coherent_def)

lemma view_mounted:
  assumes "mounted h S t" "coherent S"
  shows "view t p = Some (True, Some i) \<longleftrightarrow>
    (\<exists>xs \<in> S. list_ex is_assistant xs \<and> opens xs = p \<and> i = thread_id h xs)"
proof -
  have "view t p = Some (True, Some i) \<longleftrightarrow>
      map_option fst (view t p) = Some True \<and> Option.bind (view t p) snd = Some i"
    by (cases "view t p") auto
  moreover have same: "thread_id h xs = thread_id h ys" if "xs \<in> S" "ys \<in> S" "opens xs = opens ys" for xs ys
    using assms(2) that unfolding coherent_def thread_id_def by metis
  ultimately show ?thesis unfolding mountedD(2,3) [OF assms(1)] by (blast dest: same)
qed

lemma node_at_append: "node_at (p @ q) n = Option.bind (node_at p n) (node_at q)"
  by (induction p n rule: node_at.induct) (auto split: bind_split)

lemma wf_node_at: "wf_node t \<Longrightarrow> node_at p t = Some n \<Longrightarrow> wf_node n"
proof (induction p t rule: node_at.induct)
  case (2 fp p t)
  then show ?case by (cases t) (auto split: bind_splits dest: map_of_SomeD)
qed simp

lemma thread_id_not_Nil: "thread_id h xs \<noteq> []"
  by (simp add: thread_id_def branch_id_def lit_def)

lemma only_element: "(case remdups xs of [x] \<Rightarrow> Some x | _ \<Rightarrow> None) = Some y \<longleftrightarrow> set xs = {y}"
proof -
  have "distinct (remdups xs)" "set (remdups xs) = set xs" by simp_all
  then show ?thesis by (cases "remdups xs" rule: remdups_adj.cases) auto
qed

text \<open>
  C11.  Identifiers computed online and offline agree: mounting all calls of a session one after the
  other on one tree, whose nodes keep the identifiers they were given, gives every call the
  identifier and the provisional mark it gets on an empty tree of its own, in whatever order the
  calls arrive, as long as no fingerprint is shared by messages of different roles.
\<close>

theorem replay_session_online:
  assumes "no_collisions h reqs"
  shows "snd (replay_session h reqs new_tree) = map (\<lambda>r. snd (mount_call h r new_tree)) reqs"
  by (simp add: replay_from_start(1) [OF assms] mount_call_alone)

text \<open>
  C12.  A first frame is given to a thread exactly when all answered calls of the session that
  continue it belong to this one thread.
\<close>

theorem unique_descendant_thread_exact:
  assumes "no_collisions h reqs"
  shows "unique_descendant_thread h req (fst (replay_session h reqs new_tree)) = Some i \<longleftrightarrow>
    {fst (snd (mount_call h r new_tree)) | r. r \<in> set reqs \<and> list_ex is_assistant (call_seq h r) \<and>
       prefix (opens (call_seq h req)) (opens (call_seq h r))} = {i}"
proof -
  let ?t = "fst (replay_session h reqs new_tree)" and ?p = "opens (call_seq h req)"
  let ?below = "{fst (snd (mount_call h r new_tree)) | r. r \<in> set reqs \<and> list_ex is_assistant (call_seq h r) \<and>
       prefix ?p (opens (call_seq h r))}"
  note m = replay_from_start(2) [OF assms]
  have wf: "wf_node ?t" by (rule wf_replay_session) (simp add: new_tree_def)
  have path: "view ?t q = Some (True, Some j) \<longleftrightarrow>
      (\<exists>r \<in> set reqs. list_ex is_assistant (call_seq h r) \<and> opens (call_seq h r) = q \<and> j = thread_id h (call_seq h r))"
    for q j
    using view_mounted [OF m coherent_calls [OF assms]] by auto
  show ?thesis
  proof (cases "node_at ?p ?t")
    case None
    then have empty: "?below = {}"
      using mountedD(1) [OF m, of ?p] prefix_opens by (auto simp: view_def dest: prefix_order.trans)
    show ?thesis unfolding empty
      by (simp add: unique_descendant_thread_def walk_to_anchor_def walk_path_opens None)
  next
    case (Some n)
    have "view n q = view ?t (?p @ q)" for q by (simp add: view_def node_at_append Some)
    then have ids: "set (anchor_ids [n]) = ?below"
      using set_anchor_ids [of "[n]"] wf_node_at [OF wf Some]
      by (auto simp: path mount_call_alone thread_id_not_Nil prefix_def)
    show ?thesis unfolding ids [symmetric] only_element [symmetric]
      by (simp add: unique_descendant_thread_def walk_to_anchor_def walk_path_opens Some)
  qed
qed

text \<open>The texts that are joined to a key path do not contain the separators.\<close>

definition separable :: "(str \<times> str) list \<Rightarrow> bool" where
  "separable xs \<longleftrightarrow> list_all (\<lambda>(role, fp). 58 \<notin> set role \<and> 31 \<notin> set role \<and> 31 \<notin> set fp) xs"

definition joined_path :: "hashing \<Rightarrow> api_request \<Rightarrow> str" where
  "joined_path h r = join_str [31] (map path_key (anchor_path (call_seq h r)))"

lemma path_key_inj:
  "58 \<notin> set role \<Longrightarrow> 58 \<notin> set role' \<Longrightarrow> path_key (role, fp) = path_key (role', fp') \<longleftrightarrow> role = role' \<and> fp = fp'"
proof (induction role arbitrary: role')
  case Nil
  then show ?case by (cases role') (auto simp: lit_def)
next
  case (Cons c role)
  then show ?case by (cases role') (auto simp: lit_def)
qed

lemma path_keys_inj:
  "separable xs \<Longrightarrow> separable ys \<Longrightarrow> map path_key xs = map path_key ys \<Longrightarrow> xs = ys"
proof (induction xs ys rule: list_induct2')
  case (4 x xs y ys)
  then show ?case
    using path_key_inj [of "fst x" "fst y" "snd x" "snd y"] by (auto simp: separable_def)
qed auto

lemma join_path_keys_inj:
  assumes "separable xs" "separable ys" "xs \<noteq> []" "ys \<noteq> []"
    and "join_str [31] (map path_key xs) = join_str [31] (map path_key ys)"
  shows "xs = ys"
proof -
  have "split_char 31 (join_str [31] (map path_key zs)) = map path_key zs" if "separable zs" "zs \<noteq> []" for zs
    using that by (intro split_join) (auto simp: separable_def list_all_iff lit_def)
  then have "map path_key xs = map path_key ys" using assms by metis
  then show ?thesis by (rule path_keys_inj [OF assms(1,2)])
qed

lemma call_seq_append:
  "call_seq h (r\<lparr> req_messages := req_messages r @ ms \<rparr>) =
     call_seq h r @ map (\<lambda>m. (role_of m, msg_fingerprint h m)) ms"
  by (simp add: call_seq_def)

text \<open>
  C39.  A call with an answer keeps its identifier when messages are appended; and two calls have
  the same identifier exactly when they agree, in roles and fingerprints, up to the first answer,
  so parallel agents with the same prompt are told apart by it.  The digests of the two paths may
  not collide in the twelve digits that are kept.
\<close>

theorem thread_identity:
  assumes "separable (anchor_path (call_seq h r))" "separable (anchor_path (call_seq h r'))"
    and "take 12 (sha256 h (joined_path h r)) = take 12 (sha256 h (joined_path h r')) \<Longrightarrow>
      joined_path h r = joined_path h r'"
  shows "(list_ex is_assistant (call_seq h r) \<longrightarrow>
      snd (mount_call h (r\<lparr> req_messages := req_messages r @ ms \<rparr>) new_tree) = snd (mount_call h r new_tree)) \<and>
    (fst (snd (mount_call h r new_tree)) = fst (snd (mount_call h r' new_tree)) \<longleftrightarrow>
      anchor_path (call_seq h r) = anchor_path (call_seq h r'))"
proof -
  have "anchor_path (call_seq h r) \<noteq> []" for r by (simp add: call_seq_def)
  then have "thread_id h (call_seq h r) = thread_id h (call_seq h r') \<longleftrightarrow>
      anchor_path (call_seq h r) = anchor_path (call_seq h r')"
    using assms(3) join_path_keys_inj [OF assms(1,2)]
    by (auto simp: thread_id_def branch_id_def joined_path_def)
  then show ?thesis
    by (simp add: mount_call_alone call_seq_append anchor_path_append thread_id_def)
qed

section \<open>Two agents with one prompt\<close>

fun flat :: "json \<Rightarrow> str" where
  "flat (JStr s) = s"
| "flat (JObj ob) = concat (map (\<lambda>(k, v). flat v @ [44]) ob)"
| "flat (JArr bs) = concat (map flat bs)"
| "flat _ = []"

definition toy_hash :: hashing where
  "toy_hash = \<lparr> json_dumps = flat, sha256 = rev \<rparr>"

definition said :: "string \<Rightarrow> string \<Rightarrow> chat_message" where
  "said role txt = \<lparr> msg_role = Some (lit role), msg_content = JStr (lit txt) \<rparr>"

definition call_of :: "chat_message list \<Rightarrow> api_request" where
  "call_of ms = \<lparr> req_system = JStr (lit ''be helpful''), req_messages = ms \<rparr>"

definition two_agents :: "api_request list" where
  "two_agents =
     [call_of [said ''user'' ''go''],
      call_of [said ''user'' ''go'', said ''assistant'' ''left''],
      call_of [said ''user'' ''go'', said ''assistant'' ''right'', said ''user'' ''on''],
      call_of [said ''user'' ''stop''],
      call_of [said ''user'' ''stop'', said ''assistant'' ''fine'']]"

theorem replay_session_online_witness:
  "no_collisions toy_hash two_agents \<and>
   map snd (snd (replay_session toy_hash two_agents new_tree)) = [True, False, False, True, False] \<and>
   snd (replay_session toy_hash two_agents new_tree) =
     map (\<lambda>r. snd (mount_call toy_hash r new_tree)) two_agents"
proof (intro conjI)
  show c: "no_collisions toy_hash two_agents" by code_simp
  show "snd (replay_session toy_hash two_agents new_tree) =
      map (\<lambda>r. snd (mount_call toy_hash r new_tree)) two_agents"
    by (rule replay_session_online [OF c])
  show "map snd (snd (replay_session toy_hash two_agents new_tree)) = [True, False, False, True, False]"
    by code_simp
qed

theorem unique_descendant_thread_exact_witness:
  "unique_descendant_thread toy_hash (two_agents ! 0) (fst (replay_session toy_hash two_agents new_tree)) = None \<and>
   (\<exists>i. unique_descendant_thread toy_hash (two_agents ! 3)
       (fst (replay_session toy_hash two_agents new_tree)) = Some i \<and>
     {fst (snd (mount_call toy_hash r new_tree)) | r. r \<in> set two_agents \<and>
        list_ex is_assistant (call_seq toy_hash r) \<and>
        prefix (opens (call_seq toy_hash (two_agents ! 3))) (opens (call_seq toy_hash r))} = {i})"
proof
  have c: "no_collisions toy_hash two_agents" by code_simp
  have "unique_descendant_thread toy_hash (two_agents ! 3)
      (fst (replay_session toy_hash two_agents new_tree)) \<noteq> None" by code_simp
  then show "\<exists>i. unique_descendant_thread toy_hash (two_agents ! 3)
       (fst (replay_session toy_hash two_agents new_tree)) = Some i \<and>
     {fst (snd (mount_call toy_hash r new_tree)) | r. r \<in> set two_agents \<and>
        list_ex is_assistant (call_seq toy_hash r) \<and>
        prefix (opens (call_seq toy_hash (two_agents ! 3))) (opens (call_seq toy_hash r))} = {i}"
    using unique_descendant_thread_exact [OF c, of "two_agents ! 3"] by blast
qed code_simp

theorem thread_identity_witness:
  "fst (snd (mount_call toy_hash (two_agents ! 1) new_tree)) \<noteq>
     fst (snd (mount_call toy_hash (two_agents ! 2) new_tree)) \<and>
   anchor_path (call_seq toy_hash (two_agents ! 1)) \<noteq> anchor_path (call_seq toy_hash (two_agents ! 2)) \<and>
   snd (mount_call toy_hash ((two_agents ! 1)\<lparr> req_messages := req_messages (two_agents ! 1) @ [said ''user'' ''on''] \<rparr>)
     new_tree) = snd (mount_call toy_hash (two_agents ! 1) new_tree)"
proof -
  have "separable (anchor_path (call_seq toy_hash (two_agents ! 1)))"
    "separable (anchor_path (call_seq toy_hash (two_agents ! 2)))"
    "list_ex is_assistant (call_seq toy_hash (two_agents ! 1))"
    "take 12 (sha256 toy_hash (joined_path toy_hash (two_agents ! 1))) \<noteq>
     take 12 (sha256 toy_hash (joined_path toy_hash (two_agents ! 2)))"
    "anchor_path (call_seq toy_hash (two_agents ! 1)) \<noteq> anchor_path (call_seq toy_hash (two_agents ! 2))"
    by code_simp+
  with thread_identity [of toy_hash "two_agents ! 1" "two_agents ! 2" "[said ''user'' ''on'']"]
  show ?thesis by auto
qed

end
