(* ===== verification/Spec2Isabelle.thy ===== *)
theory Spec2Isabelle
  imports Seek_Sequence Patch_Grammar Patch_Delta Assistant_Text Utf8_Stream Policy_Laws
    Head_Tail_Buffer Context_Manager Task_Decompose Llm_Decompose Message_Tree
begin

text \<open>
  \<^bold>\<open>A verification library for agent-trajectory.\<close>

  The repository holds the coding agent of \<^verbatim>\<open>src/openai-codex/codex-rs\<close>, whose runs it collects,
  and the Python programs that collect and cut up these runs (\<^verbatim>\<open>src/trajectory-collect\<close>,
  \<^verbatim>\<open>src/trajectory_extract\<close>).  File names below are relative to \<^verbatim>\<open>codex-rs\<close> unless they start
  with one of the Python directories.  Definitions keep the names of the source; a name that
  clashes with a HOL constant has a suffix.

  \<^bold>\<open>Conventions.\<close>  A Rust \<^verbatim>\<open>String\<close> or Python \<^verbatim>\<open>str\<close> is a list of scalar values (\<open>str\<close>, natural
  numbers), a byte a natural number.  \<^verbatim>\<open>Result\<close> is a sum with \<open>Ok\<close> on the right.  A panic, an
  exception that the code does not catch and a loop that does not end are \<open>None\<close>; where debug and
  release builds differ, the flag \<open>debug\<close> is the build.  \<^verbatim>\<open>usize\<close> and \<^verbatim>\<open>i64\<close> have their bounds and
  saturating operations written out (\<open>Machine\<close>).  What is not in the repository is an argument
  of the definitions that use it: the file system and path operations of the patch tool, the
  writers it prints to, JSON and XML encodings, image decoding, hashes and embeddings.

  \<^bold>\<open>The patch tool\<close> (\<^verbatim>\<open>apply-patch\<close>).
  \<^item> \<open>Seek_Sequence\<close> (\<^verbatim>\<open>seek_sequence.rs\<close>): the four passes of the search for the old lines; a
    position is found exactly where the most lenient comparison allows one, and the strictest
    match wins.
  \<^item> \<open>Patch_Parser\<close>, \<open>Parser_Invariant\<close>, \<open>Patch_Grammar\<close> (\<^verbatim>\<open>parser.rs\<close>, \<^verbatim>\<open>streaming_parser.rs\<close>):
    the streaming state machine, with every error and line number.  The grammar of the header
    comment is an abstract syntax whose text the parser reads back; feeding a text in pieces
    equals feeding it whole; accepted hunks are complete.
  \<^item> \<open>Patch_Compute\<close> (\<^verbatim>\<open>lib.rs\<close>): replacements and new contents.  They refine an edit relation,
    never panic, and the backward application equals one forward pass.
  \<^item> \<open>Patch_Apply\<close>, \<open>Patch_Delta\<close> (\<^verbatim>\<open>lib.rs\<close>): hunks against a file system given by its operations.
    The locale of a lawful file system states what reading after writing returns; it is
    interpreted on an in-memory instance.  An exact delta replays and reverts, also after a
    failure, and files that no hunk names stay as they were.

  \<^bold>\<open>The stream parsers\<close> (\<^verbatim>\<open>utils/stream-parser\<close>).
  \<^item> \<open>Stream_Text\<close> has the chunk type and the locale of a stream parser; \<open>Inline_Hidden_Tag\<close>,
    \<open>Citation\<close>, \<open>Tagged_Line\<close>, \<open>Proposed_Plan\<close>, \<open>Assistant_Text\<close> and \<open>Utf8_Stream\<close> one file each.
    The results do not depend on how the text, or the bytes, are cut into chunks: each parser is
    equal to a reference that sees the whole text.  \<open>Utf8\<close> models \<^verbatim>\<open>std::str::from_utf8\<close>.

  \<^bold>\<open>The command policy\<close> (\<^verbatim>\<open>execpolicy\<close>).
  \<^item> \<open>Exec_Policy\<close> and \<open>Policy_Laws\<close> (\<^verbatim>\<open>rule.rs\<close>, \<^verbatim>\<open>policy.rs\<close>, \<^verbatim>\<open>decision.rs\<close>): rules, matching, merging
    and evaluation.  A decision is the strictest of the matches, an overlay never loosens it, and
    added rules change exactly the commands with their prefix.

  \<^bold>\<open>The history of a thread\<close> (\<^verbatim>\<open>core/src/context_manager\<close> and what it uses).
  \<^item> \<open>Response_Items\<close> (\<^verbatim>\<open>protocol/src/models.rs\<close>): the items of a conversation.
  \<^item> \<open>Truncate\<close> (\<^verbatim>\<open>utils/string\<close>, \<^verbatim>\<open>utils/output-truncation\<close>): truncation in the middle, which cuts at
    character boundaries and stays within the budget.
  \<^item> \<open>Context_Fragments\<close> (\<^verbatim>\<open>context-fragments\<close>, \<^verbatim>\<open>core/src/context\<close>, \<^verbatim>\<open>core/src/event_mapping.rs\<close>):
    injected context is recognised when it is read back.
  \<^item> \<open>History_Normalize\<close> (\<^verbatim>\<open>normalize.rs\<close>) and \<open>Context_Manager\<close> (\<^verbatim>\<open>history.rs\<close>, token usage of
    \<^verbatim>\<open>protocol/src/protocol.rs\<close>): calls and outputs are paired in every prompt, rollback removes
    exactly the turns asked for, token totals saturate and never wrap.
  \<^item> \<open>Head_Tail_Buffer\<close> (\<^verbatim>\<open>core/src/unified_exec/head_tail_buffer.rs\<close>): the capped output buffer holds
    the first and the last bytes of the output and never more than its capacity.

  \<open>Prelude\<close> has the string functions of the standard libraries and the lemmas on lists that the
  components share.

  \<^bold>\<open>Not modelled.\<close>  The terminal interface, the app server and its protocol, sandboxes, MCP,
  login, configuration, storage and network code of codex-rs act mostly by I/O, asynchronous tasks
  or third-party libraries; nothing of them is stated here.  Of \<^verbatim>\<open>execpolicy\<close>, the Starlark parser
  and the amendment of policy files are left out, since they rest on the Starlark interpreter and
  on file locks.  \<^verbatim>\<open>ContextManager::update_world_state\<close> compares snapshots of a world state that is
  not modelled.  The shell-script front of \<^verbatim>\<open>apply-patch\<close> (\<^verbatim>\<open>invocation.rs\<close>) needs the tree-sitter
  grammar of bash.
\<close>

end
